(* ===== verification/Rusty_Prelude.thy ===== *)
theory Rusty_Prelude
  imports Main "HOL-Library.Char_ord" "HOL-Library.List_Lexorder" "HOL-Library.Product_Lexorder"
    "HOL-Library.Sublist"
begin

text \<open>
  Shared vocabulary of the rustymail development: the result type of fallible Rust code, the
  fixed-width integer bounds, the parts of Rust's byte-string library the sources use
  (\<open>is_ascii\<close>, \<open>split_once\<close>, \<open>rsplit_once\<close>, \<open>trim_matches\<close>, \<open>split_ascii_whitespace\<close>, \<dots>),
  and the generic lemmas about them that the component theories rest on.

  A byte is a \<open>char\<close> (256 values), a byte slice or a \<open>&str\<close> is a \<open>char list\<close>; \<open>len()\<close> counts
  bytes in both, as in Rust.
\<close>

section \<open>Collections of facts\<close>

named_theorems ascii_simps \<open>unfoldings of the ASCII classification functions\<close>
named_theorems res_simps \<open>inversion of the result combinators\<close>

section \<open>Results\<close>

abbreviation Err :: "'e \<Rightarrow> 'e + 'a" where
  "Err \<equiv> Inl"

abbreviation Ok :: "'a \<Rightarrow> 'e + 'a" where
  "Ok \<equiv> Inr"

definition rbind :: "'e + 'a \<Rightarrow> ('a \<Rightarrow> 'e + 'b) \<Rightarrow> 'e + 'b" where
  "rbind r k = (case r of Inl e \<Rightarrow> Inl e | Inr x \<Rightarrow> k x)"

definition ok_or :: "'a option \<Rightarrow> 'e \<Rightarrow> 'e + 'a" where
  "ok_or v e = (case v of None \<Rightarrow> Inl e | Some x \<Rightarrow> Inr x)"

definition is_ok :: "'e + 'a \<Rightarrow> bool" where
  "is_ok r = (case r of Inl e \<Rightarrow> False | Inr x \<Rightarrow> True)"

lemma rbind_simps [simp]:
  "rbind (Inl e) k = Inl e"
  "rbind (Inr x) k = k x"
  by (simp_all add: rbind_def)

lemma rbind_Ok_iff [res_simps]: "rbind r k = Inr y \<longleftrightarrow> (\<exists>x. r = Inr x \<and> k x = Inr y)"
  by (cases r) auto

lemma rbind_Err_iff [res_simps]:
  "rbind r k = Inl e \<longleftrightarrow> r = Inl e \<or> (\<exists>x. r = Inr x \<and> k x = Inl e)"
  by (cases r) auto

lemma ok_or_simps [simp]:
  "ok_or None e = Inl e"
  "ok_or (Some x) e = Inr x"
  by (simp_all add: ok_or_def)

lemma ok_or_Ok_iff [res_simps]: "ok_or v e = Inr x \<longleftrightarrow> v = Some x"
  by (cases v) auto

lemma ok_or_Err_iff [res_simps]: "ok_or v e = Inl f \<longleftrightarrow> v = None \<and> f = e"
  by (cases v) auto

lemma map_sum_Ok_iff [res_simps]: "map_sum f g r = Inr x \<longleftrightarrow> (\<exists>y. r = Inr y \<and> x = g y)"
  by (cases r) auto

lemma is_ok_simps [simp]: "is_ok (Inl e) = False" "is_ok (Inr x) = True"
  by (simp_all add: is_ok_def)

section \<open>Widths of machine integers\<close>

definition u16_max :: nat where "u16_max = 65535"
definition u32_max :: nat where "u32_max = 4294967295"
definition u64_max :: nat where "u64_max = 18446744073709551615"
definition i64_max :: int where "i64_max = 9223372036854775807"
definition i64_min :: int where "i64_min = - 9223372036854775808"

text \<open>\<open>u64::checked_add\<close> and \<open>i64::checked_add\<close> / \<open>saturating_add\<close> / \<open>saturating_sub\<close> on
  values inside the width.\<close>

definition checked_add_u64 :: "nat \<Rightarrow> nat \<Rightarrow> nat option" where
  "checked_add_u64 a b = (if a + b \<le> u64_max then Some (a + b) else None)"

definition checked_sub_u64 :: "nat \<Rightarrow> nat \<Rightarrow> nat option" where
  "checked_sub_u64 a b = (if b \<le> a then Some (a - b) else None)"

definition checked_add_i64 :: "int \<Rightarrow> int \<Rightarrow> int option" where
  "checked_add_i64 a b = (if i64_min \<le> a + b \<and> a + b \<le> i64_max then Some (a + b) else None)"

definition saturating_add_i64 :: "int \<Rightarrow> int \<Rightarrow> int" where
  "saturating_add_i64 a b = max i64_min (min i64_max (a + b))"

definition saturating_sub_i64 :: "int \<Rightarrow> int \<Rightarrow> int" where
  "saturating_sub_i64 a b = max i64_min (min i64_max (a - b))"

lemma checked_add_u64_Some [res_simps]:
  "checked_add_u64 a b = Some c \<longleftrightarrow> c = a + b \<and> a + b \<le> u64_max"
  by (auto simp: checked_add_u64_def)

lemma checked_add_i64_Some [res_simps]:
  "checked_add_i64 a b = Some c \<longleftrightarrow> c = a + b \<and> i64_min \<le> a + b \<and> a + b \<le> i64_max"
  by (auto simp: checked_add_i64_def)

section \<open>Bytes and ASCII\<close>

type_synonym byte = char
type_synonym bytes = "char list"

abbreviation NUL :: byte where "NUL \<equiv> CHR 0x00"
abbreviation TAB :: byte where "TAB \<equiv> CHR 0x09"
abbreviation LF :: byte where "LF \<equiv> CHR 0x0A"
abbreviation CR :: byte where "CR \<equiv> CHR 0x0D"
abbreviation SP :: byte where "SP \<equiv> CHR '' ''"
abbreviation CRLF :: bytes where "CRLF \<equiv> [CR, LF]"

definition code :: "byte \<Rightarrow> nat" where
  "code c = of_char c"

definition is_ascii_byte :: "byte \<Rightarrow> bool" where
  "is_ascii_byte c \<longleftrightarrow> code c < 128"

definition is_ascii :: "bytes \<Rightarrow> bool" where
  "is_ascii s \<longleftrightarrow> list_all is_ascii_byte s"

definition is_ascii_control :: "byte \<Rightarrow> bool" where
  "is_ascii_control c \<longleftrightarrow> code c < 32 \<or> code c = 127"

definition is_ascii_digit :: "byte \<Rightarrow> bool" where
  "is_ascii_digit c \<longleftrightarrow> 48 \<le> code c \<and> code c \<le> 57"

definition is_ascii_uppercase :: "byte \<Rightarrow> bool" where
  "is_ascii_uppercase c \<longleftrightarrow> 65 \<le> code c \<and> code c \<le> 90"

definition is_ascii_lowercase :: "byte \<Rightarrow> bool" where
  "is_ascii_lowercase c \<longleftrightarrow> 97 \<le> code c \<and> code c \<le> 122"

definition is_ascii_alphanumeric :: "byte \<Rightarrow> bool" where
  "is_ascii_alphanumeric c \<longleftrightarrow> is_ascii_digit c \<or> is_ascii_uppercase c \<or> is_ascii_lowercase c"

text \<open>Rust's ASCII whitespace: tab, line feed, form feed, carriage return, space.\<close>

definition is_ascii_whitespace :: "byte \<Rightarrow> bool" where
  "is_ascii_whitespace c \<longleftrightarrow> code c = 9 \<or> code c = 10 \<or> code c = 12 \<or> code c = 13 \<or> code c = 32"

definition lower :: "byte \<Rightarrow> byte" where
  "lower c = (if is_ascii_uppercase c then char_of (code c + 32) else c)"

definition upper :: "byte \<Rightarrow> byte" where
  "upper c = (if is_ascii_lowercase c then char_of (code c - 32) else c)"

definition to_ascii_lowercase :: "bytes \<Rightarrow> bytes" where
  "to_ascii_lowercase s = map lower s"

definition to_ascii_uppercase :: "bytes \<Rightarrow> bytes" where
  "to_ascii_uppercase s = map upper s"

definition eq_ignore_ascii_case :: "bytes \<Rightarrow> bytes \<Rightarrow> bool" where
  "eq_ignore_ascii_case a b \<longleftrightarrow> to_ascii_lowercase a = to_ascii_lowercase b"

declare is_ascii_byte_def [ascii_simps] is_ascii_def [ascii_simps]
  is_ascii_control_def [ascii_simps] is_ascii_digit_def [ascii_simps]
  is_ascii_uppercase_def [ascii_simps] is_ascii_lowercase_def [ascii_simps]
  is_ascii_alphanumeric_def [ascii_simps] is_ascii_whitespace_def [ascii_simps]

lemma code_less: "code c < 256"
proof -
  have "(of_char c :: nat) mod 256 = of_char c" by simp
  then show ?thesis unfolding code_def by (metis mod_less_divisor zero_less_numeral)
qed

lemma code_inj: "code c = code d \<longleftrightarrow> c = d"
  unfolding code_def by simp

lemma code_char_of: "n < 256 \<Longrightarrow> code (char_of n) = n"
  unfolding code_def by simp

lemma code_lower: "code (lower c) = (if is_ascii_uppercase c then code c + 32 else code c)"
  by (simp add: lower_def is_ascii_uppercase_def code_char_of)

lemma lower_idem [simp]: "lower (lower c) = lower c"
proof (cases "is_ascii_uppercase c")
  case True
  then have "\<not> is_ascii_uppercase (lower c)"
    by (simp add: is_ascii_uppercase_def code_lower)
  then show ?thesis by (simp add: lower_def)
next
  case False
  then show ?thesis by (simp add: lower_def)
qed

lemma to_ascii_lowercase_idem [simp]:
  "to_ascii_lowercase (to_ascii_lowercase s) = to_ascii_lowercase s"
  by (simp add: to_ascii_lowercase_def)

lemma to_ascii_lowercase_simps [simp]:
  "to_ascii_lowercase [] = []"
  "to_ascii_lowercase (c # s) = lower c # to_ascii_lowercase s"
  "to_ascii_lowercase (s @ t) = to_ascii_lowercase s @ to_ascii_lowercase t"
  "length (to_ascii_lowercase s) = length s"
  by (simp_all add: to_ascii_lowercase_def)

lemma alphanumeric_lower [simp]: "is_ascii_alphanumeric (lower c) = is_ascii_alphanumeric c"
  by (auto simp: is_ascii_alphanumeric_def is_ascii_digit_def is_ascii_lowercase_def
      is_ascii_uppercase_def code_lower)

text \<open>Case folding never creates or removes a byte that is not a letter.\<close>

lemma lower_eq_nonletter:
  "\<not> is_ascii_lowercase d \<Longrightarrow> \<not> is_ascii_uppercase d \<Longrightarrow> lower c = d \<longleftrightarrow> c = d"
  unfolding code_inj [symmetric]
  by (auto simp: code_lower is_ascii_lowercase_def is_ascii_uppercase_def split: if_splits)

lemma is_ascii_simps [simp]:
  "is_ascii []"
  "is_ascii (c # s) \<longleftrightarrow> is_ascii_byte c \<and> is_ascii s"
  "is_ascii (s @ t) \<longleftrightarrow> is_ascii s \<and> is_ascii t"
  by (simp_all add: is_ascii_def)

lemma alphanumeric_ascii: "is_ascii_alphanumeric c \<Longrightarrow> is_ascii_byte c"
  by (auto simp: ascii_simps)

section \<open>Splitting and trimming\<close>

text \<open>\<open>str::split_once\<close>: at the first occurrence; \<open>rsplit_once\<close>: at the last.\<close>

fun split_once :: "byte \<Rightarrow> bytes \<Rightarrow> (bytes \<times> bytes) option" where
  "split_once d [] = None"
| "split_once d (c # s) =
     (if c = d then Some ([], s)
      else map_option (\<lambda>(a, b). (c # a, b)) (split_once d s))"

definition rsplit_once :: "byte \<Rightarrow> bytes \<Rightarrow> (bytes \<times> bytes) option" where
  "rsplit_once d s = map_option (\<lambda>(a, b). (rev b, rev a)) (split_once d (rev s))"

text \<open>\<open>split(d)\<close> yields one piece more than there are delimiters; an empty input has one
  (empty) piece.\<close>

fun split_on :: "(byte \<Rightarrow> bool) \<Rightarrow> bytes \<Rightarrow> bytes list" where
  "split_on p [] = [[]]"
| "split_on p (c # s) =
     (if p c then [] # split_on p s
      else (case split_on p s of [] \<Rightarrow> [[c]] | w # ws \<Rightarrow> (c # w) # ws))"

definition split_ascii_whitespace :: "bytes \<Rightarrow> bytes list" where
  "split_ascii_whitespace s = filter (\<lambda>w. w \<noteq> []) (split_on is_ascii_whitespace s)"

definition trim_matches :: "(byte \<Rightarrow> bool) \<Rightarrow> bytes \<Rightarrow> bytes" where
  "trim_matches p s = rev (dropWhile p (rev (dropWhile p s)))"

definition strip_prefix :: "bytes \<Rightarrow> bytes \<Rightarrow> bytes option" where
  "strip_prefix p s = (if prefix p s then Some (drop (length p) s) else None)"

definition strip_suffix :: "bytes \<Rightarrow> bytes \<Rightarrow> bytes option" where
  "strip_suffix p s = (if suffix p s then Some (take (length s - length p) s) else None)"

lemma split_once_Some_iff:
  "split_once d s = Some (a, b) \<longleftrightarrow> s = a @ d # b \<and> d \<notin> set a"
proof (induction s arbitrary: a)
  case Nil
  then show ?case by simp
next
  case (Cons c s)
  show ?case
  proof (cases a)
    case Nil
    then show ?thesis by auto
  next
    case (Cons x a')
    with Cons.IH [of a'] show ?thesis by auto
  qed
qed

lemma split_once_None_iff: "split_once d s = None \<longleftrightarrow> d \<notin> set s"
  by (induction s) auto

lemma rsplit_once_Some_iff:
  "rsplit_once d s = Some (a, b) \<longleftrightarrow> s = a @ d # b \<and> d \<notin> set b"
proof -
  have "rsplit_once d s = Some (a, b) \<longleftrightarrow> split_once d (rev s) = Some (rev b, rev a)"
    by (auto simp: rsplit_once_def)
  also have "\<dots> \<longleftrightarrow> rev s = rev b @ d # rev a \<and> d \<notin> set b"
    by (simp add: split_once_Some_iff)
  also have "rev s = rev b @ d # rev a \<longleftrightarrow> s = a @ d # b"
    by (metis append_Cons append_Nil append_assoc rev.simps(2) rev_append rev_rev_ident)
  finally show ?thesis .
qed

lemma rsplit_once_None_iff: "rsplit_once d s = None \<longleftrightarrow> d \<notin> set s"
  by (simp add: rsplit_once_def split_once_None_iff)

lemma split_on_not_Nil [simp]: "split_on p s \<noteq> []"
  by (cases s) (auto split: list.splits)

lemma split_on_append:
  assumes "p d"
  shows "split_on p (s @ d # t) = split_on p s @ split_on p t"
proof (induction s)
  case Nil
  then show ?case using assms by simp
next
  case (Cons c s)
  obtain w ws where "split_on p s = w # ws"
    by (cases "split_on p s") auto
  with Cons show ?case by simp
qed

lemma split_on_none: "(\<And>c. c \<in> set s \<Longrightarrow> \<not> p c) \<Longrightarrow> split_on p s = [s]"
  by (induction s) auto

lemma set_split_on: "\<Union> (set ` set (split_on p s)) = {c \<in> set s. \<not> p c}"
proof (induction s)
  case (Cons c s)
  obtain w ws where "split_on p s = w # ws"
    by (cases "split_on p s") auto
  with Cons show ?case by auto
qed simp

text \<open>The bytes of a string that lie outside the delimiter class are exactly those of its pieces.\<close>

lemma split_on_all:
  "(\<forall>w\<in>set (split_on p s). \<forall>c\<in>set w. Q c) \<longleftrightarrow> (\<forall>c\<in>set s. \<not> p c \<longrightarrow> Q c)"
  using set_split_on [of p s] by blast

lemma split_on_map:
  assumes "\<And>c. p (f c) = p c"
  shows "split_on p (map f s) = map (map f) (split_on p s)"
  by (induction s) (auto simp: assms split: list.splits)

lemma trim_matches_id:
  assumes "s \<noteq> []" "\<not> p (hd s)" "\<not> p (last s)"
  shows "trim_matches p s = s"
proof -
  have "dropWhile p s = s" using assms by (cases s) auto
  moreover have "dropWhile p (rev s) = rev s"
    using assms by (cases "rev s") (auto simp: last_rev hd_rev [symmetric])
  ultimately show ?thesis by (simp add: trim_matches_def)
qed

lemma trim_matches_Nil [simp]: "trim_matches p [] = []"
  by (simp add: trim_matches_def)

lemma set_trim_matches: "set (trim_matches p s) \<subseteq> set s"
  unfolding trim_matches_def by (metis set_dropWhileD set_rev subsetI)

lemma strip_prefix_Some_iff: "strip_prefix p s = Some t \<longleftrightarrow> s = p @ t"
  by (auto simp: strip_prefix_def prefix_def)

lemma strip_suffix_Some_iff: "strip_suffix p s = Some t \<longleftrightarrow> s = t @ p"
  by (auto simp: strip_suffix_def suffix_def)

section \<open>Decimal numbers\<close>

definition digit_value :: "byte \<Rightarrow> nat" where
  "digit_value c = code c - 48"

definition decimal_value :: "bytes \<Rightarrow> nat" where
  "decimal_value s = foldl (\<lambda>n c. 10 * n + digit_value c) 0 s"

text \<open>\<open>str::parse::<u64>\<close>: an optional leading plus sign, then at least one digit, and the
  value has to fit.\<close>

definition parse_u64 :: "bytes \<Rightarrow> nat option" where
  "parse_u64 s =
     (let digits = (case s of c # t \<Rightarrow> if c = CHR ''+'' then t else s | [] \<Rightarrow> s)
      in if digits \<noteq> [] \<and> list_all is_ascii_digit digits \<and> decimal_value digits \<le> u64_max
         then Some (decimal_value digits) else None)"

text \<open>\<open>format!("{}", n)\<close>.\<close>

fun show_nat :: "nat \<Rightarrow> bytes" where
  "show_nat n = (if n < 10 then [char_of (48 + n)]
                 else show_nat (n div 10) @ [char_of (48 + n mod 10)])"

declare show_nat.simps [simp del]

lemma digit_char: "(d::nat) < 10 \<Longrightarrow> is_ascii_digit (char_of (48 + d))"
  by (simp add: is_ascii_digit_def code_char_of)

lemma digit_value_char: "(d::nat) < 10 \<Longrightarrow> digit_value (char_of (48 + d)) = d"
  by (simp add: digit_value_def code_char_of)

lemma decimal_value_snoc: "decimal_value (s @ [c]) = 10 * decimal_value s + digit_value c"
  by (simp add: decimal_value_def)

lemma show_nat_digits: "list_all is_ascii_digit (show_nat n)"
proof (induction n rule: show_nat.induct)
  case (1 n)
  show ?case
  proof (cases "n < 10")
    case True
    then show ?thesis by (subst show_nat.simps) (simp add: digit_char del: add.commute)
  next
    case False
    moreover have "is_ascii_digit (char_of (48 + n mod 10))" by (rule digit_char) simp
    ultimately show ?thesis using 1 by (subst show_nat.simps) (simp del: char_of_mod_256)
  qed
qed

lemma show_nat_value: "decimal_value (show_nat n) = n"
proof (induction n rule: show_nat.induct)
  case (1 n)
  show ?case
  proof (cases "n < 10")
    case True
    then show ?thesis
      by (subst show_nat.simps) (simp add: decimal_value_def digit_value_char)
  next
    case False
    with 1 have "decimal_value (show_nat (n div 10)) = n div 10" by simp
    with False show ?thesis
      by (subst show_nat.simps) (simp add: decimal_value_snoc digit_value_char)
  qed
qed

lemma show_nat_not_Nil [simp]: "show_nat n \<noteq> []"
  by (subst show_nat.simps) simp

lemma show_nat_hd_not_plus: "hd (show_nat n) \<noteq> CHR ''+''"
proof -
  have "is_ascii_digit (hd (show_nat n))"
    using show_nat_digits [of n] by (cases "show_nat n") (auto dest: arg_cong [where f = "\<lambda>x. x = []"])
  then show ?thesis by (auto simp: is_ascii_digit_def code_def)
qed

lemma parse_show_nat: "n \<le> u64_max \<Longrightarrow> parse_u64 (show_nat n) = Some n"
proof -
  assume "n \<le> u64_max"
  moreover obtain c t where c: "show_nat n = c # t"
    by (cases "show_nat n") (auto dest: arg_cong [where f = "\<lambda>x. x = []"])
  then have "c \<noteq> CHR ''+''" using show_nat_hd_not_plus [of n] by simp
  ultimately show ?thesis
    using show_nat_digits [of n] show_nat_value [of n] by (simp add: parse_u64_def c)
qed

section \<open>Machines\<close>

text \<open>A deterministic machine answers every event with an output and a new state. \<open>trace\<close> is the
  list of its exchanges, \<open>after\<close> the state it ends in.\<close>

fun trace :: "('s \<Rightarrow> 'v \<Rightarrow> 'o \<times> 's) \<Rightarrow> 's \<Rightarrow> 'v list \<Rightarrow> ('v \<times> 'o) list" where
  "trace step s [] = []"
| "trace step s (v # vs) = (let (out, s') = step s v in (v, out) # trace step s' vs)"

fun after :: "('s \<Rightarrow> 'v \<Rightarrow> 'o \<times> 's) \<Rightarrow> 's \<Rightarrow> 'v list \<Rightarrow> 's" where
  "after step s [] = s"
| "after step s (v # vs) = after step (snd (step s v)) vs"

text \<open>
  An invariant that may speak of the whole history of exchanges. A client of the contract knows
  it before every exchange of a trace and after the trace.
\<close>

locale machine_invariant =
  fixes step :: "'s \<Rightarrow> 'v \<Rightarrow> 'o \<times> 's"
    and inv :: "'s \<Rightarrow> ('v \<times> 'o) list \<Rightarrow> bool"
  assumes inv_step: "inv s h \<Longrightarrow> step s v = (out, s') \<Longrightarrow> inv s' (h @ [(v, out)])"
begin

lemma inv_after: "inv s h \<Longrightarrow> inv (after step s vs) (h @ trace step s vs)"
proof (induction vs arbitrary: s h)
  case (Cons v vs)
  obtain out s' where "step s v = (out, s')" by fastforce
  with Cons.IH [OF inv_step [OF Cons.prems this]] show ?case by simp
qed simp

lemma inv_before:
  assumes "inv s h" "trace step s vs = pre @ (v, out) # post"
  obtains s1 s2 where "inv s1 (h @ pre)" "step s1 v = (out, s2)"
  using assms
proof (induction vs arbitrary: s h pre thesis)
  case (Cons w vs)
  obtain o1 s1 where st: "step s w = (o1, s1)" by fastforce
  show ?case
  proof (cases pre)
    case Nil
    with Cons.prems st show ?thesis by auto
  next
    case (Cons x pre')
    with Cons.prems(3) st have "x = (w, o1)" "trace step s1 vs = pre' @ (v, out) # post" by auto
    with Cons.IH [OF _ inv_step [OF Cons.prems(2) st]] Cons.prems(1) Cons show ?thesis by auto
  qed
qed simp

end

end
