(* ===== verification/Address.thy ===== *)
theory Address
  imports Rusty_Prelude
begin

text \<open>
  Mailbox addresses, \<open>crates/core/src/lib.rs\<close>: \<open>valid_domain\<close>, \<open>Address::parse\<close> and the accessors
  \<open>as_str\<close>, \<open>domain\<close>, \<open>local_key\<close>. The facts other components rely on are gathered in
  \<open>addr_wf\<close>: what a value built by \<open>Address::parse\<close> looks like.
\<close>

section \<open>Model\<close>

definition LOCAL_DELIVERY_OVERHEAD_BYTES :: nat where
  "LOCAL_DELIVERY_OVERHEAD_BYTES = 2048"

datatype address = Address (as_str: string)

datatype address_error = AddressError

definition valid_label :: "string \<Rightarrow> bool" where
  "valid_label label \<longleftrightarrow>
     label \<noteq> [] \<and> length label \<le> 63
     \<and> is_ascii_alphanumeric (hd label)
     \<and> is_ascii_alphanumeric (last label)
     \<and> list_all (\<lambda>c. is_ascii_alphanumeric c \<or> c = CHR ''-'') label"

definition valid_domain :: "string \<Rightarrow> bool" where
  "valid_domain d \<longleftrightarrow>
     length d \<le> 253 \<and> d \<noteq> [] \<and> list_all valid_label (split_on (\<lambda>c. c = CHR ''.'') d)"

definition local_punctuation :: "byte list" where
  "local_punctuation = ''!#$%&'' @ [CHR 0x27] @ ''*+-/=?^_'' @ [CHR 0x60] @ ''{|}~.''"

definition local_byte :: "byte \<Rightarrow> bool" where
  "local_byte c \<longleftrightarrow> is_ascii_alphanumeric c \<or> c \<in> set local_punctuation"

definition invalid_parts :: "string \<Rightarrow> string \<Rightarrow> string \<Rightarrow> bool" where
  "invalid_parts input loc host \<longleftrightarrow>
     length input > 254
     \<or> loc = []
     \<or> length loc > 64
     \<or> prefix ''.'' loc
     \<or> suffix ''.'' loc
     \<or> sublist ''..'' loc
     \<or> \<not> list_all local_byte loc
     \<or> \<not> valid_domain host"

definition parse :: "string \<Rightarrow> address_error + address" where
  "parse input =
     rbind (ok_or (rsplit_once (CHR ''@'') input) AddressError) (\<lambda>(loc, host).
       if invalid_parts input loc host then Err AddressError
       else Ok (Address (loc @ ''@'' @ to_ascii_lowercase host)))"

definition domain :: "address \<Rightarrow> string" where
  "domain a = (case rsplit_once (CHR ''@'') (as_str a) of None \<Rightarrow> [] | Some (l, d) \<Rightarrow> d)"

definition local_key :: "address \<Rightarrow> string" where
  "local_key a = to_ascii_lowercase (as_str a)"

section \<open>What a parsed address looks like\<close>

definition valid_local :: "string \<Rightarrow> bool" where
  "valid_local loc \<longleftrightarrow> loc \<noteq> [] \<and> length loc \<le> 64 \<and> \<not> prefix ''.'' loc \<and> \<not> suffix ''.'' loc
     \<and> \<not> sublist ''..'' loc \<and> list_all local_byte loc"

definition addr_wf :: "address \<Rightarrow> bool" where
  "addr_wf a \<longleftrightarrow> (\<exists>loc host. as_str a = loc @ ''@'' @ host \<and> valid_local loc \<and> valid_domain host
      \<and> to_ascii_lowercase host = host \<and> length (as_str a) \<le> 254)"

definition domain_byte :: "byte \<Rightarrow> bool" where
  "domain_byte c \<longleftrightarrow> is_ascii_alphanumeric c \<or> c = CHR ''-'' \<or> c = CHR ''.''"

text \<open>Bytes that carry meaning in an SMTP command or a header line.\<close>

definition wire_safe :: "byte \<Rightarrow> bool" where
  "wire_safe c \<longleftrightarrow> is_ascii_byte c \<and> \<not> is_ascii_control c \<and> c \<noteq> SP \<and> c \<noteq> CHR ''<'' \<and> c \<noteq> CHR ''>''"

lemma local_byte_no_at: "local_byte c \<Longrightarrow> c \<noteq> CHR ''@''"
  by (auto simp: local_byte_def local_punctuation_def ascii_simps code_def)

lemma local_byte_wire_safe: "local_byte c \<Longrightarrow> wire_safe c"
  by (auto simp: local_byte_def local_punctuation_def wire_safe_def ascii_simps code_def)

lemma domain_byte_wire_safe: "domain_byte c \<Longrightarrow> wire_safe c \<and> c \<noteq> CHR ''@''"
  by (auto simp: domain_byte_def wire_safe_def ascii_simps code_def)

lemma valid_label_bytes: "valid_label w \<Longrightarrow> c \<in> set w \<Longrightarrow> domain_byte c"
  by (auto simp: valid_label_def list_all_iff domain_byte_def)

lemma valid_domain_bytes:
  assumes "valid_domain d" "c \<in> set d"
  shows "domain_byte c"
proof (cases "c = CHR ''.''")
  case True
  then show ?thesis by (simp add: domain_byte_def)
next
  case False
  with assms(2) obtain w where "w \<in> set (split_on (\<lambda>c. c = CHR ''.'') d)" "c \<in> set w"
    using set_split_on [of "\<lambda>c. c = CHR ''.''" d] by blast
  with assms(1) show ?thesis
    by (auto simp: valid_domain_def list_all_iff intro: valid_label_bytes)
qed

lemma valid_domain_ascii: "valid_domain d \<Longrightarrow> is_ascii d"
  using valid_domain_bytes domain_byte_wire_safe
  by (fastforce simp: is_ascii_def list_all_iff wire_safe_def)

lemma lower_fixed_iff:
  "lower c = CHR ''.'' \<longleftrightarrow> c = CHR ''.''"
  "lower c = CHR ''-'' \<longleftrightarrow> c = CHR ''-''"
  "lower c = CHR ''@'' \<longleftrightarrow> c = CHR ''@''"
  by (rule lower_eq_nonletter; simp add: ascii_simps code_def)+

lemmas lower_fixed = lower_fixed_iff lower_fixed_iff [unfolded eq_commute [of "lower _"]]

lemma valid_label_lower: "valid_label w \<Longrightarrow> valid_label (map lower w)"
  by (simp add: valid_label_def list_all_iff hd_map last_map lower_fixed_iff)

lemma valid_domain_lower:
  assumes "valid_domain d"
  shows "valid_domain (to_ascii_lowercase d)"
proof -
  have "split_on (\<lambda>c. c = CHR ''.'') (to_ascii_lowercase d)
      = map (map lower) (split_on (\<lambda>c. c = CHR ''.'') d)"
    unfolding to_ascii_lowercase_def by (rule split_on_map) (rule lower_fixed_iff)
  with assms show ?thesis
    by (auto simp: valid_domain_def list_all_iff intro: valid_label_lower)
      (simp add: to_ascii_lowercase_def)
qed

lemma parse_eq_Ok_iff:
  "parse input = Ok a \<longleftrightarrow>
     (\<exists>loc host. input = loc @ ''@'' @ host \<and> valid_local loc \<and> valid_domain host
       \<and> length input \<le> 254 \<and> a = Address (loc @ ''@'' @ to_ascii_lowercase host))"
  (is "?lhs \<longleftrightarrow> ?rhs")
proof
  assume ?lhs
  then obtain loc host where "rsplit_once (CHR ''@'') input = Some (loc, host)"
    and "\<not> invalid_parts input loc host" and "a = Address (loc @ ''@'' @ to_ascii_lowercase host)"
    by (auto simp: parse_def res_simps split: if_splits)
  then show ?rhs
    by (auto simp: rsplit_once_Some_iff invalid_parts_def valid_local_def not_less)
next
  assume ?rhs
  then obtain loc host where i: "input = loc @ ''@'' @ host" "valid_local loc" "valid_domain host"
      "length input \<le> 254" "a = Address (loc @ ''@'' @ to_ascii_lowercase host)" by blast
  then have "CHR ''@'' \<notin> set host"
    using valid_domain_bytes domain_byte_wire_safe by blast
  with i have "rsplit_once (CHR ''@'') input = Some (loc, host)"
    by (simp add: rsplit_once_Some_iff)
  moreover from i have "\<not> invalid_parts input loc host"
    by (auto simp: invalid_parts_def valid_local_def not_less)
  ultimately show ?lhs using i by (simp add: parse_def)
qed

lemma parse_wf: "parse input = Ok a \<Longrightarrow> addr_wf a"
proof -
  assume "parse input = Ok a"
  then obtain loc host where "valid_local loc" "valid_domain host" "length (loc @ ''@'' @ host) \<le> 254"
      "as_str a = loc @ ''@'' @ to_ascii_lowercase host"
    unfolding parse_eq_Ok_iff by auto
  then show ?thesis
    unfolding addr_wf_def
    by (intro exI [of _ loc] exI [of _ "to_ascii_lowercase host"]) (auto intro: valid_domain_lower)
qed

lemma addr_wf_parse: "addr_wf a \<Longrightarrow> parse (as_str a) = Ok a"
proof -
  assume "addr_wf a"
  then obtain loc host where "as_str a = loc @ ''@'' @ host" "valid_local loc" "valid_domain host"
      "to_ascii_lowercase host = host" "length (as_str a) \<le> 254"
    by (auto simp: addr_wf_def)
  then show ?thesis
    unfolding parse_eq_Ok_iff
    by (intro exI [of _ loc] exI [of _ host]) (cases a, auto)
qed

lemma addr_wf_domain:
  assumes "addr_wf a"
  obtains loc where "as_str a = loc @ ''@'' @ domain a" "valid_local loc" "valid_domain (domain a)"
    "to_ascii_lowercase (domain a) = domain a"
proof -
  obtain loc host where a: "as_str a = loc @ ''@'' @ host" "valid_local loc" "valid_domain host"
      "to_ascii_lowercase host = host"
    using assms by (auto simp: addr_wf_def)
  then have "CHR ''@'' \<notin> set host"
    using valid_domain_bytes domain_byte_wire_safe by blast
  with a have "rsplit_once (CHR ''@'') (as_str a) = Some (loc, host)"
    by (simp add: rsplit_once_Some_iff)
  then have "domain a = host" by (simp add: domain_def)
  with a that show ?thesis by blast
qed

lemma addr_wf_wire_safe:
  assumes "addr_wf a" "c \<in> set (as_str a)"
  shows "wire_safe c"
proof -
  obtain loc where a: "as_str a = loc @ ''@'' @ domain a" "valid_local loc" "valid_domain (domain a)"
    using assms(1) by (rule addr_wf_domain)
  have "wire_safe (CHR ''@'')" by (simp add: wire_safe_def ascii_simps code_def)
  moreover have "wire_safe c" if "c \<in> set loc"
    using that a(2) by (auto simp: valid_local_def list_all_iff intro: local_byte_wire_safe)
  moreover have "wire_safe c" if "c \<in> set (domain a)"
    using valid_domain_bytes [OF a(3) that] domain_byte_wire_safe by blast
  ultimately show ?thesis using assms(2) a(1) by (metis UnE append_Cons append_Nil set_ConsD set_append)
qed

lemma addr_wf_one_at: "addr_wf a \<Longrightarrow> count_list (as_str a) (CHR ''@'') = 1"
proof -
  assume "addr_wf a"
  then obtain loc where a: "as_str a = loc @ ''@'' @ domain a" "valid_local loc"
      "valid_domain (domain a)" by (rule addr_wf_domain)
  have "CHR ''@'' \<notin> set loc"
    using a(2) local_byte_no_at by (fastforce simp: valid_local_def list_all_iff)
  moreover have "CHR ''@'' \<notin> set (domain a)"
    using valid_domain_bytes [OF a(3)] domain_byte_wire_safe by blast
  ultimately have "count_list (loc @ ''@'' @ domain a) (CHR ''@'') = 1"
    by (simp add: count_list_0_iff [THEN iffD2])
  then show ?thesis using a(1) by simp
qed

lemma local_key_idem: "to_ascii_lowercase (local_key a) = local_key a"
  by (simp add: local_key_def)

lemma local_byte_lower: "local_byte c \<Longrightarrow> local_byte (lower c)"
proof -
  assume c: "local_byte c"
  have "lower c = c" if "\<not> is_ascii_alphanumeric c"
    using that by (simp add: lower_def is_ascii_alphanumeric_def)
  with c show ?thesis
    by (cases "is_ascii_alphanumeric c") (simp_all add: local_byte_def)
qed

lemma map_lower_dots: "sublist ''..'' (map lower s) \<Longrightarrow> sublist ''..'' s"
proof -
  assume "sublist ''..'' (map lower s)"
  then obtain u v where "map lower s = u @ ''..'' @ v" by (auto simp: sublist_def)
  then obtain u' v' where "s = u' @ ''..'' @ v'"
    by (auto simp: map_eq_append_conv map_eq_Cons_conv append_eq_map_conv Cons_eq_map_conv lower_fixed)
  then show ?thesis by (auto simp: sublist_def)
qed

lemma valid_local_lower:
  assumes "valid_local l"
  shows "valid_local (map lower l)"
proof -
  have "\<not> prefix ''.'' (map lower l)"
    using assms by (cases l) (auto simp: valid_local_def lower_fixed)
  moreover have "\<not> suffix ''.'' (map lower l)"
    using assms by (cases l rule: rev_cases) (auto simp: valid_local_def lower_fixed suffix_def)
  ultimately show ?thesis
    using assms map_lower_dots local_byte_lower by (auto simp: valid_local_def list_all_iff)
qed

lemma local_key_wf:
  assumes "addr_wf a"
  shows "addr_wf (Address (local_key a))"
proof -
  obtain loc where a: "as_str a = loc @ ''@'' @ domain a" "valid_local loc"
      "valid_domain (domain a)" "to_ascii_lowercase (domain a) = domain a"
    using assms by (rule addr_wf_domain)
  have at: "lower (CHR ''@'') = CHR ''@''"
    by (simp add: lower_def ascii_simps code_def)
  have "local_key a = map lower loc @ ''@'' @ domain a"
    unfolding local_key_def by (subst a(1)) (simp add: a(4) at, simp add: to_ascii_lowercase_def)
  moreover have "length (local_key a) \<le> 254"
    using assms by (auto simp: local_key_def addr_wf_def)
  ultimately show ?thesis
    using a(3,4) valid_local_lower [OF a(2)] by (auto simp: addr_wf_def)
qed

lemma at_position:
  assumes "x @ ''@'' @ y = u @ ''@'' @ v" "count_list (x @ ''@'' @ y) (CHR ''@'') = 1"
  shows "length x = length u"
proof -
  have "CHR ''@'' \<notin> set x" "CHR ''@'' \<notin> set u"
    using assms(2) assms(2) [unfolded assms(1)] by (auto simp: count_list_0_iff)
  with assms(1) show ?thesis by (auto simp: append_eq_append_conv2 append_eq_Cons_conv Cons_eq_append_conv)
qed

text \<open>Property C31. A parsed address is canonical: it has exactly one at sign, keeps the local part
  byte for byte and its domain in lower case, at most 254 bytes long, with nothing that could leave
  its place in a command or header line (no blank, control or angle bracket); parsing its
  text again gives it back, and its local routing key is an address too.\<close>

theorem address_canonical:
  assumes "parse input = Ok a"
  shows "parse (as_str a) = Ok a \<and> parse (local_key a) = Ok (Address (local_key a))
    \<and> count_list (as_str a) (CHR ''@'') = 1 \<and> length (as_str a) \<le> 254 \<and> list_all wire_safe (as_str a)
    \<and> (\<exists>loc host. input = loc @ ''@'' @ host \<and> as_str a = loc @ ''@'' @ to_ascii_lowercase host
        \<and> domain a = to_ascii_lowercase host \<and> valid_domain (domain a))"
proof -
  have wf: "addr_wf a" using assms by (rule parse_wf)
  obtain loc host where i: "input = loc @ ''@'' @ host" "as_str a = loc @ ''@'' @ to_ascii_lowercase host"
    using assms unfolding parse_eq_Ok_iff by auto
  obtain loc2 where d: "as_str a = loc2 @ ''@'' @ domain a" "valid_domain (domain a)" using wf by (rule addr_wf_domain)
  have "length loc = length loc2"
    using addr_wf_one_at [OF wf] i(2) d(1) at_position [of loc "to_ascii_lowercase host" loc2 "domain a"] by simp
  then have "domain a = to_ascii_lowercase host" using i(2) d(1) by simp
  with wf i d addr_wf_parse [OF wf] addr_wf_parse [OF local_key_wf [OF wf]] addr_wf_one_at [OF wf] addr_wf_wire_safe [OF wf]
  show ?thesis by (auto simp: addr_wf_def list_all_iff)
qed

theorem address_canonical_witness:
  "parse (as_str (Address ''Jo@a.example'')) = Ok (Address ''Jo@a.example'')"
proof -
  have "parse ''Jo@A.Example'' = Ok (Address ''Jo@a.example'')" by code_simp
  from address_canonical [OF this] show ?thesis by blast
qed

end
