(* ===== verification/Framing.thy ===== *)
theory Framing
  imports Rusty_Prelude
begin

text \<open>
  Bounded CRLF framing, \<open>crates/protocol/src/lib.rs\<close>: \<open>LineDecoder\<close> with its operations, the two
  decoders of SMTP transparency, and the reading loops built on the decoder (\<open>fill_line\<close> and
  \<open>line\<close> of the server, \<open>line\<close> of the client, and the inner loop that the client's \<open>prepare\<close> and
  \<open>send_body\<close> share). A buffered reader is the list of the chunks it will still deliver, the
  first of them being what is buffered now.
\<close>

section \<open>Model\<close>

datatype frame_error = TooLong | InvalidLineEnding

record line_decoder =
  buffer :: bytes
  limit :: nat
  complete :: bool

definition new_decoder :: "nat \<Rightarrow> line_decoder" where
  "new_decoder n = \<lparr>buffer = [], limit = n, complete = False\<rparr>"

definition last_byte :: "bytes \<Rightarrow> byte option" where
  "last_byte b = (if b = [] then None else Some (last b))"

text \<open>The three reasons to refuse a byte: a NUL, a line feed that follows no carriage return,
  and anything but a line feed after a carriage return.\<close>

definition bad_byte :: "bytes \<Rightarrow> byte \<Rightarrow> bool" where
  "bad_byte b c \<longleftrightarrow> c = NUL \<or> (c = LF \<and> last_byte b \<noteq> Some CR) \<or> (last_byte b = Some CR \<and> c \<noteq> LF)"

fun feed_loop :: "line_decoder \<Rightarrow> nat \<Rightarrow> bytes \<Rightarrow> (frame_error + nat \<times> bool) \<times> line_decoder" where
  "feed_loop d i [] = (Ok (i, False), d)"
| "feed_loop d i (c # cs) =
     (if length (buffer d) = limit d then (Err TooLong, d)
      else if bad_byte (buffer d) c then (Err InvalidLineEnding, d)
      else let d' = d\<lparr>buffer := buffer d @ [c]\<rparr>
           in if c = LF then (Ok (i + 1, True), d'\<lparr>complete := True\<rparr>)
              else feed_loop d' (i + 1) cs)"

definition feed_buffered :: "line_decoder \<Rightarrow> bytes \<Rightarrow> (frame_error + nat \<times> bool) \<times> line_decoder" where
  "feed_buffered d bs = (if complete d then (Ok (0, True), d) else feed_loop d 0 bs)"

definition frame :: "line_decoder \<Rightarrow> bytes option" where
  "frame d = (if complete d then Some (buffer d) else None)"

definition take_line :: "line_decoder \<Rightarrow> bytes option \<times> line_decoder" where
  "take_line d =
     (if \<not> complete d then (None, d)
      else (Some (take (length (buffer d) - 2) (buffer d)), d\<lparr>buffer := [], complete := False\<rparr>))"

definition feed :: "line_decoder \<Rightarrow> bytes \<Rightarrow> (frame_error + nat \<times> bytes option) \<times> line_decoder" where
  "feed d bs =
     (case feed_buffered d bs of
        (Err e, d') \<Rightarrow> (Err e, d')
      | (Ok (used, _), d') \<Rightarrow> (let (l, d'') = take_line d' in (Ok (used, l), d'')))"

definition clear :: "line_decoder \<Rightarrow> line_decoder" where
  "clear d = d\<lparr>buffer := [], complete := False\<rparr>"

definition buffered_bytes :: "line_decoder \<Rightarrow> nat" where
  "buffered_bytes d = length (buffer d)"

definition decode_data_line :: "bytes \<Rightarrow> frame_error + bytes option" where
  "decode_data_line l =
     (if l = ''.'' then Ok None
      else let l' = (case l of c # cs \<Rightarrow> if c = CHR ''.'' then cs else l | [] \<Rightarrow> l)
           in if length l' + 2 > 1000 then Err TooLong else Ok (Some (l' @ CRLF)))"

definition decode_data_frame :: "bytes \<Rightarrow> frame_error + bytes option" where
  "decode_data_frame f =
     (if \<not> suffix CRLF f then Err InvalidLineEnding
      else if f = ''.'' @ CRLF then Ok None
      else let d = (case strip_prefix ''.'' f of None \<Rightarrow> f | Some t \<Rightarrow> t)
           in if length d > 1000 then Err TooLong else Ok (Some d))"

section \<open>The decoder's invariant\<close>

definition clean :: "bytes \<Rightarrow> bool" where
  "clean s \<longleftrightarrow> CR \<notin> set s \<and> LF \<notin> set s \<and> NUL \<notin> set s"

text \<open>What may be buffered while no line is complete.\<close>

definition partial_line :: "bytes \<Rightarrow> bool" where
  "partial_line b \<longleftrightarrow> clean b \<or> (\<exists>s. b = s @ [CR] \<and> clean s)"

definition whole_line :: "bytes \<Rightarrow> bool" where
  "whole_line b \<longleftrightarrow> (\<exists>s. b = s @ CRLF \<and> clean s)"

definition decoder_inv :: "line_decoder \<Rightarrow> bool" where
  "decoder_inv d \<longleftrightarrow> length (buffer d) \<le> limit d
     \<and> (if complete d then whole_line (buffer d) else partial_line (buffer d))"

lemma clean_simps [simp]:
  "clean []"
  "clean (c # s) \<longleftrightarrow> c \<noteq> CR \<and> c \<noteq> LF \<and> c \<noteq> NUL \<and> clean s"
  "clean (s @ t) \<longleftrightarrow> clean s \<and> clean t"
  by (auto simp: clean_def)

lemma last_byte_simps [simp]:
  "last_byte [] = None"
  "last_byte (s @ [c]) = Some c"
  by (simp_all add: last_byte_def)

lemma clean_last: "clean s \<Longrightarrow> last_byte s \<noteq> Some CR"
  by (auto simp: last_byte_def clean_def dest: last_in_set)

lemma partial_good_byte:
  assumes "partial_line b" "\<not> bad_byte b c"
  shows "if c = LF then whole_line (b @ [c]) else partial_line (b @ [c])"
proof (cases "clean b")
  case True
  with assms(2) show ?thesis
    using clean_last [of b] by (auto simp: bad_byte_def partial_line_def)
next
  case False
  with assms(1) obtain s where "b = s @ [CR]" "clean s" by (auto simp: partial_line_def)
  with assms(2) show ?thesis by (auto simp: bad_byte_def whole_line_def)
qed

lemma new_decoder_inv [simp]: "decoder_inv (new_decoder n)"
  by (simp add: decoder_inv_def new_decoder_def partial_line_def)

lemma clear_inv [simp]: "decoder_inv d \<Longrightarrow> decoder_inv (clear d)"
  by (simp add: decoder_inv_def clear_def partial_line_def)

lemma feed_loop_inv:
  assumes "decoder_inv d" "\<not> complete d" "feed_loop d i bs = (r, d')"
  shows "decoder_inv d' \<and> limit d' = limit d \<and> (complete d' \<longleftrightarrow> (\<exists>n. r = Ok (n, True)))"
  using assms
proof (induction d i bs rule: feed_loop.induct)
  case (2 d i c cs)
  show ?case
  proof (cases "length (buffer d) = limit d \<or> bad_byte (buffer d) c")
    case True
    with "2.prems" show ?thesis by (auto split: if_splits)
  next
    case False
    let ?d = "d\<lparr>buffer := buffer d @ [c]\<rparr>"
    have good: "if c = LF then whole_line (buffer ?d) else partial_line (buffer ?d)"
      using partial_good_byte [of "buffer d" c] False "2.prems" by (auto simp: decoder_inv_def)
    have len: "length (buffer ?d) \<le> limit ?d"
      using False "2.prems" by (auto simp: decoder_inv_def)
    show ?thesis
    proof (cases "c = LF")
      case True
      with False good len "2.prems" show ?thesis by (auto simp: decoder_inv_def)
    next
      case False': False
      with good len "2.prems" have "decoder_inv ?d" by (simp add: decoder_inv_def)
      with "2.IH" [OF _ _ refl False'] False False' "2.prems" show ?thesis by auto
    qed
  qed
qed auto

lemma feed_buffered_inv:
  assumes "decoder_inv d" "feed_buffered d bs = (r, d')"
  shows "decoder_inv d' \<and> limit d' = limit d"
  using assms feed_loop_inv [OF assms(1)]
  by (auto simp: feed_buffered_def split: if_splits)

lemma take_line_inv: "decoder_inv d \<Longrightarrow> decoder_inv (snd (take_line d))"
  by (auto simp: decoder_inv_def take_line_def partial_line_def)

lemma take_line_clean:
  "decoder_inv d \<Longrightarrow> take_line d = (Some l, d') \<Longrightarrow> clean l \<and> buffer d = l @ CRLF"
  by (auto simp: decoder_inv_def take_line_def whole_line_def split: if_splits)

section \<open>Feeding in pieces\<close>

lemma feed_loop_shift:
  "feed_loop d (i + k) bs =
     (case feed_loop d i bs of (Err e, d') \<Rightarrow> (Err e, d') | (Ok (n, b), d') \<Rightarrow> (Ok (n + k, b), d'))"
proof (induction bs arbitrary: d i)
  case (Cons c cs)
  from Cons.IH [of "d\<lparr>buffer := buffer d @ [c]\<rparr>" "Suc i"] show ?case
    by (auto simp: Let_def)
qed simp

lemma feed_loop_append:
  "feed_loop d i (xs @ ys) =
     (case feed_loop d i xs of (Ok (n, False), d') \<Rightarrow> feed_loop d' n ys | r \<Rightarrow> r)"
proof (induction xs arbitrary: d i)
  case (Cons c xs)
  from Cons.IH [of "d\<lparr>buffer := buffer d @ [c]\<rparr>" "i + 1"] show ?case
    by (auto simp: Let_def)
qed simp

lemma feed_loop_used:
  "feed_loop d i bs = (Ok (n, b), d') \<Longrightarrow> i \<le> n \<and> n \<le> i + length bs \<and> (bs \<noteq> [] \<longrightarrow> i < n)
     \<and> buffer d' = buffer d @ take (n - i) bs \<and> (\<not> b \<longrightarrow> n = i + length bs)"
proof (induction bs arbitrary: d i)
  case (Cons c cs)
  show ?case
  proof (cases "c = LF")
    case True
    with Cons.prems show ?thesis by (auto split: if_splits)
  next
    case False
    with Cons.prems have f: "feed_loop (d\<lparr>buffer := buffer d @ [c]\<rparr>) (i + 1) cs = (Ok (n, b), d')"
      by (auto simp: Let_def split: if_splits)
    from Cons.IH [OF f] have "take (n - i) (c # cs) = c # take (n - (i + 1)) cs"
      by (cases "n - i") (auto simp: Suc_diff_Suc [symmetric])
    with Cons.IH [OF f] show ?thesis by auto
  qed
qed simp

lemma feed_loop_complete:
  "feed_loop d i bs = (r, d') \<Longrightarrow> \<not> complete d \<Longrightarrow> complete d' \<longleftrightarrow> (\<exists>n. r = Ok (n, True))"
  by (induction d i bs rule: feed_loop.induct) (auto simp: Let_def split: if_splits)

lemma feed_loop_ok_progress:
  "feed_loop d 0 (c # cs) = (Ok (n, b), d') \<Longrightarrow> 0 < n"
  using feed_loop_used [of d 0 "c # cs" n b d'] by simp

section \<open>What one call consumes, by reference to the input\<close>

lemma feed_loop_clean:
  assumes "clean b" "clean s" "length b + length s \<le> n"
  shows "feed_loop \<lparr>buffer = b, limit = n, complete = False\<rparr> i s
    = (Ok (i + length s, False), \<lparr>buffer = b @ s, limit = n, complete = False\<rparr>)"
  using assms
proof (induction s arbitrary: b i)
  case (Cons c s)
  have "\<not> bad_byte b c"
    using Cons.prems clean_last [of b] by (auto simp: bad_byte_def)
  with Cons.prems Cons.IH [of "b @ [c]" "Suc i"] show ?case by auto
qed simp

text \<open>A clean line of the right length is delivered whole, whatever follows it.\<close>

lemma feed_whole_line:
  assumes "clean s" "length s + 2 \<le> n"
  shows "feed_buffered (new_decoder n) (s @ CRLF @ rest)
    = (Ok (length s + 2, True), \<lparr>buffer = s @ CRLF, limit = n, complete = True\<rparr>)"
proof -
  have s: "feed_loop \<lparr>buffer = [], limit = n, complete = False\<rparr> 0 s
      = (Ok (length s, False), \<lparr>buffer = s, limit = n, complete = False\<rparr>)"
    using assms feed_loop_clean [of "[]" s n 0] by simp
  have "\<not> bad_byte s CR" "\<not> bad_byte (s @ [CR]) LF"
    using assms clean_last [of s] by (auto simp: bad_byte_def)
  then show ?thesis
    using assms by (simp add: feed_buffered_def new_decoder_def feed_loop_append s)
qed

text \<open>Conversely, whatever is delivered is a clean line within the limit.\<close>

lemma feed_complete_iff:
  "feed_buffered (new_decoder n) bs = (Ok (k, True), d') \<longleftrightarrow>
     (\<exists>s rest. bs = s @ CRLF @ rest \<and> clean s \<and> length s + 2 \<le> n \<and> k = length s + 2
        \<and> d' = \<lparr>buffer = s @ CRLF, limit = n, complete = True\<rparr>)"
  (is "?lhs \<longleftrightarrow> ?rhs")
proof
  assume l: ?lhs
  then have loop: "feed_loop (new_decoder n) 0 bs = (Ok (k, True), d')"
    by (simp add: feed_buffered_def new_decoder_def)
  from feed_loop_inv [OF new_decoder_inv _ this]
  have inv: "decoder_inv d'" "limit d' = n" "complete d'"
    by (auto simp: new_decoder_def)
  then obtain s where s: "buffer d' = s @ CRLF" "clean s" "length s + 2 \<le> n"
    by (auto simp: decoder_inv_def whole_line_def)
  from feed_loop_used [OF loop] have "k \<le> length bs" "buffer d' = take k bs"
    by (auto simp: new_decoder_def)
  with s have "bs = s @ CRLF @ drop k bs" "k = length s + 2"
    by (metis append.assoc append_take_drop_id) (use s \<open>buffer d' = take k bs\<close> \<open>k \<le> length bs\<close> in
      \<open>auto dest: arg_cong [where f = length]\<close>)
  moreover have "d' = \<lparr>buffer = s @ CRLF, limit = n, complete = True\<rparr>"
    using inv s by (cases d') auto
  ultimately show ?rhs using s by blast
qed (use feed_whole_line in auto)

section \<open>Reading loops\<close>

text \<open>The kinds of \<open>io::Error\<close> the sources tell apart. An error of kind \<open>InvalidData\<close> wraps a framing
  error or, as \<open>InvalidText\<close>, the message about eight-bit data.\<close>

datatype io_error = UnexpectedEof | InvalidData frame_error | InvalidText | TimedOut | OtherIo

text \<open>\<open>fill_line\<close> of the server and the loop of the client's \<open>line\<close>: ask the reader for what is
  available, feed it, give back what was not used. An empty chunk list is the end of input;
  \<open>fill_buf\<close> never yields an empty chunk before that.\<close>

fun fill_line :: "line_decoder \<Rightarrow> bytes list \<Rightarrow> (io_error + bool) \<times> line_decoder \<times> bytes list" where
  "fill_line d [] = (if buffered_bytes d = 0 then Ok False else Err UnexpectedEof, d, [])"
| "fill_line d (chunk # chunks) =
     (if chunk = [] then fill_line d chunks
      else case feed_buffered d chunk of
        (Err e, d') \<Rightarrow> (Err (InvalidData e), d', chunk # chunks)
      | (Ok (used, done), d') \<Rightarrow>
          if done then (Ok True, d', drop used chunk # chunks)
          else fill_line d' chunks)"

definition read_line :: "nat \<Rightarrow> bytes list \<Rightarrow> (io_error + bytes option) \<times> bytes list" where
  "read_line n chunks =
     (case fill_line (new_decoder n) chunks of
        (Err e, _, rest) \<Rightarrow> (Err e, rest)
      | (Ok False, _, rest) \<Rightarrow> (Ok None, rest)
      | (Ok True, d, rest) \<Rightarrow> (Ok (fst (take_line d)), rest))"

text \<open>The same loop over the whole remaining input in one piece.\<close>

definition fill_whole :: "line_decoder \<Rightarrow> bytes \<Rightarrow> (io_error + bool) \<times> line_decoder \<times> bytes" where
  "fill_whole d bs =
     (case feed_loop d 0 bs of
        (Err e, d') \<Rightarrow> (Err (InvalidData e), d', [])
      | (Ok (used, True), d') \<Rightarrow> (Ok True, d', drop used bs)
      | (Ok (used, False), d') \<Rightarrow>
          (if buffered_bytes d' = 0 then Ok False else Err UnexpectedEof, d', []))"

lemma fill_line_chunks:
  assumes "\<not> complete d"
  shows "fst (fill_line d chunks) = fst (fill_whole d (concat chunks))
    \<and> fst (snd (fill_line d chunks)) = fst (snd (fill_whole d (concat chunks)))
    \<and> (fst (fill_line d chunks) = Ok True \<longrightarrow>
        concat (snd (snd (fill_line d chunks))) = snd (snd (fill_whole d (concat chunks))))"
  using assms
proof (induction chunks arbitrary: d)
  case Nil
  then show ?case by (simp add: fill_whole_def)
next
  case (Cons chunk chunks)
  show ?case
  proof (cases "chunk = []")
    case True
    with Cons show ?thesis by simp
  next
    case chunk: False
    obtain r d' where fl: "feed_loop d 0 chunk = (r, d')" by fastforce
    then have fb: "feed_buffered d chunk = (r, d')"
      using Cons.prems by (simp add: feed_buffered_def)
    have app: "feed_loop d 0 (concat (chunk # chunks)) =
        (case (r, d') of (Ok (n, False), d'') \<Rightarrow> feed_loop d'' n (concat chunks) | r \<Rightarrow> r)"
      by (simp add: feed_loop_append fl)
    show ?thesis
    proof (cases r)
      case (Inl e)
      with chunk fb app show ?thesis by (simp add: fill_whole_def)
    next
      case (Inr p)
      obtain n b where p: "p = (n, b)" by (cases p)
      show ?thesis
      proof (cases b)
        case True
        have "n \<le> length chunk"
          using feed_loop_used [of d 0 chunk n b d'] fl Inr p by simp
        with True chunk fb app Inr p show ?thesis by (simp add: fill_whole_def)
      next
        case False
        have cd: "\<not> complete d'" and n: "n = length chunk"
          using fl Inr p False Cons.prems feed_loop_used [of d 0 chunk n b d']
          by (auto simp: feed_loop_complete)
        have "fill_whole d (concat (chunk # chunks)) = fill_whole d' (concat chunks)"
          using app Inr p False n feed_loop_shift [of d' 0 n "concat chunks"]
          by (auto simp: fill_whole_def split: sum.splits prod.splits bool.splits)
        with Cons.IH [OF cd] chunk fb Inr p False show ?thesis by simp
      qed
    qed
  qed
qed

section \<open>Draining a chunk through the decoder\<close>

text \<open>
  The inner loop of the client's \<open>prepare\<close> and \<open>send_body\<close>: feed, and whenever a frame is
  complete hand it to the consumer and clear the decoder, until the chunk is used up.
\<close>

function drain :: "('s \<Rightarrow> bytes \<Rightarrow> 'e + 's) \<Rightarrow> (frame_error \<Rightarrow> 'e) \<Rightarrow> line_decoder \<Rightarrow> 's \<Rightarrow> bytes
    \<Rightarrow> 'e + line_decoder \<times> 's" where
  "drain h fe d s bs =
     (if bs = [] then Ok (d, s)
      else case feed_buffered d bs of
        (Err e, _) \<Rightarrow> Err (fe e)
      | (Ok (used, done), d') \<Rightarrow>
          if done
          then (case h s (buffer d') of
                  Err e \<Rightarrow> Err e
                | Ok s' \<Rightarrow> drain h fe (clear d') s' (drop used bs))
          else drain h fe d' s (drop used bs))"
  by pat_completeness auto

lemma feed_buffered_progress:
  assumes "feed_buffered d bs = (Ok (n, b), d')" "bs \<noteq> []"
  shows "2 * length (drop n bs) + (if complete (if b then clear d' else d') then 1 else 0)
    < 2 * length bs + (if complete d then 1 else 0 :: nat)"
proof (cases "complete d")
  case True
  with assms show ?thesis by (auto simp: feed_buffered_def clear_def)
next
  case False
  with assms have f: "feed_loop d 0 bs = (Ok (n, b), d')" by (simp add: feed_buffered_def)
  from feed_loop_used [OF f] feed_loop_complete [OF f False] assms(2) show ?thesis
    by (auto simp: clear_def)
qed

termination drain
proof (relation "measure (\<lambda>(h, fe, d, s, bs). 2 * length bs + (if complete d then 1 else 0))",
    goal_cases)
  case 1
  then show ?case by simp
next
  case (2 h fe d s bs r d' p used b)
  then show ?case using feed_buffered_progress [of d bs used b d'] by simp
next
  case (3 h fe d s bs r d' p used b)
  then show ?case using feed_buffered_progress [of d bs used b d'] by simp
qed

declare drain.simps [simp del]

lemma drain_Nil [simp]: "drain h fe d s [] = Ok (d, s)"
  by (simp add: drain.simps)

lemma drain_step:
  assumes "\<not> complete d" "bs \<noteq> []"
  shows "drain h fe d s bs =
     (case feed_loop d 0 bs of
        (Err e, _) \<Rightarrow> Err (fe e)
      | (Ok (used, done), d') \<Rightarrow>
          if done
          then (case h s (buffer d') of
                  Err e \<Rightarrow> Err e
                | Ok s' \<Rightarrow> drain h fe (clear d') s' (drop used bs))
          else Ok (d', s))"
proof -
  have "drain h fe d' s (drop used bs) = Ok (d', s)" if "feed_loop d 0 bs = (Ok (used, False), d')"
    for used d'
    using feed_loop_used [OF that] by simp
  with assms show ?thesis
    by (subst drain.simps) (auto simp: feed_buffered_def split: sum.splits prod.splits)
qed

lemma not_complete_clear [simp]: "\<not> complete (clear d)"
  by (simp add: clear_def)

lemma drain_not_complete:
  assumes "drain h fe d s bs = Ok (d', s')" "\<not> complete d"
  shows "\<not> complete d'"
  using assms
proof (induction "length bs" arbitrary: d s bs rule: less_induct)
  case less
  show ?case
  proof (cases "bs = []")
    case True
    with less.prems show ?thesis by simp
  next
    case False
    note step = drain_step [OF less.prems(2) False, of h fe s]
    obtain r d1 where f: "feed_loop d 0 bs = (r, d1)" by fastforce
    with less.prems step obtain n b where r: "r = Ok (n, b)" by (auto split: sum.splits)
    show ?thesis
    proof (cases b)
      case True
      with less.prems step f r obtain s1 where "drain h fe (clear d1) s1 (drop n bs) = Ok (d', s')"
        by (auto split: sum.splits)
      moreover have "length (drop n bs) < length bs"
        using feed_loop_used [of d 0 bs n b d1] f r False by auto
      ultimately show ?thesis using less.hyps not_complete_clear by blast
    next
      case b: False
      with less.prems step f r have "d' = d1" by simp
      with feed_loop_complete [OF f less.prems(2)] r b show ?thesis by simp
    qed
  qed
qed

lemma drain_append:
  assumes "\<not> complete d"
  shows "drain h fe d s (xs @ ys) =
    (case drain h fe d s xs of Err e \<Rightarrow> Err e | Ok (d', s') \<Rightarrow> drain h fe d' s' ys)"
  using assms
proof (induction "length xs" arbitrary: d s xs rule: less_induct)
  case less
  show ?case
  proof (cases "xs = [] \<or> ys = []")
    case True
    then show ?thesis by (auto split: sum.splits)
  next
    case False
    note step = drain_step [OF less.prems, of _ h fe s]
    obtain r d1 where f: "feed_loop d 0 xs = (r, d1)" by fastforce
    show ?thesis
    proof (cases r)
      case (Inl e)
      with False f show ?thesis by (simp add: step feed_loop_append)
    next
      case (Inr p)
      obtain n b where p: "p = (n, b)" by (cases p)
      note used = feed_loop_used [OF f [unfolded Inr p]]
      show ?thesis
      proof (cases b)
        case True
        have "length (drop n xs) < length xs" using used False by auto
        moreover have "drop n (xs @ ys) = drop n xs @ ys" using used by simp
        ultimately show ?thesis
          using True False f Inr p less.hyps [of "drop n xs" "clear d1"]
          by (simp add: step feed_loop_append split: sum.splits)
      next
        case b: False
        have cd: "\<not> complete d1" using feed_loop_complete [OF f less.prems] Inr p b by simp
        have "feed_loop d1 n ys =
            (case feed_loop d1 0 ys of (Err e, d') \<Rightarrow> (Err e, d') | (Ok (k, b), d') \<Rightarrow> (Ok (k + n, b), d'))"
          using feed_loop_shift [of d1 0 n ys] by simp
        moreover have "drop (k + n) (xs @ ys) = drop k ys" for k
          using used b by simp
        ultimately show ?thesis
          using b False f Inr p cd
          by (simp add: step drain_step feed_loop_append split: sum.splits prod.splits)
      qed
    qed
  qed
qed

text \<open>A stream made of whole clean lines is handed over line by line.\<close>

fun fold_res :: "('s \<Rightarrow> 'x \<Rightarrow> 'e + 's) \<Rightarrow> 's \<Rightarrow> 'x list \<Rightarrow> 'e + 's" where
  "fold_res h s [] = Ok s"
| "fold_res h s (x # xs) = rbind (h s x) (\<lambda>s'. fold_res h s' xs)"

definition wire :: "bytes list \<Rightarrow> bytes" where
  "wire ls = concat (map (\<lambda>l. l @ CRLF) ls)"

lemma wire_simps [simp]:
  "wire [] = []"
  "wire (l # ls) = l @ CRLF @ wire ls"
  "wire (ls @ ms) = wire ls @ wire ms"
  by (simp_all add: wire_def)

lemma drain_lines:
  assumes "\<And>l. l \<in> set ls \<Longrightarrow> clean l \<and> length l + 2 \<le> n"
  shows "drain h fe (new_decoder n) s (wire ls) =
    (case fold_res h s (map (\<lambda>l. l @ CRLF) ls) of Err e \<Rightarrow> Err e | Ok s' \<Rightarrow> Ok (new_decoder n, s'))"
  using assms
proof (induction ls arbitrary: s)
  case (Cons l ls)
  have nc: "\<not> complete (new_decoder n)" by (simp add: new_decoder_def)
  have ne: "wire (l # ls) \<noteq> []" by simp
  have fl: "feed_loop (new_decoder n) 0 (wire (l # ls)) =
      (Ok (length l + 2, True), \<lparr>buffer = l @ CRLF, limit = n, complete = True\<rparr>)"
    using feed_whole_line [of l n "wire ls"] Cons.prems [of l] nc by (simp add: feed_buffered_def)
  have "clear \<lparr>buffer = l @ CRLF, limit = n, complete = True\<rparr> = new_decoder n"
    by (simp add: clear_def new_decoder_def)
  moreover have "drop (length l + 2) (wire (l # ls)) = wire ls" by simp
  ultimately show ?case
    unfolding drain_step [OF nc ne] fl
    using Cons by (simp del: wire_simps split: sum.splits)
qed simp

text \<open>Conversely, a stream that is drained completely is made of such lines.\<close>

lemma drain_Ok_lines:
  assumes "drain h fe (new_decoder n) s bs = Ok (d', s')" "buffered_bytes d' = 0"
  shows "\<exists>ls. bs = wire ls \<and> (\<forall>l\<in>set ls. clean l \<and> length l + 2 \<le> n)"
  using assms
proof (induction "length bs" arbitrary: s bs rule: less_induct)
  case less
  show ?case
  proof (cases "bs = []")
    case True
    then show ?thesis by (intro exI [of _ "[]"]) simp
  next
    case False
    have nc: "\<not> complete (new_decoder n)" by (simp add: new_decoder_def)
    note step = drain_step [OF nc False, of h fe s]
    obtain r d1 where f: "feed_loop (new_decoder n) 0 bs = (r, d1)" by fastforce
    with less.prems step obtain k b where r: "r = Ok (k, b)" by (auto split: sum.splits)
    note used = feed_loop_used [OF f [unfolded r]]
    have b: b
    proof (rule ccontr)
      assume "\<not> b"
      with less.prems step f r have "d' = d1" by simp
      with less.prems(2) used \<open>\<not> b\<close> False show False by (simp add: buffered_bytes_def new_decoder_def)
    qed
    then have "feed_buffered (new_decoder n) bs = (Ok (k, True), d1)"
      using f r nc by (simp add: feed_buffered_def)
    then obtain l rest where l: "bs = l @ CRLF @ rest" "clean l" "length l + 2 \<le> n" "k = length l + 2"
      "d1 = \<lparr>buffer = l @ CRLF, limit = n, complete = True\<rparr>"
      unfolding feed_complete_iff by blast
    have "clear d1 = new_decoder n" using l(5) by (simp add: clear_def new_decoder_def)
    with less.prems step f r b l obtain s1 where "drain h fe (new_decoder n) s1 rest = Ok (d', s')"
      by (auto split: sum.splits)
    with less.hyps [of rest s1] less.prems(2) l(1) obtain ls
      where "rest = wire ls" "\<forall>l\<in>set ls. clean l \<and> length l + 2 \<le> n" by auto
    with l show ?thesis by (intro exI [of _ "l # ls"]) simp
  qed
qed

section \<open>Consumers of a chunked input\<close>

text \<open>The outer loop of a reader: take chunk after chunk until the input ends.\<close>

abbreviation run_chunks :: "('s \<Rightarrow> bytes \<Rightarrow> 'e + 's) \<Rightarrow> 's \<Rightarrow> bytes list \<Rightarrow> 'e + 's" where
  "run_chunks \<equiv> fold_res"

text \<open>
  The contract of a step that may be given its input in pieces. Which error is reported may
  depend on where the input was cut, so the law speaks of successful results.
\<close>

locale chunk_consumer =
  fixes step :: "'s \<Rightarrow> bytes \<Rightarrow> 'e + 's"
    and inv :: "'s \<Rightarrow> bool"
  assumes step_Nil: "inv s \<Longrightarrow> step s [] = Ok s"
    and step_append: "inv s \<Longrightarrow>
      step s (xs @ ys) = Ok t \<longleftrightarrow> (\<exists>u. step s xs = Ok u \<and> step u ys = Ok t)"
    and step_inv: "inv s \<Longrightarrow> step s xs = Ok t \<Longrightarrow> inv t"
begin

lemma run_concat:
  "inv s \<Longrightarrow> run_chunks step s chunks = Ok t \<longleftrightarrow> step s (concat chunks) = Ok t"
proof (induction chunks arbitrary: s)
  case Nil
  then show ?case by (simp add: step_Nil)
next
  case (Cons c cs)
  then show ?case by (auto simp: step_append res_simps intro: step_inv)
qed

lemma chunking_irrelevant:
  "inv s \<Longrightarrow> concat cs = concat ds \<Longrightarrow> run_chunks step s cs = Ok t \<longleftrightarrow> run_chunks step s ds = Ok t"
  by (simp add: run_concat)

end

section \<open>Transparency\<close>

text \<open>What the sender does to a frame (\<open>send_body\<close>): a leading dot is doubled.\<close>

definition dot_stuff :: "bytes \<Rightarrow> bytes" where
  "dot_stuff f = (if prefix ''.'' f then CHR ''.'' # f else f)"

lemma strip_dot_stuff: "strip_prefix ''.'' (dot_stuff f) = (if prefix ''.'' f then Some f else None)"
  by (simp add: strip_prefix_def dot_stuff_def)

lemma suffix_dot_stuff: "suffix CRLF f \<Longrightarrow> suffix CRLF (dot_stuff f)"
  by (auto simp: dot_stuff_def suffix_Cons)

lemma dot_stuff_not_terminator: "suffix CRLF f \<Longrightarrow> dot_stuff f \<noteq> ''.'' @ CRLF"
  by (auto simp: dot_stuff_def suffix_def prefix_def)

lemma decode_dot_stuff:
  assumes "suffix CRLF f" "length f \<le> 1000"
  shows "decode_data_frame (dot_stuff f) = Ok (Some f)"
  using assms suffix_dot_stuff [OF assms(1)] dot_stuff_not_terminator [OF assms(1)]
  by (simp add: decode_data_frame_def strip_dot_stuff) (simp add: dot_stuff_def)

lemma decode_line_frame: "decode_data_frame (l @ CRLF) = decode_data_line l"
  by (cases l) (auto simp: decode_data_frame_def decode_data_line_def strip_prefix_def suffix_def Let_def)

text \<open>One line from the reader, however its bytes arrive.\<close>

lemma fill_line_iff:
  assumes "limit d = n" "fill_line (clear d) chunks = (r, d', rest)"
  shows "r = Ok True \<longleftrightarrow> (\<exists>f later. concat chunks = (f @ CRLF) @ later \<and> clean f \<and> length f + 2 \<le> n)"
    and "concat chunks = (f @ CRLF) @ later \<Longrightarrow> clean f \<Longrightarrow> length f + 2 \<le> n \<Longrightarrow>
      r = Ok True \<and> buffer d' = f @ CRLF \<and> limit d' = n \<and> concat rest = later"
proof -
  have cl: "clear d = new_decoder n" using assms(1) by (cases d) (simp add: clear_def new_decoder_def)
  have nc: "\<not> complete (clear d)" by simp
  note w = fill_line_chunks [OF nc, of chunks, unfolded assms(2), simplified]
  have fb: "feed_buffered (new_decoder n) bs = feed_loop (new_decoder n) 0 bs" for bs
    using nc by (simp add: feed_buffered_def cl [symmetric])
  show line: "r = Ok True \<and> buffer d' = f @ CRLF \<and> limit d' = n \<and> concat rest = later"
    if "concat chunks = (f @ CRLF) @ later" "clean f" "length f + 2 \<le> n" for f later
    using w feed_whole_line [OF that(2,3), of later] that(1) by (simp add: fill_whole_def cl fb)
  show "r = Ok True \<longleftrightarrow> (\<exists>f later. concat chunks = (f @ CRLF) @ later \<and> clean f \<and> length f + 2 \<le> n)"
  proof
    assume "r = Ok True"
    then have "fst (fill_whole (clear d) (concat chunks)) = Ok True" using w by simp
    then obtain k d1 where "feed_buffered (new_decoder n) (concat chunks) = (Ok (k, True), d1)"
      by (auto simp: fill_whole_def fb cl split: prod.splits sum.splits bool.splits if_splits)
    then show "\<exists>f later. concat chunks = (f @ CRLF) @ later \<and> clean f \<and> length f + 2 \<le> n"
      unfolding feed_complete_iff by auto
  qed (use line in blast)
qed


lemma read_line_parts:
  "fst (read_line n chunks) = Ok (Some l) \<and> concat (snd (read_line n chunks)) = later \<longleftrightarrow>
     concat chunks = l @ CRLF @ later \<and> clean l \<and> length l + 2 \<le> n"
proof -
  have cl: "clear (new_decoder n) = new_decoder n" "limit (new_decoder n) = n" by (simp_all add: clear_def new_decoder_def)
  obtain r d rest where f: "fill_line (clear (new_decoder n)) chunks = (r, d, rest)" by (metis prod_cases3)
  have nc: "\<not> complete (clear (new_decoder n))" by simp
  note iff = fill_line_iff [OF cl(2) f]
  have fin: "complete d" if "r = Ok True"
  proof -
    have "fst (fill_whole (new_decoder n) (concat chunks)) = Ok True" "d = fst (snd (fill_whole (new_decoder n) (concat chunks)))"
      using fill_line_chunks [OF nc, of chunks] f that cl by auto
    then obtain k d1 where "feed_loop (new_decoder n) 0 (concat chunks) = (Ok (k, True), d1)" "d = d1"
      by (auto simp: fill_whole_def split: prod.splits sum.splits bool.splits if_splits)
    then show ?thesis using feed_loop_complete [of "new_decoder n" 0 "concat chunks"] nc cl by auto
  qed
  have res: "read_line n chunks = (case r of Err e \<Rightarrow> Err e | Ok False \<Rightarrow> Ok None | Ok True \<Rightarrow> Ok (fst (take_line d)), rest)"
    using f cl by (cases r) (auto simp: read_line_def split: bool.splits)
  show ?thesis
  proof
    assume L: "fst (read_line n chunks) = Ok (Some l) \<and> concat (snd (read_line n chunks)) = later"
    then have t: "r = Ok True" by (auto simp: res split: sum.splits bool.splits)
    then obtain g l2 where g: "concat chunks = (g @ CRLF) @ l2" "clean g" "length g + 2 \<le> n" using iff(1) by blast
    with iff(2) [OF g] fin [OF t] L res show "concat chunks = l @ CRLF @ later \<and> clean l \<and> length l + 2 \<le> n"
      by (auto simp: take_line_def)
  next
    assume R: "concat chunks = l @ CRLF @ later \<and> clean l \<and> length l + 2 \<le> n"
    with iff(2) [of l later] have "r = Ok True" "buffer d = l @ CRLF" "concat rest = later" by auto
    with fin res show "fst (read_line n chunks) = Ok (Some l) \<and> concat (snd (read_line n chunks)) = later"
      by (simp add: take_line_def)
  qed
qed

text \<open>Property C30. A line is read from a connection exactly when the bytes still to come, in whatever
  pieces, begin with a line free of CR, LF and NUL, within the limit, and its CRLF. That line is
  the result, nothing of what follows it is consumed, and no other input yields a line: a bare
  CR or LF, a NUL or an overlong line is an error.\<close>

theorem read_line_exact:
  "fst (read_line n chunks) = Ok (Some l) \<and> concat (snd (read_line n chunks)) = later \<longleftrightarrow>
     concat chunks = l @ CRLF @ later \<and> clean l \<and> length l + 2 \<le> n"
  by (rule read_line_parts)

end
