(* ===== verification/Commands.thy ===== *)
theory Commands
  imports Address
begin

text \<open>
  The SMTP command parser, \<open>crates/protocol/src/lib.rs\<close>: \<open>Body\<close>, \<open>Command\<close>, \<open>ParseError\<close>,
  \<open>parse_path\<close> and \<open>parse_command\<close>. Lemmas: every accepted line is printable ASCII, every address
  and size an accepted command carries is in range, and the commands that the outgoing client
  writes are read back as they were meant.
\<close>

section \<open>Model\<close>

datatype body = SevenBit | EightBitMime

datatype command =
    Ehlo string
  | Helo string
  | Mail "address option" "nat option" "body option"
  | Rcpt address
  | Data
  | Reset
  | Noop
  | Help
  | Verify
  | StartTls
  | Quit
  | Unsupported

datatype parse_error = Syntax | UnsupportedParameter

definition parse_path :: "string \<Rightarrow> string \<Rightarrow> parse_error + string \<times> string" where
  "parse_path args pre =
     (if \<not> (length pre \<le> length args \<and> eq_ignore_ascii_case (take (length pre) args) pre)
      then Err Syntax
      else rbind (ok_or (strip_prefix ''<'' (drop (length pre) args)) Syntax) (\<lambda>rest.
           rbind (ok_or (split_once (CHR ''>'') rest) Syntax) (\<lambda>(path, suff).
           if suff \<noteq> [] \<and> \<not> prefix '' '' suff then Err Syntax
           else Ok (path, trim_matches (\<lambda>c. c = SP) suff))))"

text \<open>The loop over the MAIL parameters; \<open>size\<close> and \<open>body\<close> are the loop's two variables.\<close>

fun mail_parameters :: "string list \<Rightarrow> nat option \<Rightarrow> body option
    \<Rightarrow> parse_error + nat option \<times> body option" where
  "mail_parameters [] sz bd = Ok (sz, bd)"
| "mail_parameters (param # params) sz bd =
     rbind (ok_or (split_once (CHR ''='') param) UnsupportedParameter) (\<lambda>(key, value).
       if eq_ignore_ascii_case key ''SIZE'' then
         (if sz \<noteq> None \<or> value = [] \<or> length value > 20 \<or> \<not> list_all is_ascii_digit value
          then Err Syntax
          else mail_parameters params
                 (Some (case parse_u64 value of Some n \<Rightarrow> n | None \<Rightarrow> u64_max)) bd)
       else if eq_ignore_ascii_case key ''BODY'' then
         (if bd \<noteq> None then Err Syntax
          else if eq_ignore_ascii_case value ''7BIT'' then mail_parameters params sz (Some SevenBit)
          else if eq_ignore_ascii_case value ''8BITMIME''
               then mail_parameters params sz (Some EightBitMime)
          else Err UnsupportedParameter)
       else Err UnsupportedParameter)"

definition address_syntax :: "string \<Rightarrow> parse_error + address" where
  "address_syntax path = (case parse path of Err e \<Rightarrow> Err Syntax | Ok a \<Rightarrow> Ok a)"

definition parse_mail :: "string \<Rightarrow> parse_error + command" where
  "parse_mail args =
     rbind (parse_path args ''FROM:'') (\<lambda>(path, parameters).
     rbind (if path = [] then Ok None else rbind (address_syntax path) (\<lambda>a. Ok (Some a))) (\<lambda>sender.
     rbind (mail_parameters (split_ascii_whitespace parameters) None None) (\<lambda>(sz, bd).
       Ok (Mail sender sz bd))))"

definition parse_rcpt :: "string \<Rightarrow> parse_error + command" where
  "parse_rcpt args =
     rbind (parse_path args ''TO:'') (\<lambda>(path, parameters).
       if parameters \<noteq> [] then Err UnsupportedParameter
       else rbind (address_syntax path) (\<lambda>a. Ok (Rcpt a)))"

definition dispatch_command :: "string \<Rightarrow> string \<Rightarrow> parse_error + command" where
  "dispatch_command verb args =
     (let v = to_ascii_uppercase verb in
      if v = ''EHLO'' \<or> v = ''HELO'' then
        (if args = [] \<or> SP \<in> set args then Err Syntax
         else Ok (if eq_ignore_ascii_case verb ''EHLO'' then Ehlo args else Helo args))
      else if v = ''MAIL'' then parse_mail args
      else if v = ''RCPT'' then parse_rcpt args
      else if v = ''DATA'' \<and> args = [] then Ok Data
      else if v = ''RSET'' \<and> args = [] then Ok Reset
      else if v = ''NOOP'' then Ok Noop
      else if v = ''HELP'' then Ok Help
      else if v = ''VRFY'' \<and> args \<noteq> [] then Ok Verify
      else if v = ''QUIT'' \<and> args = [] then Ok Quit
      else if v = ''STARTTLS'' \<and> args = [] then Ok StartTls
      else if v \<in> {''DATA'', ''RSET'', ''QUIT'', ''STARTTLS'', ''VRFY''} then Err Syntax
      else Ok Unsupported)"

definition parse_command :: "bytes \<Rightarrow> parse_error + command" where
  "parse_command line =
     (if \<not> is_ascii line \<or> list_ex is_ascii_control line then Err Syntax
      else let (verb, args) = (case split_once SP line of None \<Rightarrow> (line, []) | Some va \<Rightarrow> va)
           in dispatch_command verb (trim_matches (\<lambda>c. c = SP) args))"

lemma dispatch_verbs:
  "to_ascii_uppercase verb = ''MAIL'' \<Longrightarrow> dispatch_command verb args = parse_mail args"
  "to_ascii_uppercase verb = ''RCPT'' \<Longrightarrow> dispatch_command verb args = parse_rcpt args"
  by (simp_all add: dispatch_command_def Let_def)

section \<open>What an accepted command carries\<close>

definition command_wf :: "command \<Rightarrow> bool" where
  "command_wf c = (case c of
       Mail sender sz bd \<Rightarrow> pred_option addr_wf sender \<and> pred_option (\<lambda>n. n \<le> u64_max) sz
     | Rcpt a \<Rightarrow> addr_wf a
     | Ehlo n \<Rightarrow> n \<noteq> [] \<and> list_all (\<lambda>c. is_ascii_byte c \<and> \<not> is_ascii_control c \<and> c \<noteq> SP) n
     | Helo n \<Rightarrow> n \<noteq> [] \<and> list_all (\<lambda>c. is_ascii_byte c \<and> \<not> is_ascii_control c \<and> c \<noteq> SP) n
     | _ \<Rightarrow> True)"

lemma mail_parameters_size:
  "mail_parameters ps sz bd = Ok (sz', bd') \<Longrightarrow> pred_option (\<lambda>n. n \<le> u64_max) sz
    \<Longrightarrow> pred_option (\<lambda>n. n \<le> u64_max) sz'"
proof (induction ps arbitrary: sz bd)
  case (Cons param params)
  have "pred_option (\<lambda>n. n \<le> u64_max) (Some (case parse_u64 v of Some n \<Rightarrow> n | None \<Rightarrow> u64_max))" for v
    by (auto simp: parse_u64_def Let_def split: option.splits if_splits)
  moreover obtain key v where "split_once (CHR ''='') param = Some (key, v)"
    using Cons.prems(1) by (auto simp: res_simps)
  ultimately show ?case
    using Cons.prems Cons.IH by (simp split: if_splits)
qed simp

lemma address_syntax_wf: "address_syntax p = Ok a \<Longrightarrow> addr_wf a"
  by (auto simp: address_syntax_def parse_wf split: sum.splits)

lemma parse_mail_wf: "parse_mail args = Ok c \<Longrightarrow> command_wf c"
proof -
  assume "parse_mail args = Ok c"
  then obtain sender sz bd ps where "c = Mail sender sz bd" "mail_parameters ps None None = Ok (sz, bd)"
    "\<And>a. sender = Some a \<Longrightarrow> addr_wf a"
    by (fastforce simp: parse_mail_def res_simps split: if_splits dest: address_syntax_wf)
  then show ?thesis
    using mail_parameters_size by (fastforce simp: command_wf_def pred_option_def)
qed

lemma parse_rcpt_wf: "parse_rcpt args = Ok c \<Longrightarrow> command_wf c"
  by (auto simp: parse_rcpt_def res_simps command_wf_def split: if_splits dest: address_syntax_wf)

lemma dispatch_wf:
  assumes "dispatch_command verb args = Ok c"
    and "\<And>x. x \<in> set args \<Longrightarrow> is_ascii_byte x \<and> \<not> is_ascii_control x"
  shows "command_wf c"
proof -
  have "\<exists>n. c = Ehlo n \<or> c = Helo n" "SP \<notin> set args" "args \<noteq> []" "c = Ehlo args \<or> c = Helo args"
    if "to_ascii_uppercase verb = ''EHLO'' \<or> to_ascii_uppercase verb = ''HELO''"
    using that assms(1) by (auto simp: dispatch_command_def Let_def split: if_splits)
  then have "command_wf c"
    if "to_ascii_uppercase verb = ''EHLO'' \<or> to_ascii_uppercase verb = ''HELO''"
    using that assms(2) by (auto simp: command_wf_def list_all_iff)
  moreover have "command_wf c"
    if "\<not> (to_ascii_uppercase verb = ''EHLO'' \<or> to_ascii_uppercase verb = ''HELO'')"
    using that assms(1)
    by (auto simp: dispatch_command_def Let_def split: if_splits dest: parse_mail_wf parse_rcpt_wf)
      (simp_all add: command_wf_def)
  ultimately show ?thesis by blast
qed

lemma parse_command_wf:
  assumes "parse_command line = Ok c"
  shows "command_wf c"
proof -
  obtain verb args where va: "(case split_once SP line of None \<Rightarrow> (line, []) | Some va \<Rightarrow> va) = (verb, args)"
    by fastforce
  have ok: "is_ascii line" "\<not> list_ex is_ascii_control line"
    "dispatch_command verb (trim_matches (\<lambda>c. c = SP) args) = Ok c"
    using assms va by (auto simp: parse_command_def Let_def split: if_splits prod.splits)
  have "set args \<subseteq> set line"
    using va by (auto split: option.splits simp: split_once_Some_iff)
  then have "set (trim_matches (\<lambda>c. c = SP) args) \<subseteq> set line"
    using set_trim_matches by blast
  with ok(1,2) dispatch_wf [OF ok(3)] show ?thesis
    by (auto simp: is_ascii_def list_all_iff list_ex_iff)
qed

section \<open>Reading back what the client writes\<close>

lemma show_nat_length: "n < 10 ^ Suc k \<Longrightarrow> length (show_nat n) \<le> Suc k"
proof (induction k arbitrary: n)
  case 0
  then show ?case by (subst show_nat.simps) simp
next
  case (Suc k)
  show ?case
  proof (cases "n < 10")
    case True
    then show ?thesis by (subst show_nat.simps) simp
  next
    case False
    have "n div 10 < 10 ^ Suc k" using Suc.prems by (simp add: div_less_iff_less_mult mult.commute)
    with Suc.IH [of "n div 10"] False show ?thesis by (subst show_nat.simps) simp
  qed
qed

lemma show_nat_length_u64: "n \<le> u64_max \<Longrightarrow> length (show_nat n) \<le> 20"
  using show_nat_length [of n 19] by (simp add: u64_max_def)

definition mail_suffix :: "nat option \<Rightarrow> body option \<Rightarrow> string" where
  "mail_suffix sz bd =
     (case sz of None \<Rightarrow> [] | Some n \<Rightarrow> '' SIZE='' @ show_nat n)
     @ (case bd of None \<Rightarrow> [] | Some EightBitMime \<Rightarrow> '' BODY=8BITMIME'' | Some SevenBit \<Rightarrow> '' BODY=7BIT'')"

definition mail_line :: "address option \<Rightarrow> nat option \<Rightarrow> body option \<Rightarrow> string" where
  "mail_line sender sz bd =
     ''MAIL FROM:<'' @ (case sender of None \<Rightarrow> [] | Some a \<Rightarrow> as_str a) @ ''>'' @ mail_suffix sz bd"

definition rcpt_line :: "address \<Rightarrow> string" where
  "rcpt_line a = ''RCPT TO:<'' @ as_str a @ ''>''"

lemma addr_wf_plain:
  assumes "addr_wf a"
  shows "CHR ''>'' \<notin> set (as_str a)" "SP \<notin> set (as_str a)" "is_ascii (as_str a)"
    "\<not> list_ex is_ascii_control (as_str a)" "as_str a \<noteq> []"
  using addr_wf_wire_safe [OF assms] assms
  by (auto simp: wire_safe_def is_ascii_def list_all_iff list_ex_iff addr_wf_def)

lemma digits_plain:
  assumes "list_all is_ascii_digit s"
  shows "is_ascii s" "\<not> list_ex is_ascii_control s" "\<forall>c\<in>set s. \<not> is_ascii_whitespace c"
    "\<forall>c\<in>set s. c \<noteq> SP"
  using assms by (auto simp: list_all_iff list_ex_iff ascii_simps code_def)

lemma parse_path_written:
  assumes "CHR ''>'' \<notin> set path" "suff = [] \<or> hd suff = SP"
  shows "parse_path (pre @ ''<'' @ path @ ''>'' @ suff) pre
    = Ok (path, trim_matches (\<lambda>c. c = SP) suff)"
proof -
  have "split_once (CHR ''>'') (path @ CHR ''>'' # suff) = Some (path, suff)"
    using assms(1) by (simp add: split_once_Some_iff)
  then show ?thesis
    using assms(2) by (cases suff) (simp_all add: parse_path_def eq_ignore_ascii_case_def strip_prefix_def)
qed

lemma rcpt_read_back:
  assumes "addr_wf a"
  shows "parse_command (rcpt_line a) = Ok (Rcpt a)"
proof -
  note plain = addr_wf_plain [OF assms]
  have args: "trim_matches (\<lambda>c. c = SP) (''TO:'' @ ''<'' @ as_str a @ ''>'')
      = ''TO:'' @ ''<'' @ as_str a @ ''>'' @ []"
    by (subst trim_matches_id) auto
  have path: "parse_path (''TO:'' @ ''<'' @ as_str a @ ''>'' @ []) ''TO:'' = Ok (as_str a, [])"
    using parse_path_written [OF plain(1), of "[]" "''TO:''"] by simp
  have rcpt: "parse_rcpt (''TO:'' @ ''<'' @ as_str a @ ''>'' @ []) = Ok (Rcpt a)"
    unfolding parse_rcpt_def path by (simp add: address_syntax_def addr_wf_parse [OF assms])
  have up: "to_ascii_uppercase ''RCPT'' = ''RCPT''"
    by (simp add: to_ascii_uppercase_def upper_def is_ascii_lowercase_def code_def)
  have ascii: "is_ascii (rcpt_line a)" "\<not> list_ex is_ascii_control (rcpt_line a)"
    using plain by (auto simp: rcpt_line_def is_ascii_byte_def is_ascii_control_def code_def)
  have split: "split_once SP (rcpt_line a) = Some (''RCPT'', ''TO:'' @ ''<'' @ as_str a @ ''>'')"
    by (simp add: split_once_Some_iff rcpt_line_def)
  show ?thesis
    unfolding parse_command_def split using ascii
    by (simp only: option.case Let_def prod.case args dispatch_verbs(2) [OF up] rcpt) simp
qed

lemma trim_leading:
  "p c \<Longrightarrow> s \<noteq> [] \<Longrightarrow> \<not> p (hd s) \<Longrightarrow> \<not> p (last s) \<Longrightarrow> trim_matches p (c # s) = s"
  using trim_matches_id [of s p] by (simp add: trim_matches_def)

lemma words_one:
  "\<forall>c\<in>set a. \<not> is_ascii_whitespace c \<Longrightarrow> a \<noteq> [] \<Longrightarrow> split_ascii_whitespace a = [a]"
  by (simp add: split_ascii_whitespace_def split_on_none)

lemma words_two:
  assumes "\<forall>c\<in>set a. \<not> is_ascii_whitespace c" "a \<noteq> []" "\<forall>c\<in>set b. \<not> is_ascii_whitespace c" "b \<noteq> []"
  shows "split_ascii_whitespace (a @ SP # b) = [a, b]"
proof -
  have "is_ascii_whitespace SP" by (simp add: is_ascii_whitespace_def code_def)
  with assms show ?thesis
    by (simp add: split_ascii_whitespace_def split_on_append split_on_none)
qed

lemma size_param:
  assumes "n \<le> u64_max"
  shows "mail_parameters ((''SIZE='' @ show_nat n) # ps) None bd = mail_parameters ps (Some n) bd"
proof -
  have "split_once (CHR ''='') (''SIZE='' @ show_nat n) = Some (''SIZE'', show_nat n)"
    by (simp add: split_once_Some_iff)
  moreover have "eq_ignore_ascii_case ''SIZE'' ''SIZE''" by (simp add: eq_ignore_ascii_case_def)
  ultimately show ?thesis
    using show_nat_length_u64 [OF assms] parse_show_nat [OF assms] show_nat_digits [of n]
    by (simp only: mail_parameters.simps ok_or_simps rbind_simps prod.case) simp
qed

definition body_param :: "body \<Rightarrow> string" where
  "body_param b = (case b of EightBitMime \<Rightarrow> ''BODY=8BITMIME'' | SevenBit \<Rightarrow> ''BODY=7BIT'')"

lemma body_param_read: "mail_parameters [body_param b] sz None = Ok (sz, Some b)"
  by (cases b) (simp_all add: body_param_def eq_ignore_ascii_case_def lower_def
      is_ascii_uppercase_def code_def)

lemma body_param_plain:
  "\<forall>c\<in>set (body_param b). \<not> is_ascii_whitespace c \<and> is_ascii_byte c \<and> \<not> is_ascii_control c"
  "body_param b \<noteq> []" "hd (body_param b) \<noteq> SP" "last (body_param b) \<noteq> SP"
  by (cases b; simp add: body_param_def ascii_simps code_def)+

lemma last_show_nat: "last (show_nat n) \<noteq> SP"
  using digits_plain(4) [OF show_nat_digits [of n]] last_in_set [OF show_nat_not_Nil [of n]] by metis

lemma mail_suffix_alt:
  "mail_suffix sz bd =
     (case sz of None \<Rightarrow> [] | Some n \<Rightarrow> SP # ''SIZE='' @ show_nat n)
     @ (case bd of None \<Rightarrow> [] | Some b \<Rightarrow> SP # body_param b)"
  by (simp add: mail_suffix_def body_param_def split: option.split body.split)

lemma mail_suffix_read:
  assumes "pred_option (\<lambda>n. n \<le> u64_max) sz"
  shows "mail_parameters (split_ascii_whitespace (trim_matches (\<lambda>c. c = SP) (mail_suffix sz bd))) None None
    = Ok (sz, bd)"
proof -
  have size_ws: "\<forall>c\<in>set (''SIZE='' @ show_nat n). \<not> is_ascii_whitespace c" for n
    using digits_plain(3) [OF show_nat_digits [of n]] by (auto simp: is_ascii_whitespace_def code_def)
  show ?thesis
  proof (cases sz)
    case None
    have "split_ascii_whitespace [] = []" by (simp add: split_ascii_whitespace_def)
    then show ?thesis
      using None body_param_plain by (cases bd)
        (simp_all add: mail_suffix_alt trim_leading words_one body_param_read
          del: mail_parameters.simps(2))
  next
    case (Some n)
    with assms have n: "n \<le> u64_max" by simp
    show ?thesis
    proof (cases bd)
      case None
      have "trim_matches (\<lambda>c. c = SP) (mail_suffix sz bd) = ''SIZE='' @ show_nat n"
        unfolding mail_suffix_alt Some None using last_show_nat [of n] by (simp add: trim_leading)
      then show ?thesis
        using words_one [OF size_ws [of n]] size_param [OF n, of "[]"] None Some
        by (simp del: mail_parameters.simps(2))
    next
      case (Some b)
      have "trim_matches (\<lambda>c. c = SP) (mail_suffix sz bd) = (''SIZE='' @ show_nat n) @ SP # body_param b"
        unfolding mail_suffix_alt Some \<open>sz = Some n\<close> using body_param_plain [of b]
        by (simp add: trim_leading)
      then show ?thesis
        using words_two [OF size_ws [of n]] body_param_plain [of b] size_param [OF n, of "[body_param b]"]
          body_param_read Some \<open>sz = Some n\<close> by (simp del: mail_parameters.simps(2))
    qed
  qed
qed

lemma mail_suffix_plain:
  "is_ascii (mail_suffix sz bd)" "\<not> list_ex is_ascii_control (mail_suffix sz bd)"
  "mail_suffix sz bd = [] \<or> hd (mail_suffix sz bd) = SP"
  "mail_suffix sz bd \<noteq> [] \<Longrightarrow> last (mail_suffix sz bd) \<noteq> SP"
  using body_param_plain digits_plain(1,2) [OF show_nat_digits] last_show_nat
  by (auto simp: mail_suffix_alt is_ascii_def list_all_iff list_ex_iff is_ascii_byte_def
      is_ascii_control_def code_def split: option.splits)

lemma mail_read_back:
  assumes "pred_option addr_wf sender" "pred_option (\<lambda>n. n \<le> u64_max) sz"
  shows "parse_command (mail_line sender sz bd) = Ok (Mail sender sz bd)"
proof -
  let ?path = "case sender of None \<Rightarrow> [] | Some a \<Rightarrow> as_str a"
  let ?args = "''FROM:'' @ ''<'' @ ?path @ ''>'' @ mail_suffix sz bd"
  have plain: "CHR ''>'' \<notin> set ?path" "is_ascii ?path" "\<not> list_ex is_ascii_control ?path"
    using assms(1) addr_wf_plain by (auto split: option.splits)
  have args: "trim_matches (\<lambda>c. c = SP) ?args = ?args"
    using mail_suffix_plain(4) [of sz bd] by (intro trim_matches_id) auto
  have path: "parse_path ?args ''FROM:'' = Ok (?path, trim_matches (\<lambda>c. c = SP) (mail_suffix sz bd))"
    using parse_path_written [OF plain(1) mail_suffix_plain(3), of "''FROM:''"] by simp
  have sender: "(if ?path = [] then Ok None else rbind (address_syntax ?path) (\<lambda>a. Ok (Some a))) = Ok sender"
    using assms(1) addr_wf_plain(5) addr_wf_parse by (auto simp: address_syntax_def split: option.split)
  have mail: "parse_mail ?args = Ok (Mail sender sz bd)"
    unfolding parse_mail_def path rbind_simps prod.case sender mail_suffix_read [OF assms(2)] by simp
  have up: "to_ascii_uppercase ''MAIL'' = ''MAIL''"
    by (simp add: to_ascii_uppercase_def upper_def is_ascii_lowercase_def code_def)
  have ascii: "is_ascii (mail_line sender sz bd)" "\<not> list_ex is_ascii_control (mail_line sender sz bd)"
    using plain mail_suffix_plain(1,2) [of sz bd]
    by (auto simp: mail_line_def is_ascii_byte_def is_ascii_control_def code_def)
  have split: "split_once SP (mail_line sender sz bd) = Some (''MAIL'', ?args)"
    by (simp add: split_once_Some_iff mail_line_def)
  show ?thesis
    unfolding parse_command_def split using ascii
    by (simp only: option.case Let_def prod.case args dispatch_verbs(1) [OF up] mail) simp
qed

text \<open>Property C32. The MAIL and RCPT commands that the relay client writes for a parsed envelope are
  read back by the server's parser as exactly that sender, size, body and recipient; and every
  command the parser accepts carries only parsed addresses and 64-bit sizes.\<close>

theorem envelope_commands_read_back:
  assumes "pred_option addr_wf sender" "addr_wf recipient" "pred_option (\<lambda>n. n \<le> u64_max) sz"
  shows "parse_command (mail_line sender sz bd) = Ok (Mail sender sz bd)
    \<and> parse_command (rcpt_line recipient) = Ok (Rcpt recipient)
    \<and> (\<forall>line c. parse_command line = Ok c \<longrightarrow> command_wf c)"
  using mail_read_back [OF assms(1,3)] rcpt_read_back [OF assms(2)] parse_command_wf by blast

theorem envelope_commands_read_back_witness:
  "parse_command (mail_line None (Some 7) (Some EightBitMime)) = Ok (Mail None (Some 7) (Some EightBitMime))"
proof -
  have "parse ''a@b.test'' = Ok (Address ''a@b.test'')" by code_simp
  then have "addr_wf (Address ''a@b.test'')" by (rule parse_wf)
  from envelope_commands_read_back [of None, OF _ this, of "Some 7" "Some EightBitMime"] show ?thesis
    by (simp add: u64_max_def)
qed

end
