(* ===== verification/Session.thy ===== *)
theory Session
  imports Commands
begin

text \<open>
  The pure SMTP session, \<open>crates/protocol/src/lib.rs\<close>: \<open>Envelope\<close>, \<open>Reply\<close>, \<open>Action\<close>, \<open>Session\<close> with
  \<open>new\<close>, \<open>apply\<close>, \<open>recipient_result\<close>, \<open>routed_recipient_result\<close> and \<open>authentication_allowed\<close>.
  The history theorem at the end says which exchanges justify handing an envelope to DATA.
\<close>

section \<open>Model\<close>

record envelope =
  env_sender :: "address option"
  env_recipients :: "address list"
  env_body :: body

record reply =
  reply_code :: nat
  reply_text :: string

definition new_reply :: "nat \<Rightarrow> string \<Rightarrow> reply" where
  "new_reply c t = \<lparr>reply_code = c, reply_text = t\<rparr>"

datatype action =
    ActReply reply
  | ActHello bool
  | CheckRecipient address
  | BeginData envelope
  | ActQuit
  | ActStartTls

record session =
  greeting :: "string option"
  extended :: bool
  transaction :: "envelope option"
  max_message_bytes :: nat
  max_recipients :: nat

definition new_session :: "nat \<Rightarrow> nat \<Rightarrow> session" where
  "new_session mb mr = \<lparr>greeting = None, extended = False, transaction = None,
     max_message_bytes = mb, max_recipients = mr\<rparr>"

definition authentication_allowed :: "session \<Rightarrow> bool" where
  "authentication_allowed s \<longleftrightarrow> extended s \<and> transaction s = None"

definition apply_hello :: "session \<Rightarrow> string \<Rightarrow> bool \<Rightarrow> action \<times> session" where
  "apply_hello s name ext =
     (ActHello ext, s\<lparr>greeting := Some name, extended := ext, transaction := None\<rparr>)"

definition apply_mail :: "session \<Rightarrow> address option \<Rightarrow> nat option \<Rightarrow> body option \<Rightarrow> action \<times> session" where
  "apply_mail s0 sndr sz bd =
     (let s = s0\<lparr>transaction := None\<rparr> in
      if greeting s = None then (ActReply (new_reply 503 ''5.5.1 Send HELO or EHLO first''), s)
      else if \<not> extended s \<and> (sz \<noteq> None \<or> bd \<noteq> None)
        then (ActReply (new_reply 555 ''5.5.4 Parameters require EHLO''), s)
      else if (case sz of None \<Rightarrow> False | Some n \<Rightarrow> n > max_message_bytes s)
        then (ActReply (new_reply 552 ''5.3.4 Message too large''), s)
      else (ActReply (new_reply 250 ''2.1.0 Sender accepted''),
            s\<lparr>transaction := Some \<lparr>env_sender = sndr, env_recipients = [],
                env_body = (case bd of None \<Rightarrow> SevenBit | Some b \<Rightarrow> b)\<rparr>\<rparr>))"

definition apply_data :: "session \<Rightarrow> action \<times> session" where
  "apply_data s =
     (case transaction s of
        None \<Rightarrow> (ActReply (new_reply 503 ''5.5.1 Need accepted recipient''), s)
      | Some tx \<Rightarrow>
          if env_recipients tx = [] then (ActReply (new_reply 503 ''5.5.1 Need accepted recipient''), s)
          else (BeginData tx, s\<lparr>transaction := None\<rparr>))"

fun apply_command :: "session \<Rightarrow> command \<Rightarrow> action \<times> session" where
  "apply_command s (Ehlo name) = apply_hello s name True"
| "apply_command s (Helo name) = apply_hello s name False"
| "apply_command s Reset = (ActReply (new_reply 250 ''2.0.0 Reset''), s\<lparr>transaction := None\<rparr>)"
| "apply_command s Noop = (ActReply (new_reply 250 ''2.0.0 OK''), s)"
| "apply_command s Help =
     (ActReply (new_reply 214 ''2.0.0 EHLO HELO MAIL RCPT DATA RSET NOOP QUIT VRFY HELP STARTTLS''), s)"
| "apply_command s Verify = (ActReply (new_reply 252 ''2.5.2 Cannot verify user''), s)"
| "apply_command s Quit = (ActQuit, s)"
| "apply_command s StartTls =
     (if extended s then (ActStartTls, s) else (ActReply (new_reply 503 ''5.5.1 Send EHLO first''), s))"
| "apply_command s Unsupported = (ActReply (new_reply 502 ''5.5.1 Command not supported''), s)"
| "apply_command s (Mail sndr sz bd) = apply_mail s sndr sz bd"
| "apply_command s (Rcpt a) =
     (case transaction s of
        None \<Rightarrow> (ActReply (new_reply 503 ''5.5.1 Send MAIL first''), s)
      | Some _ \<Rightarrow> (CheckRecipient a, s))"
| "apply_command s Data = apply_data s"

definition same_recipient :: "bool \<Rightarrow> address \<Rightarrow> address \<Rightarrow> bool" where
  "same_recipient local old a =
     (if local then eq_ignore_ascii_case (as_str old) (as_str a) else old = a)"

definition routed_recipient_result :: "session \<Rightarrow> address \<Rightarrow> bool \<Rightarrow> bool \<Rightarrow> reply \<times> session" where
  "routed_recipient_result s a exists local =
     (case transaction s of
        None \<Rightarrow> (new_reply 503 ''5.5.1 Send MAIL first'', s)
      | Some tx \<Rightarrow>
          if \<not> exists then (new_reply 550 ''5.1.1 Recipient unavailable; relay denied'', s)
          else if \<not> list_ex (\<lambda>old. same_recipient local old a) (env_recipients tx) then
            (if length (env_recipients tx) \<ge> max_recipients s
             then (new_reply 452 ''4.5.3 Too many recipients'', s)
             else (new_reply 250 ''2.1.5 Recipient accepted'',
                   s\<lparr>transaction := Some (tx\<lparr>env_recipients := env_recipients tx @ [a]\<rparr>)\<rparr>))
          else (new_reply 250 ''2.1.5 Recipient accepted'', s))"

definition recipient_result :: "session \<Rightarrow> address \<Rightarrow> bool \<Rightarrow> reply \<times> session" where
  "recipient_result s a exists = routed_recipient_result s a exists True"

section \<open>The session as a machine\<close>

text \<open>The router's completion of a RCPT is an event of its own.\<close>

datatype session_event = Cmd command | RcptResult address bool bool

datatype session_output = Acted action | Replied reply

fun session_step :: "session \<Rightarrow> session_event \<Rightarrow> session_output \<times> session" where
  "session_step s (Cmd c) = (let (a, s') = apply_command s c in (Acted a, s'))"
| "session_step s (RcptResult a exists local) =
     (let (r, s') = routed_recipient_result s a exists local in (Replied r, s'))"

section \<open>Which exchanges stand behind an open transaction\<close>

text \<open>The exchanges that end a transaction.\<close>

fun ends_transaction :: "session_event \<times> session_output \<Rightarrow> bool" where
  "ends_transaction (Cmd (Ehlo _), _) = True"
| "ends_transaction (Cmd (Helo _), _) = True"
| "ends_transaction (Cmd Reset, _) = True"
| "ends_transaction (Cmd (Mail _ _ _), _) = True"
| "ends_transaction (_, Acted (BeginData _)) = True"
| "ends_transaction _ = False"

definition accepted_mail :: "session_output" where
  "accepted_mail = Acted (ActReply (new_reply 250 ''2.1.0 Sender accepted''))"

definition accepted_rcpt :: "session_output" where
  "accepted_rcpt = Replied (new_reply 250 ''2.1.5 Recipient accepted'')"

text \<open>An envelope is justified by a history whose last accepted MAIL opened it, which nothing
  ended since, and whose accepted recipients are the envelope's.\<close>

definition justified :: "(session_event \<times> session_output) list \<Rightarrow> nat \<Rightarrow> nat \<Rightarrow> envelope \<Rightarrow> bool" where
  "justified h mb mr env \<longleftrightarrow>
     (\<exists>h1 sz bd h2.
        h = h1 @ (Cmd (Mail (env_sender env) sz bd), accepted_mail) # h2
      \<and> (\<exists>name out. (Cmd (Ehlo name), out) \<in> set h1 \<or> (Cmd (Helo name), out) \<in> set h1)
      \<and> (\<forall>x\<in>set h2. \<not> ends_transaction x)
      \<and> (\<forall>n. sz = Some n \<longrightarrow> n \<le> mb)
      \<and> env_body env = (case bd of None \<Rightarrow> SevenBit | Some b \<Rightarrow> b)
      \<and> (\<forall>r\<in>set (env_recipients env). \<exists>local. (RcptResult r True local, accepted_rcpt) \<in> set h2)
      \<and> (\<forall>a exists local. (RcptResult a exists local, accepted_rcpt) \<in> set h2 \<longrightarrow>
            exists \<and> (\<exists>r\<in>set (env_recipients env). same_recipient local r a))
      \<and> distinct (env_recipients env) \<and> length (env_recipients env) \<le> mr)"

definition session_inv :: "nat \<Rightarrow> nat \<Rightarrow> session \<Rightarrow> (session_event \<times> session_output) list \<Rightarrow> bool" where
  "session_inv mb mr s h \<longleftrightarrow>
     max_message_bytes s = mb \<and> max_recipients s = mr
   \<and> (greeting s \<noteq> None \<longrightarrow>
        (\<exists>name out. (Cmd (Ehlo name), out) \<in> set h \<or> (Cmd (Helo name), out) \<in> set h))
   \<and> (\<forall>env. transaction s = Some env \<longrightarrow> justified h mb mr env)"

lemma session_inv_new: "session_inv mb mr (new_session mb mr) []"
  by (simp add: session_inv_def new_session_def)

lemma same_recipient_refl [simp]: "same_recipient local a a"
  by (simp add: same_recipient_def eq_ignore_ascii_case_def)

text \<open>An exchange that neither ends the transaction nor adds a recipient.\<close>

lemma justified_neutral:
  assumes "justified h mb mr env" "\<not> ends_transaction x"
    "\<And>a e l. x = (RcptResult a e l, accepted_rcpt) \<Longrightarrow> e \<and> (\<exists>r\<in>set (env_recipients env). same_recipient l r a)"
  shows "justified (h @ [x]) mb mr env"
proof -
  obtain h1 sz bd h2 where *: "h = h1 @ (Cmd (Mail (env_sender env) sz bd), accepted_mail) # h2"
    "\<exists>name out. (Cmd (Ehlo name), out) \<in> set h1 \<or> (Cmd (Helo name), out) \<in> set h1"
    "\<forall>x\<in>set h2. \<not> ends_transaction x" "\<forall>n. sz = Some n \<longrightarrow> n \<le> mb"
    "env_body env = (case bd of None \<Rightarrow> SevenBit | Some b \<Rightarrow> b)"
    "\<forall>r\<in>set (env_recipients env). \<exists>local. (RcptResult r True local, accepted_rcpt) \<in> set h2"
    "\<forall>a exists local. (RcptResult a exists local, accepted_rcpt) \<in> set h2 \<longrightarrow>
        exists \<and> (\<exists>r\<in>set (env_recipients env). same_recipient local r a)"
    "distinct (env_recipients env)" "length (env_recipients env) \<le> mr"
    using assms(1) unfolding justified_def by blast
  show ?thesis
    unfolding justified_def
    by (intro exI [of _ h1] exI [of _ sz] exI [of _ bd] exI [of _ "h2 @ [x]"])
      (use * assms(2,3) in \<open>auto; blast\<close>)
qed

lemma justified_add:
  assumes "justified h mb mr env" "\<not> list_ex (\<lambda>old. same_recipient l old a) (env_recipients env)"
    "length (env_recipients env) < mr"
  shows "justified (h @ [(RcptResult a True l, accepted_rcpt)]) mb mr
    (env\<lparr>env_recipients := env_recipients env @ [a]\<rparr>)"
proof -
  let ?x = "(RcptResult a True l, accepted_rcpt)"
  obtain h1 sz bd h2 where *: "h = h1 @ (Cmd (Mail (env_sender env) sz bd), accepted_mail) # h2"
    "\<exists>name out. (Cmd (Ehlo name), out) \<in> set h1 \<or> (Cmd (Helo name), out) \<in> set h1"
    "\<forall>x\<in>set h2. \<not> ends_transaction x" "\<forall>n. sz = Some n \<longrightarrow> n \<le> mb"
    "env_body env = (case bd of None \<Rightarrow> SevenBit | Some b \<Rightarrow> b)"
    "\<forall>r\<in>set (env_recipients env). \<exists>local. (RcptResult r True local, accepted_rcpt) \<in> set h2"
    "\<forall>a exists local. (RcptResult a exists local, accepted_rcpt) \<in> set h2 \<longrightarrow>
        exists \<and> (\<exists>r\<in>set (env_recipients env). same_recipient local r a)"
    "distinct (env_recipients env)" "length (env_recipients env) \<le> mr"
    using assms(1) unfolding justified_def by blast
  have "a \<notin> set (env_recipients env)"
    using assms(2) by (auto simp: list_ex_iff)
  moreover have "\<not> ends_transaction ?x" by (simp add: accepted_rcpt_def)
  ultimately show ?thesis
    unfolding justified_def
    by (intro exI [of _ h1] exI [of _ sz] exI [of _ bd] exI [of _ "h2 @ [?x]"])
      (use * assms(3) in \<open>auto; blast\<close>)
qed

section \<open>The invariant along a session\<close>

lemma justified_new:
  assumes "\<exists>name out. (Cmd (Ehlo name), out) \<in> set h \<or> (Cmd (Helo name), out) \<in> set h"
    "\<forall>n. sz = Some n \<longrightarrow> n \<le> mb"
  shows "justified (h @ [(Cmd (Mail f sz bd), accepted_mail)]) mb mr
    \<lparr>env_sender = f, env_recipients = [], env_body = (case bd of None \<Rightarrow> SevenBit | Some b \<Rightarrow> b)\<rparr>"
  unfolding justified_def
  by (intro exI [of _ h] exI [of _ sz] exI [of _ bd] exI [of _ "[]"]) (use assms in auto)

lemma greeted_append:
  "(\<exists>name out. (Cmd (Ehlo name), out) \<in> set h \<or> (Cmd (Helo name), out) \<in> set h) \<Longrightarrow>
   \<exists>name out. (Cmd (Ehlo name), out) \<in> set (h @ t) \<or> (Cmd (Helo name), out) \<in> set (h @ t)"
  by auto

lemma session_inv_unchanged:
  assumes "session_inv mb mr s h" "\<not> ends_transaction x" "snd x \<noteq> accepted_rcpt"
  shows "session_inv mb mr s (h @ [x])"
proof -
  have "justified h mb mr env \<Longrightarrow> justified (h @ [x]) mb mr env" for env
    using assms(3) by (intro justified_neutral [OF _ assms(2)]) auto
  then show ?thesis using assms(1) unfolding session_inv_def by auto
qed

lemma session_inv_closed:
  assumes "session_inv mb mr s h"
  shows "session_inv mb mr (s\<lparr>transaction := None\<rparr>) (h @ [x])"
  using assms unfolding session_inv_def by auto

lemma session_inv_mail:
  assumes "session_inv mb mr s h" "apply_mail s f sz bd = (a, s')"
  shows "session_inv mb mr s' (h @ [(Cmd (Mail f sz bd), Acted a)])"
proof (cases "transaction s' = None")
  case True
  then have "s' = s\<lparr>transaction := None\<rparr>"
    using assms(2) by (auto simp: apply_mail_def Let_def split: if_splits option.splits)
  then show ?thesis using session_inv_closed [OF assms(1)] by simp
next
  case False
  then have *: "greeting s \<noteq> None" "\<forall>n. sz = Some n \<longrightarrow> n \<le> max_message_bytes s" "Acted a = accepted_mail"
    "s' = s\<lparr>transaction := Some \<lparr>env_sender = f, env_recipients = [],
       env_body = (case bd of None \<Rightarrow> SevenBit | Some b \<Rightarrow> b)\<rparr>\<rparr>"
    using assms(2) by (auto simp: apply_mail_def accepted_mail_def Let_def split: if_splits option.splits)
  from *(1) assms(1) have g: "\<exists>name out. (Cmd (Ehlo name), out) \<in> set h \<or> (Cmd (Helo name), out) \<in> set h"
    unfolding session_inv_def by blast
  show ?thesis
    using assms(1) *(2) justified_new [OF g, of sz mb f bd mr] greeted_append [OF g]
    unfolding session_inv_def *(3) *(4) by simp
qed

lemma session_inv_rcpt:
  assumes "session_inv mb mr s h" "routed_recipient_result s a e l = (r, s')"
  shows "session_inv mb mr s' (h @ [(RcptResult a e l, Replied r)])"
proof (cases "Replied r = accepted_rcpt")
  case False
  then have "s' = s"
    using assms(2) by (auto simp: routed_recipient_result_def accepted_rcpt_def split: if_splits option.splits)
  then show ?thesis using session_inv_unchanged [OF assms(1), of "(RcptResult a e l, Replied r)"] False by simp
next
  case True
  then obtain tx where tx: "transaction s = Some tx" and e: "e"
    using assms(2)
    by (auto simp: routed_recipient_result_def accepted_rcpt_def new_reply_def split: if_splits option.splits)
  have j: "justified h mb mr tx" "max_recipients s = mr"
    using assms(1) tx unfolding session_inv_def by auto
  show ?thesis
  proof (cases "list_ex (\<lambda>old. same_recipient l old a) (env_recipients tx)")
    case dup: True
    then have "s' = s" using assms(2) tx e by (simp add: routed_recipient_result_def)
    moreover have "justified (h @ [(RcptResult a e l, accepted_rcpt)]) mb mr tx"
      using justified_neutral [OF j(1), of "(RcptResult a e l, accepted_rcpt)"] dup e
      by (auto simp: accepted_rcpt_def list_ex_iff)
    ultimately show ?thesis using assms(1) tx True unfolding session_inv_def by auto
  next
    case new: False
    then have "length (env_recipients tx) < mr"
      "s' = s\<lparr>transaction := Some (tx\<lparr>env_recipients := env_recipients tx @ [a]\<rparr>)\<rparr>"
      using assms(2) tx e True j(2)
      by (auto simp: routed_recipient_result_def accepted_rcpt_def new_reply_def split: if_splits)
    then show ?thesis
      using justified_add [OF j(1) new] assms(1) e True unfolding session_inv_def by auto
  qed
qed

lemma session_inv_step:
  assumes inv: "session_inv mb mr s h" and step: "session_step s v = (out, s')"
  shows "session_inv mb mr s' (h @ [(v, out)])"
proof (cases v)
  case (RcptResult a e l)
  with step obtain r where "routed_recipient_result s a e l = (r, s')" "out = Replied r"
    by (auto split: prod.splits)
  with session_inv_rcpt [OF inv] RcptResult show ?thesis by simp
next
  case (Cmd c)
  with step obtain a where a: "apply_command s c = (a, s')" "out = Acted a" by (auto split: prod.splits)
  have keep: "s' = s \<Longrightarrow> \<not> ends_transaction (v, out) \<Longrightarrow> ?thesis"
    using session_inv_unchanged [OF inv, of "(v, out)"] a(2) by (simp add: accepted_rcpt_def)
  show ?thesis
  proof (cases c)
    case (Mail f sz bd)
    then show ?thesis using session_inv_mail [OF inv, of f sz bd a s'] a Cmd by simp
  next
    case (Rcpt r)
    then show ?thesis using a Cmd keep by (auto split: option.splits)
  next
    case Data
    then show ?thesis using a Cmd keep session_inv_closed [OF inv]
      by (auto simp: apply_data_def split: option.splits if_splits)
  next
    case StartTls
    then show ?thesis using a Cmd keep by (auto split: if_splits)
  next
    case Reset
    then show ?thesis using a Cmd session_inv_closed [OF inv] by auto
  next
    case (Ehlo n)
    then show ?thesis using a Cmd inv unfolding session_inv_def by (auto simp: apply_hello_def)
  next
    case (Helo n)
    then show ?thesis using a Cmd inv unfolding session_inv_def by (auto simp: apply_hello_def)
  qed (use a Cmd keep in auto)
qed

interpretation smtp: machine_invariant session_step "session_inv mb mr" for mb mr
  by unfold_locales (rule session_inv_step)

lemma begin_data_step:
  assumes "session_step s v = (Acted (BeginData env), s')"
  shows "v = Cmd Data" "transaction s = Some env" "env_recipients env \<noteq> []" "transaction s' = None"
proof -
  obtain c where v: "v = Cmd c" using assms by (cases v) (auto split: prod.splits)
  then have a: "apply_command s c = (BeginData env, s')" using assms by (auto split: prod.splits)
  then have c: "c = Data"
    by (cases c) (auto simp: apply_hello_def apply_mail_def Let_def split: option.splits if_splits)
  from v c show "v = Cmd Data" by simp
  from a c show "transaction s = Some env" "env_recipients env \<noteq> []" "transaction s' = None"
    by (auto simp: apply_data_def split: option.splits if_splits)
qed

text \<open>Property C3. Whatever commands and routing results a session sees, an envelope is handed to
  DATA only on the DATA command, and only after an accepted MAIL of a greeted client that no RSET,
  HELO, EHLO, MAIL or DATA ended since; its sender and body are those of that MAIL, whose
  declared size was within the limit; its recipients, at least one, at most the limit and
  without repetition, are exactly those the router accepted since that MAIL.\<close>

theorem session_data_history:
  assumes "trace session_step (new_session mb mr) vs = pre @ (v, Acted (BeginData env)) # post"
  shows "v = Cmd Data \<and> env_recipients env \<noteq> [] \<and> justified pre mb mr env"
proof -
  obtain s1 s2 where "session_inv mb mr s1 ([] @ pre)" "session_step s1 v = (Acted (BeginData env), s2)"
    using smtp.inv_before [OF session_inv_new assms] by metis
  then show ?thesis using begin_data_step [of s1 v env s2] unfolding session_inv_def by auto
qed

theorem session_data_history_witness:
  "let r = Address ''a@b.test'';
       vs = [Cmd (Ehlo ''me.test''), Cmd (Mail None None None), Cmd (Rcpt r), RcptResult r True True, Cmd Data]
   in \<exists>pre. trace session_step (new_session 1000 5) vs =
          pre @ (Cmd Data, Acted (BeginData \<lparr>env_sender = None, env_recipients = [r], env_body = SevenBit\<rparr>)) # []
        \<and> justified pre 1000 5 \<lparr>env_sender = None, env_recipients = [r], env_body = SevenBit\<rparr>"
proof -
  let ?r = "Address ''a@b.test''"
  let ?vs = "[Cmd (Ehlo ''me.test''), Cmd (Mail None None None), Cmd (Rcpt ?r), RcptResult ?r True True, Cmd Data]"
  let ?e = "\<lparr>env_sender = None, env_recipients = [?r], env_body = SevenBit\<rparr>"
  have "\<exists>pre. trace session_step (new_session 1000 5) ?vs = pre @ (Cmd Data, Acted (BeginData ?e)) # []"
    by (simp add: new_session_def apply_hello_def apply_mail_def routed_recipient_result_def apply_data_def)
  then obtain pre where t: "trace session_step (new_session 1000 5) ?vs = pre @ (Cmd Data, Acted (BeginData ?e)) # []" ..
  from session_data_history [OF t] t show ?thesis unfolding Let_def by blast
qed

end
