(* ===== verification/Storage_Runtime.thy ===== *)
theory Storage_Runtime
  imports Framing
begin

text \<open>
  What every part of the store shares, \<open>crates/store/src/runtime.rs\<close> and the head of
  \<open>crates/store/src/lib.rs\<close>: \<open>StoreError\<close>, \<open>FaultPoint\<close> with its names, \<open>StorageRuntime\<close> and
  \<open>StoreOptions\<close>. The clock is code the runtime calls through a trait; a reading of it is a value
  of the model. The fault hook is a function from fault points to whether the hook fails there;
  a binary without the hook runs with \<^term>\<open>\<lambda>_. False\<close>.
\<close>

datatype store_error =
    PermissionDenied | Io io_error | Database | Locked | UnsafePath | UnsafePermissions | InvalidId
  | UnsupportedSchema | InitializationOutcomeUnknown | MaintenanceBusy | AlreadyExists | Integrity
  | SizeLimit | DiskReserve | PoisonedStage | RecipientUnavailable | Quota | UidExhausted
  | IdempotencyConflict | OutcomeUnknown | NotFound | InvalidInput | WorkerUnavailable
  | StaleLease | QueueOutcomeUnknown | ClockChanged

datatype fault_point =
    StageCreate | Append | Flush | FileSync | FileSynced | Rename | Renamed | BlobDirectorySync
  | StagingDirectorySync | DirectoriesSynced | DatabaseWrite | BeforeCommit | Commit | AfterCommit
  | SchemaApplied | SchemaCommitted | GcPlanned | GcUnlinked | GcDirectorySync | QueueBeforeCommit
  | QueueAfterCommit | NotificationPrepared | NotificationBeforeCommit | NotificationAfterCommit

fun fault_name :: "fault_point \<Rightarrow> string" where
  "fault_name StageCreate = ''stage_create''"
| "fault_name Append = ''append''"
| "fault_name Flush = ''flush''"
| "fault_name FileSync = ''file_sync''"
| "fault_name FileSynced = ''file_synced''"
| "fault_name Rename = ''rename''"
| "fault_name Renamed = ''renamed''"
| "fault_name BlobDirectorySync = ''blob_directory_sync''"
| "fault_name StagingDirectorySync = ''staging_directory_sync''"
| "fault_name DirectoriesSynced = ''directories_synced''"
| "fault_name DatabaseWrite = ''database_write''"
| "fault_name BeforeCommit = ''before_commit''"
| "fault_name Commit = ''commit''"
| "fault_name AfterCommit = ''after_commit''"
| "fault_name SchemaApplied = ''schema_applied''"
| "fault_name SchemaCommitted = ''schema_committed''"
| "fault_name GcPlanned = ''gc_planned''"
| "fault_name GcUnlinked = ''gc_unlinked''"
| "fault_name GcDirectorySync = ''gc_directory_sync''"
| "fault_name QueueBeforeCommit = ''queue_before_commit''"
| "fault_name QueueAfterCommit = ''queue_after_commit''"
| "fault_name NotificationPrepared = ''notification_prepared''"
| "fault_name NotificationBeforeCommit = ''notification_before_commit''"
| "fault_name NotificationAfterCommit = ''notification_after_commit''"

text \<open>\<open>StorageRuntime::now_ms\<close>: a clock that fails or reads before the epoch is refused. The
  argument is what the clock's \<open>now_ms\<close> returned.\<close>

definition now_ms :: "(store_error + int) \<Rightarrow> store_error + int" where
  "now_ms reading = rbind reading (\<lambda>v. if v < 0 then Err InvalidInput else Ok v)"

definition hit :: "(fault_point \<Rightarrow> bool) \<Rightarrow> fault_point \<Rightarrow> store_error + unit" where
  "hit hook p = (if hook p then Err (Io OtherIo) else Ok ())"

record store_options =
  opt_max_message_bytes :: nat
  opt_stream_buffer_bytes :: nat
  opt_disk_reserve_bytes :: nat
  opt_disk_reserve_percent :: nat
  opt_temporary_reserved_bytes :: nat
  opt_cache_kib :: nat

definition default_store_options :: store_options where
  "default_store_options = \<lparr>opt_max_message_bytes = 25 * 1024 * 1024, opt_stream_buffer_bytes = 16384,
     opt_disk_reserve_bytes = 2 * 1024 * 1024 * 1024, opt_disk_reserve_percent = 10,
     opt_temporary_reserved_bytes = 400 * 1024 * 1024, opt_cache_kib = 8192\<rparr>"

lemma now_ms_Ok [simp]: "now_ms r = Ok v \<longleftrightarrow> r = Ok v \<and> 0 \<le> v"
  by (cases r) (auto simp: now_ms_def res_simps)

lemma hit_simps [simp]:
  "hit h p = Ok u \<longleftrightarrow> \<not> h p"
  "hit h p = Err e \<longleftrightarrow> h p \<and> e = Io OtherIo"
  by (auto simp: hit_def)

end
