(* ===== verification/Headers.thy ===== *)
theory Headers
  imports Address Storage_Runtime
begin

text \<open>
  Message headers: \<open>HeaderFilter\<close> of \<open>crates/protocol/src/headers.rs\<close>, which validates header
  lines and removes Return-Path (and Bcc on submission) with their continuation lines, and
  \<open>SubmissionHeaders\<close> of \<open>crates/server/src/lib.rs\<close>, which pins the author of a submission.
  The specification is over whole header fields: a first line and its continuation lines.
  Their callers give up the message at the first error, so the state is returned with a
  successful result only.
\<close>

section \<open>Header filter\<close>

datatype header_error = HeaderError

record header_filter =
  field_seen :: bool
  removing :: bool
  remove_bcc :: bool

definition default_filter :: header_filter where
  "default_filter = \<lparr>field_seen = False, removing = False, remove_bcc = False\<rparr>"

definition submission :: header_filter where
  "submission = default_filter\<lparr>remove_bcc := True\<rparr>"

definition is_fold :: "bytes \<Rightarrow> bool" where
  "is_fold content = (case content of [] \<Rightarrow> False | c # _ \<Rightarrow> c = SP \<or> c = TAB)"

definition token_byte :: "byte \<Rightarrow> bool" where
  "token_byte c \<longleftrightarrow> 33 \<le> code c \<and> code c \<le> 126"

definition removed_name :: "bool \<Rightarrow> bytes \<Rightarrow> bool" where
  "removed_name bcc name \<longleftrightarrow> eq_ignore_ascii_case name ''Return-Path''
     \<or> (bcc \<and> (eq_ignore_ascii_case name ''Bcc'' \<or> eq_ignore_ascii_case name ''Resent-Bcc''))"

definition header_bytes_ok :: "bytes \<Rightarrow> bool" where
  "header_bytes_ok content \<longleftrightarrow> is_ascii content \<and> \<not> list_ex (\<lambda>b. is_ascii_control b \<and> b \<noteq> TAB) content"

definition retain :: "header_filter \<Rightarrow> bytes \<Rightarrow> header_error + bool \<times> header_filter" where
  "retain f line =
     rbind (ok_or (strip_suffix CRLF line) HeaderError) (\<lambda>content.
     if \<not> header_bytes_ok content then Err HeaderError
     else if is_fold content then
       (if field_seen f then Ok (\<not> removing f, f) else Err HeaderError)
     else rbind (ok_or (split_once CHR '':'' content) HeaderError) (\<lambda>(name, _).
       if name = [] \<or> \<not> list_all token_byte name then Err HeaderError
       else let r = removed_name (remove_bcc f) name
            in Ok (\<not> r, f\<lparr>field_seen := True, removing := r\<rparr>)))"

text \<open>The lines of a header that the callers keep, in order.\<close>

fun filter_lines :: "header_filter \<Rightarrow> bytes list \<Rightarrow> header_error + bytes list \<times> header_filter" where
  "filter_lines f [] = Ok ([], f)"
| "filter_lines f (l # ls) =
     rbind (retain f l) (\<lambda>(keep, f').
     rbind (filter_lines f' ls) (\<lambda>(out, f''). Ok ((if keep then l # out else out), f'')))"

section \<open>Whole fields\<close>

text \<open>A field is its first line and its continuation lines.\<close>

type_synonym field = "bytes \<times> bytes list"

definition field_lines :: "field \<Rightarrow> bytes list" where
  "field_lines fl = fst fl # snd fl"

definition field_name :: "field \<Rightarrow> bytes" where
  "field_name fl = takeWhile (\<lambda>c. c \<noteq> CHR '':'') (fst fl)"

definition line_ok :: "bytes \<Rightarrow> bool" where
  "line_ok l \<longleftrightarrow> (\<exists>content. l = content @ CRLF \<and> header_bytes_ok content)"

definition fold_line :: "bytes \<Rightarrow> bool" where
  "fold_line l \<longleftrightarrow> line_ok l \<and> is_fold (butlast (butlast l))"

definition head_line :: "bytes \<Rightarrow> bool" where
  "head_line l \<longleftrightarrow> line_ok l \<and> (\<exists>name rest. l = name @ CHR '':'' # rest @ CRLF \<and> name \<noteq> [] \<and> list_all token_byte name
      \<and> CHR '':'' \<notin> set name)"

definition field_ok :: "field \<Rightarrow> bool" where
  "field_ok fl \<longleftrightarrow> head_line (fst fl) \<and> list_all fold_line (snd fl)"

lemma takeWhile_delim: "d \<notin> set s \<Longrightarrow> takeWhile (\<lambda>c. c \<noteq> d) (s @ d # t) = s"
  by (induction s) auto

lemma token_not_blank: "token_byte c \<Longrightarrow> c \<noteq> SP \<and> c \<noteq> TAB"
  by (auto simp: token_byte_def code_def)

lemma retain_fold:
  "retain f l = Ok (k, f') \<and> is_fold (butlast (butlast l)) \<longleftrightarrow>
     fold_line l \<and> field_seen f \<and> k = (\<not> removing f) \<and> f' = f"
  by (auto simp: retain_def res_simps strip_suffix_Some_iff fold_line_def line_ok_def butlast_append
      Let_def split: if_splits)

lemma retain_head:
  "retain f l = Ok (k, f') \<and> \<not> is_fold (butlast (butlast l)) \<longleftrightarrow>
     head_line l \<and> k = (\<not> removed_name (remove_bcc f) (field_name (l, cs)))
       \<and> f' = f\<lparr>field_seen := True, removing := removed_name (remove_bcc f) (field_name (l, cs))\<rparr>"
  (is "?lhs \<longleftrightarrow> ?rhs")
proof
  assume l: ?lhs
  then obtain content name rest where c: "l = content @ CRLF" "header_bytes_ok content"
    "content = name @ CHR '':'' # rest" "CHR '':'' \<notin> set name" "name \<noteq> []" "list_all token_byte name"
    "k = (\<not> removed_name (remove_bcc f) name)"
    "f' = f\<lparr>field_seen := True, removing := removed_name (remove_bcc f) name\<rparr>"
    by (auto simp: retain_def res_simps strip_suffix_Some_iff butlast_append split_once_Some_iff
        Let_def split: if_splits)
  moreover have "field_name (l, cs) = name"
    using c by (simp add: field_name_def takeWhile_delim)
  ultimately show ?rhs by (auto simp: head_line_def line_ok_def)
next
  assume r: ?rhs
  then obtain content name rest where c: "l = content @ CRLF" "header_bytes_ok content"
    "content = name @ CHR '':'' # rest" "CHR '':'' \<notin> set name" "name \<noteq> []" "list_all token_byte name"
    unfolding head_line_def line_ok_def by fastforce
  have n: "field_name (l, cs) = name" using c by (simp add: field_name_def takeWhile_delim)
  have "\<not> is_fold content"
    using c token_not_blank by (cases name) (auto simp: is_fold_def)
  moreover have "split_once CHR '':'' content = Some (name, rest)"
    using c by (simp add: split_once_Some_iff)
  ultimately show ?lhs
    using r c(1,2,5,6) n
    by (auto simp: retain_def strip_suffix_Some_iff res_simps butlast_append Let_def
        intro!: exI [of _ content])
qed

text \<open>Continuation lines share the fate of their field.\<close>

lemma filter_folds:
  "list_all fold_line cs \<Longrightarrow> field_seen f \<Longrightarrow>
   filter_lines f (cs @ ls) =
     rbind (filter_lines f ls) (\<lambda>(out, f'). Ok ((if removing f then [] else cs) @ out, f'))"
proof (induction cs)
  case Nil
  then show ?case by (cases "filter_lines f ls") (auto split: prod.splits)
next
  case (Cons c cs)
  have "retain f c = Ok (\<not> removing f, f)"
    using retain_fold [of f c "\<not> removing f" f] Cons.prems by simp
  with Cons show ?case by (cases "filter_lines f ls") (auto split: prod.splits)
qed

lemma filter_field:
  assumes "field_ok fl"
  shows "filter_lines f (field_lines fl @ ls) =
    (let r = removed_name (remove_bcc f) (field_name fl) in
     rbind (filter_lines (f\<lparr>field_seen := True, removing := r\<rparr>) ls)
       (\<lambda>(out, f'). Ok ((if r then [] else field_lines fl) @ out, f')))"
proof -
  obtain l cs where fl: "fl = (l, cs)" by fastforce
  let ?r = "removed_name (remove_bcc f) (field_name fl)"
  let ?f = "f\<lparr>field_seen := True, removing := ?r\<rparr>"
  have "retain f l = Ok (\<not> ?r, ?f)"
    using retain_head [of f l "\<not> ?r" ?f cs] assms by (simp add: fl field_ok_def)
  moreover have "list_all fold_line cs" using assms by (simp add: fl field_ok_def)
  ultimately show ?thesis
    by (cases "filter_lines ?f ls") (auto simp: fl field_lines_def filter_folds Let_def split: prod.splits)
qed

lemma filter_fields:
  assumes "list_all field_ok fls"
  shows "\<exists>f'. filter_lines f (concat (map field_lines fls)) =
    Ok (concat (map field_lines (filter (\<lambda>fl. \<not> removed_name (remove_bcc f) (field_name fl)) fls)), f')"
  using assms
proof (induction fls arbitrary: f)
  case (Cons fl fls)
  let ?f = "f\<lparr>field_seen := True, removing := removed_name (remove_bcc f) (field_name fl)\<rparr>"
  from Cons.IH [of ?f] Cons.prems obtain f' where
    "filter_lines ?f (concat (map field_lines fls)) =
      Ok (concat (map field_lines (filter (\<lambda>fl. \<not> removed_name (remove_bcc f) (field_name fl)) fls)), f')"
    by auto
  with Cons.prems show ?case by (simp add: filter_field Let_def)
qed simp

text \<open>Every accepted header is a sequence of fields, after the continuation of a field already
  seen.\<close>

lemma filter_lines_fields:
  assumes "filter_lines f ls = Ok (out, f')"
  shows "\<exists>cs fls. ls = cs @ concat (map field_lines fls) \<and> list_all fold_line cs \<and> list_all field_ok fls
    \<and> (cs \<noteq> [] \<longrightarrow> field_seen f)"
  using assms
proof (induction ls arbitrary: f out)
  case Nil
  then show ?case by (intro exI [of _ "[]"]) simp
next
  case (Cons l ls)
  then obtain k f1 out1 where r: "retain f l = Ok (k, f1)" "filter_lines f1 ls = Ok (out1, f')"
    by (auto simp: res_simps)
  from Cons.IH [OF r(2)] obtain cs fls where
    *: "ls = cs @ concat (map field_lines fls)" "list_all fold_line cs" "list_all field_ok fls" by blast
  show ?case
  proof (cases "is_fold (butlast (butlast l))")
    case True
    then have "fold_line l" "field_seen f" using r(1) retain_fold [of f l k f1] by auto
    with * show ?thesis by (intro exI [of _ "l # cs"] exI [of _ fls]) simp
  next
    case False
    then have "head_line l" using r(1) retain_head [of f l k f1 cs] by auto
    with * show ?thesis
      by (intro exI [of _ "[] :: bytes list"] exI [of _ "(l, cs) # fls"])
        (simp add: field_ok_def [of "(l, cs)"] field_lines_def [of "(l, cs)"])
  qed
qed

lemma filter_lines_iff:
  assumes "\<not> field_seen f"
  shows "(\<exists>f'. filter_lines f ls = Ok (out, f')) \<longleftrightarrow>
    (\<exists>fls. ls = concat (map field_lines fls) \<and> list_all field_ok fls
      \<and> out = concat (map field_lines (filter (\<lambda>fl. \<not> removed_name (remove_bcc f) (field_name fl)) fls)))"
    (is "?lhs \<longleftrightarrow> ?rhs")
proof
  assume ?lhs
  then obtain f' where f': "filter_lines f ls = Ok (out, f')" by blast
  from filter_lines_fields [OF this] assms obtain fls
    where fls: "ls = concat (map field_lines fls)" "list_all field_ok fls" by auto
  with filter_fields [OF fls(2), of f] f' show ?rhs by auto
next
  assume ?rhs
  then show ?lhs using filter_fields by blast
qed

section \<open>Submission headers\<close>

record submission_headers =
  author :: "address option"
  identity_field :: bool

definition default_identities :: submission_headers where
  "default_identities = \<lparr>author = None, identity_field = False\<rparr>"

text \<open>Leading and trailing white space as \<open>str::trim\<close> sees it on ASCII text. The callers pass
  lines that \<^const>\<open>retain\<close> accepted, which are ASCII.\<close>

definition trim_byte :: "byte \<Rightarrow> bool" where
  "trim_byte c \<longleftrightarrow> code c = 32 \<or> (9 \<le> code c \<and> code c \<le> 13)"

definition trim :: "bytes \<Rightarrow> bytes" where
  "trim = trim_matches trim_byte"

definition from_mailbox :: "bytes \<Rightarrow> store_error + bytes" where
  "from_mailbox v =
     (case rsplit_once CHR ''<'' v of
        Some (display, mailbox) \<Rightarrow>
          if list_ex (\<lambda>c. c \<in> set ''<>,;:()'') display \<or> \<not> is_ascii display then Err PermissionDenied
          else ok_or (strip_suffix ''>'' mailbox) PermissionDenied
      | None \<Rightarrow> Ok v)"

definition from_field :: "submission_headers \<Rightarrow> bytes \<Rightarrow> store_error + submission_headers" where
  "from_field i v =
     (if author i \<noteq> None then Err PermissionDenied
      else rbind (from_mailbox (trim v)) (\<lambda>mailbox.
        case Address.parse mailbox of
          Err _ \<Rightarrow> Err PermissionDenied
        | Ok a \<Rightarrow> Ok (i\<lparr>author := Some a\<rparr>)))"

definition identities_line :: "submission_headers \<Rightarrow> bytes \<Rightarrow> store_error + submission_headers" where
  "identities_line i line =
     (if (case line of [] \<Rightarrow> False | c # _ \<Rightarrow> is_ascii_whitespace c)
      then (if identity_field i then Err PermissionDenied else Ok i)
      else rbind (ok_or (split_once CHR '':'' line) PermissionDenied) (\<lambda>(name, v).
        if name = [] \<or> list_ex (\<lambda>b. \<not> is_ascii_alphanumeric b \<and> b \<noteq> CHR ''-'') name
        then Err PermissionDenied
        else let i' = i\<lparr>identity_field := eq_ignore_ascii_case name ''From''\<rparr> in
          if eq_ignore_ascii_case name ''Sender''
             \<or> (length name \<ge> 7 \<and> eq_ignore_ascii_case (take 7 name) ''Resent-'')
          then Err PermissionDenied
          else if identity_field i' then from_field i' v
          else Ok i'))"

definition identities_finish :: "submission_headers \<Rightarrow> store_error + address" where
  "identities_finish i = ok_or (author i) PermissionDenied"

section \<open>The pinned author\<close>

definition starts_blank :: "bytes \<Rightarrow> bool" where
  "starts_blank l = (case l of [] \<Rightarrow> False | c # _ \<Rightarrow> is_ascii_whitespace c)"

definition line_name :: "bytes \<Rightarrow> bytes option" where
  "line_name l = (if starts_blank l then None else map_option fst (split_once CHR '':'' l))"

definition is_from :: "bytes \<Rightarrow> bool" where
  "is_from l = (case line_name l of None \<Rightarrow> False | Some n \<Rightarrow> eq_ignore_ascii_case n ''From'')"

definition forbidden_name :: "bytes \<Rightarrow> bool" where
  "forbidden_name n \<longleftrightarrow> eq_ignore_ascii_case n ''Sender''
     \<or> (length n \<ge> 7 \<and> eq_ignore_ascii_case (take 7 n) ''Resent-'')"

text \<open>The address that a From line names.\<close>

definition from_address :: "bytes \<Rightarrow> address option" where
  "from_address l =
     (case split_once CHR '':'' l of
        None \<Rightarrow> None
      | Some (_, v) \<Rightarrow>
         (case from_mailbox (trim v) of
            Err _ \<Rightarrow> None
          | Ok m \<Rightarrow> (case Address.parse m of Err _ \<Rightarrow> None | Ok a \<Rightarrow> Some a)))"

lemma identities_line_cases:
  assumes "identities_line i l = Ok i'"
  obtains (folded) "starts_blank l" "\<not> identity_field i" "i' = i"
  | (neutral) n where "line_name l = Some n" "\<not> eq_ignore_ascii_case n ''From''" "\<not> forbidden_name n"
      "i' = i\<lparr>identity_field := False\<rparr>"
  | (pinned) n a where "line_name l = Some n" "eq_ignore_ascii_case n ''From''" "\<not> forbidden_name n"
      "author i = None" "from_address l = Some a" "i' = i\<lparr>identity_field := True, author := Some a\<rparr>"
proof (cases "starts_blank l")
  case True
  then show ?thesis using assms folded by (auto simp: identities_line_def starts_blank_def split: if_splits)
next
  case False
  then obtain n v where nv: "split_once CHR '':'' l = Some (n, v)" "line_name l = Some n" "\<not> forbidden_name n"
    and i': "(if eq_ignore_ascii_case n ''From'' then from_field (i\<lparr>identity_field := True\<rparr>) v
              else Ok (i\<lparr>identity_field := False\<rparr>)) = Ok i'"
    using assms
    by (cases "split_once CHR '':'' l")
      (auto simp: identities_line_def starts_blank_def line_name_def forbidden_name_def Let_def split: if_splits)
  show ?thesis
  proof (cases "eq_ignore_ascii_case n ''From''")
    case False
    with nv i' neutral show ?thesis by auto
  next
    case True
    with i' obtain a where "author i = None" "i' = i\<lparr>identity_field := True, author := Some a\<rparr>"
      "from_address l = Some a"
      using nv(1)
      by (cases "from_mailbox (trim v)"; cases "Address.parse (projr (from_mailbox (trim v)))")
        (auto simp: from_field_def from_address_def split: if_splits)
    with True nv pinned show ?thesis by blast
  qed
qed

lemma identities_kept:
  assumes "fold_res identities_line i ls = Ok i'" "author i = Some a"
  shows "author i' = Some a \<and> (\<forall>l\<in>set ls. \<not> is_from l)"
  using assms
proof (induction ls arbitrary: i)
  case (Cons l ls)
  then obtain i1 where i1: "identities_line i l = Ok i1" "fold_res identities_line i1 ls = Ok i'"
    by (auto simp: res_simps)
  from i1(1) have "author i1 = Some a \<and> \<not> is_from l"
    by (rule identities_line_cases) (use Cons.prems in \<open>auto simp: is_from_def line_name_def\<close>)
  with Cons.IH i1(2) show ?case by simp
qed simp

lemma identities_allowed:
  assumes "fold_res identities_line i ls = Ok i'" "l \<in> set ls" "line_name l = Some n"
  shows "\<not> forbidden_name n"
  using assms
proof (induction ls arbitrary: i)
  case (Cons x ls)
  then obtain i1 where i1: "identities_line i x = Ok i1" "fold_res identities_line i1 ls = Ok i'"
    by (auto simp: res_simps)
  show ?case
  proof (cases "x = l")
    case True
    with i1(1) Cons.prems(3) show ?thesis
      by (auto elim!: identities_line_cases simp: line_name_def)
  qed (use Cons i1 in auto)
qed simp

lemma identities_unique:
  assumes "fold_res identities_line i ls = Ok i'" "author i = None" "author i' = Some a"
  shows "\<exists>pre l post. ls = pre @ l # post \<and> is_from l \<and> from_address l = Some a
    \<and> (\<forall>k\<in>set pre \<union> set post. \<not> is_from k) \<and> (post \<noteq> [] \<longrightarrow> \<not> starts_blank (hd post))"
  using assms
proof (induction ls arbitrary: i)
  case (Cons l ls)
  then obtain i1 where i1: "identities_line i l = Ok i1" "fold_res identities_line i1 ls = Ok i'"
    by (auto simp: res_simps)
  have other: ?case if "author i1 = None" "\<not> is_from l"
  proof -
    from Cons.IH [OF i1(2) that(1) Cons.prems(3)] obtain pre k post where
      "ls = pre @ k # post" "is_from k" "from_address k = Some a"
      "\<forall>m\<in>set pre \<union> set post. \<not> is_from m" "post \<noteq> [] \<longrightarrow> \<not> starts_blank (hd post)" by blast
    with that(2) show ?thesis
      by (intro exI [of _ "l # pre"] exI [of _ k] exI [of _ post]) auto
  qed
  from i1(1) show ?case
  proof (cases rule: identities_line_cases)
    case folded
    then show ?thesis using other Cons.prems by (auto simp: is_from_def line_name_def)
  next
    case (neutral n)
    then show ?thesis using other Cons.prems by (auto simp: is_from_def)
  next
    case (pinned n b)
    then have kept: "author i' = Some b" "\<forall>k\<in>set ls. \<not> is_from k"
      using identities_kept [OF i1(2), of b] by auto
    moreover have "ls \<noteq> [] \<longrightarrow> \<not> starts_blank (hd ls)"
      using i1(2) pinned(6) by (cases ls) (auto simp: res_simps elim!: identities_line_cases simp: line_name_def split: if_splits)
    ultimately show ?thesis
      using pinned Cons.prems(3) by (intro exI [of _ "[]"] exI [of _ l] exI [of _ ls]) (auto simp: is_from_def)
  qed
qed simp

lemma sample_subject: "identities_line default_identities (''Subject: x'' @ CRLF) = Ok default_identities"
  by (simp add: identities_line_def default_identities_def ascii_simps code_def eq_ignore_ascii_case_def lower_def)

lemma sample_address: "Address.parse ''jo@b.test'' = Ok (Address ''jo@b.test'')" by code_simp

lemma sample_trim: "trim ('' Jo <jo@b.test>'' @ CRLF) = ''Jo <jo@b.test>''"
  by (simp add: trim_def trim_matches_def trim_byte_def code_def)

lemma sample_mailbox: "from_mailbox ''Jo <jo@b.test>'' = Ok ''jo@b.test''"
  by (simp add: from_mailbox_def rsplit_once_def ascii_simps code_def strip_suffix_def suffix_def)

lemma sample_from: "identities_line default_identities (''From: Jo <jo@b.test>'' @ CRLF) = Ok \<lparr>author = Some (Address ''jo@b.test''), identity_field = True\<rparr>"
  using sample_address sample_trim sample_mailbox
  by (simp add: identities_line_def default_identities_def from_field_def ascii_simps code_def eq_ignore_ascii_case_def lower_def)

text \<open>Property C33. A submission whose header lines are all accepted and whose author is pinned has
  exactly one From field, on one line and not continued; the pinned author is the address that
  line names; and no header field is Sender or Resent-.\<close>

theorem submission_author_pinned:
  assumes "fold_res identities_line default_identities ls = Ok i" "identities_finish i = Ok a"
  shows "(\<exists>pre l post. ls = pre @ l # post \<and> is_from l \<and> from_address l = Some a
      \<and> (\<forall>k\<in>set pre \<union> set post. \<not> is_from k) \<and> (post \<noteq> [] \<longrightarrow> \<not> starts_blank (hd post)))
    \<and> (\<forall>l\<in>set ls. \<forall>n. line_name l = Some n \<longrightarrow> \<not> forbidden_name n)"
proof -
  have "author i = Some a" using assms(2) by (simp add: identities_finish_def res_simps)
  with assms(1) show ?thesis
    using identities_unique [of default_identities ls i a] identities_allowed [OF assms(1)]
    by (simp add: default_identities_def)
qed

theorem submission_author_pinned_witness:
  "\<exists>pre l post. [''Subject: x'' @ CRLF, ''From: Jo <jo@b.test>'' @ CRLF] = pre @ l # post
     \<and> from_address l = Some (Address ''jo@b.test'')"
proof -
  let ?ls = "[''Subject: x'' @ CRLF, ''From: Jo <jo@b.test>'' @ CRLF]"
  have run: "fold_res identities_line default_identities ?ls = Ok \<lparr>author = Some (Address ''jo@b.test''), identity_field = True\<rparr>"
    using sample_subject sample_from by simp
  have fin: "identities_finish \<lparr>author = Some (Address ''jo@b.test''), identity_field = True\<rparr> = Ok (Address ''jo@b.test'')"
    by (simp add: identities_finish_def)
  from submission_author_pinned [OF run fin, THEN conjunct1] show ?thesis
    by (elim exE conjE) (intro exI conjI)
qed

end
