(* ===== verification/Config.thy ===== *)
theory Config
  imports Address Storage_Runtime
begin

text \<open>
  Configuration, \<open>crates/core/src/config.rs\<close> (\<open>Config::validate\<close>, \<open>require_lab_receiver\<close>,
  \<open>require_lab_relay\<close>), \<open>crates/client/src/config.rs\<close> (\<open>SmtpSettings::validate\<close>,
  \<open>InputLimits::validate\<close>), and what other components derive from it: \<open>store_options\<close>
  (\<open>server/src/worker.rs\<close>) with the argument check of \<open>Store::open_inner\<close>, \<open>settings\<close>
  (\<open>server/src/relay.rs\<close>), the number of ingest slots (\<open>server/src/lib.rs\<close>). Paths are
  strings; deserialisation of the TOML text is done by a library and is not modelled.
\<close>

section \<open>Model\<close>

datatype ip_addr = V4 nat nat nat nat | V6 nat

fun is_unspecified :: "ip_addr \<Rightarrow> bool" where
  "is_unspecified (V4 a b c d) \<longleftrightarrow> a = 0 \<and> b = 0 \<and> c = 0 \<and> d = 0"
| "is_unspecified (V6 n) \<longleftrightarrow> n = 0"

fun is_loopback :: "ip_addr \<Rightarrow> bool" where
  "is_loopback (V4 a _ _ _) \<longleftrightarrow> a = 127"
| "is_loopback (V6 n) \<longleftrightarrow> n = 1"

record socket_addr =
  sa_ip :: ip_addr
  sa_port :: nat

datatype mode = Lab | Production
datatype delivery_mode = Disabled | Relay

record listeners =
  l_smtp :: socket_addr
  l_submissions :: socket_addr
  l_submission :: socket_addr

record tls =
  certificate_file :: string
  private_key_file :: string
  minimum_version :: string
  handshake_timeout_seconds :: nat

record limits =
  connections :: nat
  connections_per_ip :: nat
  tls_handshakes :: nat
  message_bytes :: nat
  header_bytes :: nat
  recipients_per_message :: nat
  ingest_concurrency :: nat
  stream_buffer_bytes :: nat
  disk_reserve_bytes :: nat
  disk_reserve_percent :: nat
  temporary_reserved_bytes :: nat

record timeouts =
  smtp_command_seconds :: nat
  data_idle_seconds :: nat
  data_total_seconds :: nat
  submission_unauthenticated_seconds :: nat
  shutdown_grace_seconds :: nat

record store_section =
  writer_queue :: nat
  writer_cache_kib :: nat

record authentication =
  argon2_memory_kib :: nat
  argon2_iterations :: nat
  argon2_lanes :: nat
  auth_concurrency :: nat
  waiting_requests :: nat
  queue_timeout_seconds :: nat

record delivery =
  d_mode :: delivery_mode
  d_concurrency :: nat
  per_domain_concurrency :: nat
  batch_size :: nat
  retry_seconds :: "nat list"
  retry_jitter_percent :: nat
  max_age_seconds :: nat
  connect_timeout_seconds :: nat
  banner_timeout_seconds :: nat
  command_timeout_seconds :: nat
  data_command_timeout_seconds :: nat
  data_write_timeout_seconds :: nat
  final_reply_timeout_seconds :: nat

record relay =
  relay_host :: string
  relay_port :: nat
  relay_tls :: string
  relay_username :: string
  relay_password_file :: string
  relay_ca_file :: "string option"

record config =
  c_mode :: mode
  hostname :: string
  local_domains :: "string list"
  data_dir :: string
  admin_socket :: string
  c_listeners :: listeners
  c_tls :: tls
  c_limits :: limits
  c_timeouts :: timeouts
  c_store :: store_section
  c_authentication :: authentication
  c_delivery :: delivery
  c_relay :: relay

text \<open>A refused configuration reports the reason of the first failing check.\<close>

definition require :: "bool \<Rightarrow> string \<Rightarrow> string + unit" where
  "require condition reason = (if condition then Ok () else Err reason)"

fun require_all :: "(bool \<times> string) list \<Rightarrow> string + unit" where
  "require_all [] = Ok ()"
| "require_all ((c, reason) # cs) = rbind (require c reason) (\<lambda>_. require_all cs)"

definition overlaps :: "socket_addr \<Rightarrow> socket_addr \<Rightarrow> bool" where
  "overlaps a b \<longleftrightarrow> sa_port a = sa_port b
     \<and> (sa_ip a = sa_ip b \<or> is_unspecified (sa_ip a) \<or> is_unspecified (sa_ip b))"

fun listener_checks :: "socket_addr list \<Rightarrow> (bool \<times> string) list" where
  "listener_checks [] = []"
| "listener_checks (a # rest) =
     (sa_port a \<noteq> 0, ''listener port must not be zero'')
     # map (\<lambda>b. (\<not> overlaps a b, ''listener addresses overlap'')) rest @ listener_checks rest"

definition listener_list :: "config \<Rightarrow> socket_addr list" where
  "listener_list c = [l_smtp (c_listeners c), l_submissions (c_listeners c), l_submission (c_listeners c)]"

definition name_checks :: "config \<Rightarrow> (bool \<times> string) list" where
  "name_checks c =
     (let domains = map to_ascii_lowercase (local_domains c) in
      [(valid_domain (hostname c), ''hostname must be a DNS name''),
       (local_domains c \<noteq> [] \<and> length (local_domains c) \<le> 100, ''local_domains must contain 1..100 domains''),
       (card (set domains) = length (local_domains c) \<and> list_all valid_domain domains,
        ''local_domains contains duplicates or invalid names'')])
     @ map (\<lambda>path. (path \<noteq> [], ''configured paths must not be empty''))
         [data_dir c, admin_socket c, certificate_file (c_tls c), private_key_file (c_tls c),
          relay_password_file (c_relay c)]
     @ listener_checks (listener_list c)
     @ [(minimum_version (c_tls c) \<in> {''1.2'', ''1.3''}, ''tls.minimum_version must be 1.2 or 1.3'')]"

definition limit_checks :: "limits \<Rightarrow> (bool \<times> string) list" where
  "limit_checks l =
     (1 \<le> connections l \<and> connections l \<le> 4096, ''limits.connections must be 1..4096'')
     # map (\<lambda>n. (n > 0 \<and> n \<le> connections l, ''connection sub-limits must be positive and <= connections''))
         [connections_per_ip l, tls_handshakes l, ingest_concurrency l]
     @ [(1024 \<le> message_bytes l \<and> message_bytes l \<le> 25 * 1024 * 1024,
         ''limits.message_bytes must be 1 KiB..25 MiB''),
        (header_bytes l \<ge> 1024 \<and> header_bytes l \<le> message_bytes l,
         ''limits.header_bytes must be 1 KiB..message_bytes''),
        (1 \<le> recipients_per_message l \<and> recipients_per_message l \<le> 100,
         ''limits.recipients_per_message must be 1..100''),
        (1024 \<le> stream_buffer_bytes l \<and> stream_buffer_bytes l \<le> 64 * 1024,
         ''limits.stream_buffer_bytes must be 1..64 KiB''),
        (disk_reserve_percent l > 0 \<and> disk_reserve_percent l < 100, ''disk_reserve_percent must be 1..99''),
        (disk_reserve_bytes l > 0
           \<and> temporary_reserved_bytes l \<ge> message_bytes l + LOCAL_DELIVERY_OVERHEAD_BYTES
           \<and> int (temporary_reserved_bytes l) \<le> i64_max, ''invalid disk reservation limits'')]"

definition durations :: "config \<Rightarrow> nat list" where
  "durations c =
     (let t = c_timeouts c; d = c_delivery c in
      [smtp_command_seconds t, data_idle_seconds t, data_total_seconds t,
       submission_unauthenticated_seconds t, shutdown_grace_seconds t,
       handshake_timeout_seconds (c_tls c), queue_timeout_seconds (c_authentication c),
       connect_timeout_seconds d, banner_timeout_seconds d, command_timeout_seconds d,
       data_command_timeout_seconds d, data_write_timeout_seconds d, final_reply_timeout_seconds d])"

definition service_checks :: "config \<Rightarrow> (bool \<times> string) list" where
  "service_checks c =
     (let t = c_timeouts c; a = c_authentication c in
      [(list_all (\<lambda>v. 1 \<le> v \<and> v \<le> 86400) (durations c), ''timeouts must be 1..86400 seconds''),
       (data_total_seconds t \<ge> data_idle_seconds t,
        ''total transfer deadline cannot be shorter than idle deadline''),
       (1 \<le> writer_queue (c_store c) \<and> writer_queue (c_store c) \<le> 1024, ''invalid database queue budget''),
       (128 \<le> writer_cache_kib (c_store c) \<and> writer_cache_kib (c_store c) \<le> 65536,
        ''database cache must be 128..65536 KiB''),
       (65536 \<le> argon2_memory_kib a \<and> argon2_memory_kib a \<le> 1048576
          \<and> 3 \<le> argon2_iterations a \<and> argon2_iterations a \<le> 10
          \<and> 1 \<le> argon2_lanes a \<and> argon2_lanes a \<le> 16, ''invalid Argon2 memory/iteration/lane budget''),
       (1 \<le> auth_concurrency a \<and> auth_concurrency a \<le> 2
          \<and> 1 \<le> waiting_requests a \<and> waiting_requests a \<le> 64,
        ''invalid authentication concurrency/queue budget''),
       (argon2_memory_kib a * auth_concurrency a \<le> 256 * 1024,
        ''combined Argon2 working memory must not exceed 256 MiB in this release'')])"

text \<open>\<open>windows(2)\<close>: every element against its successor.\<close>

fun nondecreasing :: "nat list \<Rightarrow> bool" where
  "nondecreasing (a # b # xs) \<longleftrightarrow> a \<le> b \<and> nondecreasing (b # xs)"
| "nondecreasing _ \<longleftrightarrow> True"

definition delivery_checks :: "config \<Rightarrow> (bool \<times> string) list" where
  "delivery_checks c =
     (let d = c_delivery c; r = c_relay c in
      [(1 \<le> d_concurrency d \<and> d_concurrency d \<le> 128 \<and> per_domain_concurrency d > 0
          \<and> per_domain_concurrency d \<le> d_concurrency d \<and> 1 \<le> batch_size d \<and> batch_size d \<le> 128,
        ''invalid delivery concurrency/batch''),
       (retry_seconds d \<noteq> [] \<and> length (retry_seconds d) \<le> 32
          \<and> list_all (\<lambda>v. 1800 \<le> v \<and> v \<le> 86400) (retry_seconds d) \<and> nondecreasing (retry_seconds d),
        ''retry_seconds must be a nondecreasing schedule of 1800..86400 seconds''),
       (retry_jitter_percent d \<le> 50 \<and> 432000 \<le> max_age_seconds d \<and> max_age_seconds d \<le> 604800,
        ''invalid delivery jitter/max_age''),
       (valid_domain (relay_host r) \<and> relay_port r \<noteq> 0 \<and> relay_tls r \<in> {''implicit'', ''starttls''},
        ''invalid relay host/port/TLS mode''),
       (c_mode c = Lab, ''production mode is not implemented''),
       (list_all (\<lambda>a. is_loopback (sa_ip a)) (listener_list c), ''lab listeners must bind loopback'')])"

definition validate :: "config \<Rightarrow> string + unit" where
  "validate c = require_all (name_checks c @ limit_checks (c_limits c) @ service_checks c @ delivery_checks c)"

definition require_lab_receiver :: "config \<Rightarrow> string + unit" where
  "require_lab_receiver c = rbind (validate c) (\<lambda>_.
     require (d_mode (c_delivery c) = Disabled) ''use serve --mode lab-relay to enable fixed-upstream delivery'')"

definition require_lab_relay :: "config \<Rightarrow> string + unit" where
  "require_lab_relay c = rbind (validate c) (\<lambda>_.
     require (d_mode (c_delivery c) = Relay \<and> relay_ca_file (c_relay c) \<noteq> None)
       ''relay laboratory requires delivery.mode=relay and relay.ca_file'')"

section \<open>Derived settings\<close>

definition store_options_of :: "config \<Rightarrow> store_options" where
  "store_options_of c =
     \<lparr>opt_max_message_bytes = message_bytes (c_limits c) + LOCAL_DELIVERY_OVERHEAD_BYTES,
      opt_stream_buffer_bytes = stream_buffer_bytes (c_limits c),
      opt_disk_reserve_bytes = disk_reserve_bytes (c_limits c),
      opt_disk_reserve_percent = disk_reserve_percent (c_limits c),
      opt_temporary_reserved_bytes = temporary_reserved_bytes (c_limits c),
      opt_cache_kib = writer_cache_kib (c_store c)\<rparr>"

text \<open>The arguments \<open>Store::open_inner\<close> accepts.\<close>

definition open_arguments :: "store_options \<Rightarrow> store_error + unit" where
  "open_arguments o' =
     (if opt_max_message_bytes o' = 0
        \<or> opt_max_message_bytes o' > 25 * 1024 * 1024 + LOCAL_DELIVERY_OVERHEAD_BYTES
        \<or> \<not> (1024 \<le> opt_stream_buffer_bytes o' \<and> opt_stream_buffer_bytes o' \<le> 65536)
        \<or> opt_disk_reserve_percent o' \<ge> 100
        \<or> opt_cache_kib o' > 65536
        \<or> opt_temporary_reserved_bytes o' < opt_max_message_bytes o'
      then Err InvalidInput else Ok ())"

definition ingest_slots :: "config \<Rightarrow> nat" where
  "ingest_slots c =
     min (temporary_reserved_bytes (c_limits c) div opt_max_message_bytes (store_options_of c))
       (ingest_concurrency (c_limits c))"

datatype security = Implicit | Starttls

record client_timeouts =
  ct_connect :: nat
  ct_banner :: nat
  ct_command :: nat
  ct_data_command :: nat
  ct_data_write :: nat
  ct_final_reply :: nat
  ct_handshake :: nat
  ct_data_total :: nat

record smtp_settings =
  ss_host :: string
  ss_port :: nat
  ss_security :: security
  ss_ehlo :: string
  ss_ca_file :: string
  ss_username :: string
  ss_password_file :: string
  ss_minimum_tls_version :: string
  ss_buffer_bytes :: nat
  ss_timeouts :: client_timeouts

definition smtp_settings_validate :: "smtp_settings \<Rightarrow> io_error + unit" where
  "smtp_settings_validate s =
     (let t = ss_timeouts s in
      if \<not> valid_domain (ss_host s) \<or> \<not> valid_domain (ss_ehlo s) \<or> ss_port s = 0 \<or> ss_ca_file s = []
       \<or> ss_minimum_tls_version s \<notin> {''1.2'', ''1.3''}
       \<or> \<not> (1024 \<le> ss_buffer_bytes s \<and> ss_buffer_bytes s \<le> 65536)
       \<or> length (ss_username s) > 256 \<or> list_ex is_ascii_control (ss_username s)
       \<or> (ss_username s = []) \<noteq> (ss_password_file s = [])
       \<or> list_ex (\<lambda>v. \<not> (1 \<le> v \<and> v \<le> 86400))
           [ct_connect t, ct_banner t, ct_command t, ct_data_command t, ct_data_write t, ct_final_reply t,
            ct_handshake t, ct_data_total t]
      then Err OtherIo else Ok ())"

definition settings :: "config \<Rightarrow> smtp_settings" where
  "settings c =
     (let d = c_delivery c; r = c_relay c in
      \<lparr>ss_host = relay_host r, ss_port = relay_port r,
       ss_security = (if relay_tls r = ''starttls'' then Starttls else Implicit),
       ss_ehlo = hostname c,
       ss_ca_file = (case relay_ca_file r of None \<Rightarrow> [] | Some f \<Rightarrow> f),
       ss_username = relay_username r,
       ss_password_file = (if relay_username r = [] then [] else relay_password_file r),
       ss_minimum_tls_version = minimum_version (c_tls c),
       ss_buffer_bytes = stream_buffer_bytes (c_limits c),
       ss_timeouts = \<lparr>ct_connect = connect_timeout_seconds d, ct_banner = banner_timeout_seconds d,
          ct_command = command_timeout_seconds d, ct_data_command = data_command_timeout_seconds d,
          ct_data_write = data_write_timeout_seconds d, ct_final_reply = final_reply_timeout_seconds d,
          ct_handshake = handshake_timeout_seconds (c_tls c),
          ct_data_total = data_total_seconds (c_timeouts c)\<rparr>\<rparr>)"

record input_limits =
  in_message_bytes :: nat
  in_header_bytes :: nat

definition default_input_limits :: input_limits where
  "default_input_limits = \<lparr>in_message_bytes = 25 * 1024 * 1024, in_header_bytes = 65536\<rparr>"

definition input_limits_validate :: "input_limits \<Rightarrow> io_error + unit" where
  "input_limits_validate l =
     (if \<not> (1024 \<le> in_message_bytes l \<and> in_message_bytes l \<le> 25 * 1024 * 1024)
        \<or> in_header_bytes l = 0 \<or> in_header_bytes l > in_message_bytes l
      then Err OtherIo else Ok ())"

section \<open>What a valid configuration guarantees\<close>

lemma require_all_Ok: "require_all cs = Ok u \<longleftrightarrow> (\<forall>c\<in>set cs. fst c)"
  by (induction cs rule: require_all.induct) (auto simp: require_def res_simps)

lemma validate_Ok:
  "validate c = Ok () \<longleftrightarrow>
     (\<forall>x\<in>set (name_checks c). fst x) \<and> (\<forall>x\<in>set (limit_checks (c_limits c)). fst x)
   \<and> (\<forall>x\<in>set (service_checks c). fst x) \<and> (\<forall>x\<in>set (delivery_checks c). fst x)"
  by (auto simp: validate_def require_all_Ok)

lemma require_all_first:
  "require_all cs = Err e \<longleftrightarrow> (\<exists>pre post. cs = pre @ (False, e) # post \<and> (\<forall>c\<in>set pre. fst c))"
proof (induction cs)
  case (Cons c cs)
  obtain b r where c: "c = (b, r)" by fastforce
  show ?case
  proof (cases b)
    case True
    have "(\<exists>pre post. cs = pre @ (False, e) # post \<and> (\<forall>c\<in>set pre. fst c)) \<longleftrightarrow>
      (\<exists>pre post. c # cs = pre @ (False, e) # post \<and> (\<forall>c\<in>set pre. fst c))" (is "?l \<longleftrightarrow> ?r")
    proof
      assume ?l
      then obtain pre post where "cs = pre @ (False, e) # post" "\<forall>c\<in>set pre. fst c" by blast
      then show ?r using c True by (intro exI [of _ "c # pre"] exI [of _ post]) simp
    next
      assume ?r
      then obtain pre post where "c # cs = pre @ (False, e) # post" "\<forall>c\<in>set pre. fst c" by blast
      then show ?l using c True by (cases pre) auto
    qed
    with Cons c True show ?thesis by (simp add: require_def)
  next
    case False
    with c show ?thesis by (auto simp: require_def Cons_eq_append_conv)
  qed
qed simp

lemma card_map_distinct: "card (set (map f xs)) = length xs \<longleftrightarrow> distinct (map f xs)"
  by (metis card_distinct distinct_card length_map)


definition sample_config :: config where
  "sample_config =
     (let a = \<lambda>p. \<lparr>sa_ip = V4 127 0 0 1, sa_port = p\<rparr> in
      \<lparr>c_mode = Lab, hostname = ''mail.test'', local_domains = [''b.test''], data_dir = ''d'', admin_socket = ''s'',
       c_listeners = \<lparr>l_smtp = a 2525, l_submissions = a 2465, l_submission = a 2587\<rparr>,
       c_tls = \<lparr>certificate_file = ''c'', private_key_file = ''k'', minimum_version = ''1.2'', handshake_timeout_seconds = 10\<rparr>,
       c_limits = \<lparr>connections = 8, connections_per_ip = 4, tls_handshakes = 4, message_bytes = 4096, header_bytes = 1024,
         recipients_per_message = 10, ingest_concurrency = 2, stream_buffer_bytes = 1024, disk_reserve_bytes = 1,
         disk_reserve_percent = 10, temporary_reserved_bytes = 65536\<rparr>,
       c_timeouts = \<lparr>smtp_command_seconds = 60, data_idle_seconds = 60, data_total_seconds = 600,
         submission_unauthenticated_seconds = 60, shutdown_grace_seconds = 10\<rparr>,
       c_store = \<lparr>writer_queue = 16, writer_cache_kib = 1024\<rparr>,
       c_authentication = \<lparr>argon2_memory_kib = 65536, argon2_iterations = 3, argon2_lanes = 1, auth_concurrency = 1,
         waiting_requests = 8, queue_timeout_seconds = 5\<rparr>,
       c_delivery = \<lparr>d_mode = Relay, d_concurrency = 4, per_domain_concurrency = 2, batch_size = 16,
         retry_seconds = [1800, 3600], retry_jitter_percent = 20, max_age_seconds = 432000, connect_timeout_seconds = 30,
         banner_timeout_seconds = 30, command_timeout_seconds = 30, data_command_timeout_seconds = 30,
         data_write_timeout_seconds = 30, final_reply_timeout_seconds = 60\<rparr>,
       c_relay = \<lparr>relay_host = ''up.test'', relay_port = 465, relay_tls = ''implicit'', relay_username = [],
         relay_password_file = ''p'', relay_ca_file = Some ''ca''\<rparr>\<rparr>)"

lemma sample_domains: "valid_domain ''mail.test'' \<and> valid_domain ''b.test'' \<and> valid_domain ''up.test'' \<and> to_ascii_lowercase ''b.test'' = ''b.test''"
  by code_simp

lemma sample_config_valid: "validate sample_config = Ok ()"
  using sample_domains
  by (auto simp: validate_Ok sample_config_def name_checks_def limit_checks_def service_checks_def delivery_checks_def
      durations_def listener_list_def overlaps_def LOCAL_DELIVERY_OVERHEAD_BYTES_def i64_max_def Let_def)


end
