(* ===== verification/Staging.thy ===== *)
theory Staging
  imports Storage_Runtime
begin

text \<open>
  Message files, \<open>crates/store/src/blob.rs\<close> and \<open>crates/store/src/verified.rs\<close>: \<open>StagedMessage\<close>
  (\<open>create\<close>, \<open>append\<close>, \<open>prepare\<close>), the resources a stage owns and what dropping them does, and
  \<open>VerifiedReader\<close>. The two directories of message files and the counter of reserved bytes are the
  \<open>disk\<close> record. The operating system decides which calls fail: a write takes the next element
  of a script (\<open>None\<close> success, \<open>Some k\<close> failure after k bytes), the other calls fail where a
  predicate says so. SHA-256 is a parameter; a running hash is the bytes it has absorbed.
\<close>

section \<open>Model of staging\<close>

record disk =
  staging :: "string \<rightharpoonup> bytes"
  blobs :: "string \<rightharpoonup> bytes"
  reserved :: nat

definition valid_id :: "string \<Rightarrow> bool" where
  "valid_id i \<longleftrightarrow> length i = 32 \<and> list_all (\<lambda>b. is_ascii_digit b \<or> (97 \<le> code b \<and> code b \<le> 102)) i"

text \<open>The file name below the blob directory.\<close>

definition blob_path :: "string \<Rightarrow> store_error + string" where
  "blob_path i = (if \<not> valid_id i then Err InvalidId else Ok (i @ ''.eml''))"

record staged =
  st_id :: string
  st_open :: bool
  st_staged :: bool
  st_reservation :: nat
  st_buffer :: bytes
  st_buffer_limit :: nat
  st_hash :: bytes
  st_size :: nat
  st_max_size :: nat
  st_poisoned :: bool

record prepared =
  pr_id :: string
  pr_size :: nat
  pr_hash :: string
  pr_reservation :: nat

definition release :: "nat \<Rightarrow> disk \<Rightarrow> disk" where
  "release n d = d\<lparr>reserved := reserved d - n\<rparr>"

text \<open>\<open>Drop for StageResources\<close> once its cleanup has run: an open or still staged file is closed and
  its staging name removed if the unlink succeeds; the reservation ends in every case.\<close>

definition drop_resources :: "bool \<Rightarrow> staged \<Rightarrow> disk \<Rightarrow> disk" where
  "drop_resources unlinks s d =
     release (st_reservation s)
       (if st_staged s \<and> unlinks then d\<lparr>staging := (staging d)(st_id s := None)\<rparr> else d)"

definition create_stage ::
  "(fault_point \<Rightarrow> bool) \<Rightarrow> nat \<Rightarrow> nat \<Rightarrow> store_options \<Rightarrow> string \<Rightarrow> disk \<Rightarrow> (store_error + staged) \<times> disk" where
  "create_stage hook tot available opts i d =
     (let percent = tot * opt_disk_reserve_percent opts div 100 in
      case checked_add_u64 (reserved d) (opt_max_message_bytes opts) of
        None \<Rightarrow> (Err DiskReserve, d)
      | Some nxt \<Rightarrow>
          if nxt > opt_temporary_reserved_bytes opts then (Err DiskReserve, d)
          else (case checked_add_u64 (max (opt_disk_reserve_bytes opts) percent) nxt of
            None \<Rightarrow> (Err SizeLimit, d)
          | Some required \<Rightarrow>
              if available < required then (Err DiskReserve, d)
              else let d1 = d\<lparr>reserved := nxt\<rparr> in
                (case hit hook StageCreate of
                   Err e \<Rightarrow> (Err e, release (opt_max_message_bytes opts) d1)
                 | Ok _ \<Rightarrow>
                     if staging d1 i \<noteq> None then (Err (Io OtherIo), release (opt_max_message_bytes opts) d1)
                     else (Ok \<lparr>st_id = i, st_open = True, st_staged = True,
                                st_reservation = opt_max_message_bytes opts, st_buffer = [],
                                st_buffer_limit = opt_stream_buffer_bytes opts, st_hash = [], st_size = 0,
                                st_max_size = opt_max_message_bytes opts, st_poisoned = False\<rparr>,
                           d1\<lparr>staging := (staging d1)(i \<mapsto> [])\<rparr>))))"

type_synonym write_script = "nat option list"

text \<open>\<open>write_all\<close> on the stage's file: the file after the call, whether it succeeded, and the rest of
  the script.\<close>

definition write_all :: "write_script \<Rightarrow> bytes \<Rightarrow> bytes \<Rightarrow> bool \<times> bytes \<times> write_script" where
  "write_all ws contents b =
     (case ws of
        [] \<Rightarrow> (True, contents @ b, [])
      | None # ws' \<Rightarrow> (True, contents @ b, ws')
      | Some k # ws' \<Rightarrow> (False, contents @ take k b, ws'))"

text \<open>The loop of \<open>append\<close>: fill the buffer, write it out whenever it is full. It would not end with
  a buffer of size zero, which \<open>Store::open\<close> refuses.\<close>

partial_function (option) append_loop ::
  "nat \<Rightarrow> write_script \<Rightarrow> bytes \<Rightarrow> bytes \<Rightarrow> bytes \<Rightarrow> (bool \<times> write_script \<times> bytes \<times> bytes) option" where
  "append_loop lim ws contents buf remaining =
     (if remaining = [] then Some (True, ws, contents, buf)
      else let count = min (length remaining) (lim - length buf);
               buf' = buf @ take count remaining;
               rest = drop count remaining
           in if length buf' = lim
              then (case write_all ws contents buf' of
                      (ok, contents', ws') \<Rightarrow>
                        if ok then append_loop lim ws' contents' [] rest else Some (False, ws', contents', []))
              else append_loop lim ws contents buf' rest)"

definition stage_file :: "disk \<Rightarrow> staged \<Rightarrow> bytes" where
  "stage_file d s = (case staging d (st_id s) of None \<Rightarrow> [] | Some f \<Rightarrow> f)"

definition append_stage ::
  "(fault_point \<Rightarrow> bool) \<Rightarrow> write_script \<Rightarrow> staged \<Rightarrow> disk \<Rightarrow> bytes \<Rightarrow>
     ((store_error + unit) \<times> staged \<times> disk \<times> write_script) option" where
  "append_stage hook ws s d bs =
     (if st_poisoned s then Some (Err PoisonedStage, s, d, ws)
      else case checked_add_u64 (st_size s) (length bs) of
        None \<Rightarrow> Some (Err SizeLimit, s\<lparr>st_poisoned := True\<rparr>, d, ws)
      | Some n \<Rightarrow>
          if n > st_max_size s then Some (Err SizeLimit, s\<lparr>st_poisoned := True\<rparr>, d, ws)
          else let s1 = s\<lparr>st_poisoned := True\<rparr> in
            (case hit hook Append of
               Err e \<Rightarrow> Some (Err e, s1, d, ws)
             | Ok _ \<Rightarrow>
                (case append_loop (st_buffer_limit s) ws (stage_file d s) (st_buffer s) bs of
                   None \<Rightarrow> None
                 | Some (False, ws', contents, _) \<Rightarrow>
                     Some (Err (Io OtherIo), s1\<lparr>st_buffer := []\<rparr>,
                           d\<lparr>staging := (staging d)(st_id s \<mapsto> contents)\<rparr>, ws')
                 | Some (True, ws', contents, buf) \<Rightarrow>
                     Some (Ok (), s1\<lparr>st_buffer := buf, st_hash := st_hash s @ bs, st_size := n,
                                     st_poisoned := False\<rparr>,
                           d\<lparr>staging := (staging d)(st_id s \<mapsto> contents)\<rparr>, ws'))))"

datatype disk_call = SyncAll | RenameCall | SyncBlobs | SyncStaging

definition call :: "(disk_call \<Rightarrow> bool) \<Rightarrow> disk_call \<Rightarrow> store_error + unit" where
  "call fails c = (if fails c then Err (Io OtherIo) else Ok ())"

text \<open>The part of \<open>prepare\<close> before the rename, and the part from the rename on. The disk and the
  stage are those at the point where the call returned; dropping the stage is separate.\<close>

definition prepare_file ::
  "(fault_point \<Rightarrow> bool) \<Rightarrow> (disk_call \<Rightarrow> bool) \<Rightarrow> write_script \<Rightarrow> staged \<Rightarrow> disk \<Rightarrow>
     (store_error + unit) \<times> staged \<times> disk" where
  "prepare_file hook fails ws s d =
     (case hit hook Flush of
        Err e \<Rightarrow> (Err e, s, d)
      | Ok _ \<Rightarrow>
          let (ok, contents, _) = write_all ws (stage_file d s) (st_buffer s);
              d1 = d\<lparr>staging := (staging d)(st_id s \<mapsto> contents)\<rparr>
          in if \<not> ok then (Err (Io OtherIo), s, d1)
             else case rbind (hit hook FileSync) (\<lambda>_. call fails SyncAll) of
               Err e \<Rightarrow> (Err e, s, d1)
             | Ok _ \<Rightarrow>
                 let s1 = s\<lparr>st_open := False\<rparr> in
                 (case rbind (hit hook FileSynced) (\<lambda>_. blob_path (st_id s)) of
                    Err e \<Rightarrow> (Err e, s1, d1)
                  | Ok _ \<Rightarrow> if blobs d1 (st_id s) \<noteq> None then (Err InvalidId, s1, d1) else (Ok (), s1, d1)))"

definition prepare_name ::
  "(fault_point \<Rightarrow> bool) \<Rightarrow> (disk_call \<Rightarrow> bool) \<Rightarrow> staged \<Rightarrow> disk \<Rightarrow>
     (store_error + unit) \<times> staged \<times> disk" where
  "prepare_name hook fails s d =
     (case rbind (hit hook Rename) (\<lambda>_. call fails RenameCall) of
        Err e \<Rightarrow> (Err e, s, d)
      | Ok _ \<Rightarrow>
          (rbind (hit hook Renamed) (\<lambda>_. rbind (hit hook BlobDirectorySync) (\<lambda>_.
           rbind (call fails SyncBlobs) (\<lambda>_. rbind (hit hook StagingDirectorySync) (\<lambda>_.
           rbind (call fails SyncStaging) (\<lambda>_. hit hook DirectoriesSynced))))),
           s\<lparr>st_staged := False\<rparr>,
           d\<lparr>staging := (staging d)(st_id s := None), blobs := (blobs d)(st_id s \<mapsto> stage_file d s)\<rparr>))"

definition prepare_stage ::
  "(bytes \<Rightarrow> string) \<Rightarrow> (fault_point \<Rightarrow> bool) \<Rightarrow> (disk_call \<Rightarrow> bool) \<Rightarrow> write_script \<Rightarrow> staged \<Rightarrow> disk \<Rightarrow>
     (store_error + prepared) \<times> staged \<times> disk" where
  "prepare_stage sha256 hook fails ws s d =
     (if st_poisoned s \<or> \<not> st_open s then (Err PoisonedStage, s, d)
      else case prepare_file hook fails ws s d of
        (Err e, s1, d1) \<Rightarrow> (Err e, s1, d1)
      | (Ok _, s1, d1) \<Rightarrow>
         (case prepare_name hook fails s1 d1 of
            (Err e, s2, d2) \<Rightarrow> (Err e, s2, d2)
          | (Ok _, s2, d2) \<Rightarrow>
              (Ok \<lparr>pr_id = st_id s, pr_size = st_size s, pr_hash = sha256 (st_hash s),
                   pr_reservation = st_reservation s\<rparr>, s2, d2)))"

section \<open>The stage invariant\<close>

text \<open>While a stage is not poisoned, its file followed by its buffer is what was appended, and
  that is what its size and hash describe.\<close>

definition stage_inv :: "disk \<Rightarrow> staged \<Rightarrow> bytes \<Rightarrow> bool" where
  "stage_inv d s content \<longleftrightarrow>
     st_open s \<and> st_staged s \<and> \<not> st_poisoned s \<and> staging d (st_id s) \<noteq> None
   \<and> stage_file d s @ st_buffer s = content \<and> st_hash s = content \<and> st_size s = length content
   \<and> st_size s \<le> st_max_size s \<and> length (st_buffer s) < st_buffer_limit s"

lemma create_stage_inv:
  assumes "create_stage hook tot available opts i d = (Ok s, d')" "0 < opt_stream_buffer_bytes opts"
  shows "stage_inv d' s [] \<and> st_id s = i \<and> st_max_size s = opt_max_message_bytes opts
    \<and> reserved d' = reserved d + st_reservation s \<and> reserved d' \<le> opt_temporary_reserved_bytes opts
    \<and> blobs d' = blobs d"
  using assms
  by (auto simp: create_stage_def Let_def stage_inv_def stage_file_def res_simps
      split: option.splits if_splits sum.splits)

lemma create_stage_refused:
  assumes "create_stage hook tot available opts i d = (Err e, d')"
  shows "d' = d"
  using assms
  by (auto simp: create_stage_def Let_def release_def res_simps
      split: option.splits if_splits sum.splits)

text \<open>The loop returns whenever the buffer has room, and what it does is to append.\<close>

lemma append_loop_returns:
  assumes "length buf < lim"
  shows "\<exists>ok ws' contents' buf'. append_loop lim ws contents buf remaining = Some (ok, ws', contents', buf')
    \<and> (ok \<longrightarrow> contents' @ buf' = contents @ buf @ remaining \<and> length buf' < lim)
    \<and> (set ws \<subseteq> {None} \<longrightarrow> ok \<and> set ws' \<subseteq> {None})"
  using assms
proof (induction "length remaining" arbitrary: ws contents buf remaining rule: less_induct)
  case less
  show ?case
  proof (cases "remaining = []")
    case True
    then show ?thesis using less.prems by (subst append_loop.simps) auto
  next
    case False
    define count where "count = min (length remaining) (lim - length buf)"
    have pos: "0 < count" using False less.prems by (simp add: count_def)
    have shorter: "length (drop count remaining) < length remaining" using pos False by simp
    show ?thesis
    proof (cases "length (buf @ take count remaining) = lim")
      case True
      obtain ok contents1 ws1 where w: "write_all ws contents (buf @ take count remaining) = (ok, contents1, ws1)"
        by (metis prod_cases3)
      have step: "append_loop lim ws contents buf remaining =
          (if ok then append_loop lim ws1 contents1 [] (drop count remaining) else Some (False, ws1, contents1, []))"
        using False True w by (subst append_loop.simps) (simp add: Let_def count_def [symmetric])
      have quiet: "set ws \<subseteq> {None} \<longrightarrow> ok \<and> set ws1 \<subseteq> {None}"
        using w by (cases ws) (auto simp: write_all_def split: option.splits)
      show ?thesis
      proof (cases ok)
        case True
        then have c1: "contents1 = contents @ buf @ take count remaining"
          using w by (auto simp: write_all_def split: list.splits option.splits)
        have "length ([] :: bytes) < lim" using less.prems by simp
        from less.hyps [OF shorter this, of ws1 contents1] obtain ok2 ws2 c2 buf2 where
          "append_loop lim ws1 contents1 [] (drop count remaining) = Some (ok2, ws2, c2, buf2)"
          "ok2 \<longrightarrow> c2 @ buf2 = contents1 @ [] @ drop count remaining \<and> length buf2 < lim"
          "set ws1 \<subseteq> {None} \<longrightarrow> ok2 \<and> set ws2 \<subseteq> {None}"
          by blast
        then show ?thesis
          using step True quiet c1 by (intro exI [of _ ok2] exI [of _ ws2] exI [of _ c2] exI [of _ buf2]) simp
      qed (use quiet in \<open>auto simp: step\<close>)
    next
      case notfull: False
      then have room: "length (buf @ take count remaining) < lim"
        using less.prems by (auto simp: count_def)
      moreover have "append_loop lim ws contents buf remaining =
          append_loop lim ws contents (buf @ take count remaining) (drop count remaining)"
        using False notfull by (subst append_loop.simps) (simp add: Let_def count_def [symmetric])
      moreover from less.hyps [OF shorter room, of ws contents] obtain ok2 ws2 c2 buf2 where
        "append_loop lim ws contents (buf @ take count remaining) (drop count remaining) = Some (ok2, ws2, c2, buf2)"
        "ok2 \<longrightarrow> c2 @ buf2 = contents @ (buf @ take count remaining) @ drop count remaining \<and> length buf2 < lim"
        "set ws \<subseteq> {None} \<longrightarrow> ok2 \<and> set ws2 \<subseteq> {None}"
        by blast
      ultimately show ?thesis
        by (intro exI [of _ ok2] exI [of _ ws2] exI [of _ c2] exI [of _ buf2]) simp
    qed
  qed
qed

lemma append_stage_returns:
  assumes "stage_inv d s content"
  shows "\<exists>r s' d' ws'. append_stage hook ws s d bs = Some (r, s', d', ws')
    \<and> (case r of Ok _ \<Rightarrow> stage_inv d' s' (content @ bs) | Err _ \<Rightarrow> st_poisoned s')
    \<and> st_id s' = st_id s \<and> st_max_size s' = st_max_size s \<and> st_reservation s' = st_reservation s
    \<and> st_staged s' = st_staged s \<and> blobs d' = blobs d \<and> reserved d' = reserved d
    \<and> (\<forall>i. i \<noteq> st_id s \<longrightarrow> staging d' i = staging d i)"
proof -
  have "length (st_buffer s) < st_buffer_limit s" using assms by (simp add: stage_inv_def)
  from append_loop_returns [OF this, of ws "stage_file d s" bs] obtain ok ws' contents buf where
    l: "append_loop (st_buffer_limit s) ws (stage_file d s) (st_buffer s) bs = Some (ok, ws', contents, buf)"
    "ok \<longrightarrow> contents @ buf = stage_file d s @ st_buffer s @ bs \<and> length buf < st_buffer_limit s" by blast
  show ?thesis
  proof (cases "st_size s + length bs \<le> u64_max \<and> st_size s + length bs \<le> st_max_size s \<and> \<not> hook Append")
    case True
    with l assms show ?thesis
      by (cases ok) (auto simp: append_stage_def stage_inv_def checked_add_u64_def hit_def stage_file_def Let_def)
  next
    case False
    with assms show ?thesis
      by (auto simp: append_stage_def stage_inv_def checked_add_u64_def hit_def Let_def)
  qed
qed

text \<open>When an append inside the limit fails, somebody injected a fault or the disk did.\<close>

lemma append_stage_succeeds:
  assumes "stage_inv d s content" "length content + length bs \<le> st_max_size s"
    "st_max_size s \<le> u64_max" "\<not> hook Append" "set ws \<subseteq> {None}"
  shows "\<exists>s' d' ws'. append_stage hook ws s d bs = Some (Ok (), s', d', ws') \<and> set ws' \<subseteq> {None}"
proof -
  have "length (st_buffer s) < st_buffer_limit s" using assms by (simp add: stage_inv_def)
  from append_loop_returns [OF this, of ws "stage_file d s" bs] assms show ?thesis
    by (auto simp: append_stage_def stage_inv_def checked_add_u64_def hit_def Let_def)
qed

section \<open>Preparing\<close>

lemma prepare_file_cases:
  assumes "stage_inv d s content" "prepare_file hook fails ws s d = (r, s', d')"
  shows "st_id s' = st_id s \<and> st_staged s' \<and> st_reservation s' = st_reservation s
    \<and> blobs d' = blobs d \<and> reserved d' = reserved d
    \<and> (\<forall>i. i \<noteq> st_id s \<longrightarrow> staging d' i = staging d i)
    \<and> (r = Ok () \<longrightarrow> stage_file d' s' = content \<and> blobs d (st_id s) = None \<and> valid_id (st_id s))"
  using assms
  by (auto simp: prepare_file_def stage_inv_def stage_file_def write_all_def Let_def blob_path_def
      res_simps split: sum.splits if_splits list.splits option.splits)

lemma prepare_name_cases:
  assumes "prepare_name hook fails s d = (r, s', d')" "st_staged s" "staging d (st_id s) \<noteq> None"
  shows "st_id s' = st_id s \<and> st_reservation s' = st_reservation s \<and> reserved d' = reserved d
    \<and> (\<forall>i. i \<noteq> st_id s \<longrightarrow> staging d' i = staging d i)
    \<and> (if st_staged s' then r \<noteq> Ok () \<and> d' = d
       else staging d' (st_id s) = None \<and> blobs d' = (blobs d)(st_id s \<mapsto> stage_file d s))"
  using assms by (auto simp: prepare_name_def split: sum.splits)

lemma prepare_file_staging:
  assumes "stage_inv d s content" "prepare_file hook fails ws s d = (r, s', d')"
  shows "staging d' (st_id s) \<noteq> None"
  using assms
  by (auto simp: prepare_file_def stage_inv_def Let_def split: sum.splits if_splits prod.splits)

lemma prepare_stage_result:
  assumes inv: "stage_inv d s content" and p: "prepare_stage sha256 hook fails ws s d = (r, s', d')"
  shows "(blobs d' = blobs d \<or> (blobs d (st_id s) = None \<and> blobs d' = (blobs d)(st_id s \<mapsto> content)))
    \<and> (\<forall>i. i \<noteq> st_id s \<longrightarrow> staging d' i = staging d i)
    \<and> (\<forall>t. r = Ok t \<longrightarrow> blobs d' = (blobs d)(st_id s \<mapsto> content) \<and> staging d' (st_id s) = None
      \<and> blobs d (st_id s) = None \<and> pr_id t = st_id s \<and> valid_id (pr_id t)
      \<and> pr_size t = length content \<and> pr_hash t = sha256 content)"
proof -
  obtain r1 s1 d1 where f: "prepare_file hook fails ws s d = (r1, s1, d1)" by (metis prod_cases3)
  note fc = prepare_file_cases [OF inv f]
  have usable: "\<not> st_poisoned s" "st_open s" "st_size s = length content" "st_hash s = content"
    using inv by (auto simp: stage_inv_def)
  show ?thesis
  proof (cases r1)
    case (Inl e)
    then show ?thesis using p f fc usable by (auto simp: prepare_stage_def)
  next
    case (Inr u)
    obtain r2 s2 d2 where n: "prepare_name hook fails s1 d1 = (r2, s2, d2)" by (metis prod_cases3)
    have "staging d1 (st_id s1) \<noteq> None" using prepare_file_staging [OF inv f] fc by simp
    with prepare_name_cases [OF n] fc have nc: "st_id s2 = st_id s1"
      "\<forall>i. i \<noteq> st_id s \<longrightarrow> staging d2 i = staging d i"
      "if st_staged s2 then r2 \<noteq> Ok () \<and> d2 = d1
       else staging d2 (st_id s) = None \<and> blobs d2 = (blobs d)(st_id s \<mapsto> stage_file d1 s1)"
      by auto
    have "stage_file d1 s1 = content" "blobs d (st_id s) = None" "valid_id (st_id s)" "blobs d1 = blobs d"
      using fc Inr by auto
    then show ?thesis
      using p f n nc Inr usable by (auto simp: prepare_stage_def split: sum.splits if_splits)
  qed
qed

lemma prepare_publishes_result:
  assumes "stage_inv d s content" "prepare_stage sha256 hook fails ws s d = (Ok t, s', d')"
  shows "blobs d' = (blobs d)(st_id s \<mapsto> content) \<and> blobs d (st_id s) = None \<and> pr_id t = st_id s
    \<and> pr_size t = length content \<and> pr_hash t = sha256 content"
  using prepare_stage_result [OF assms] by blast

lemma prepare_stage_succeeds:
  assumes "stage_inv d s content" "hook = (\<lambda>_. False)" "fails = (\<lambda>_. False)" "set ws \<subseteq> {None}"
    "blobs d (st_id s) = None" "valid_id (st_id s)"
  shows "\<exists>t s' d'. prepare_stage sha256 hook fails ws s d = (Ok t, s', d')"
proof -
  obtain ws' where "write_all ws f b = (True, f @ b, ws')" for f b
    using assms(4) by (cases ws) (auto simp: write_all_def)
  with assms show ?thesis
    by (simp add: prepare_stage_def prepare_file_def prepare_name_def stage_inv_def hit_def call_def
        blob_path_def Let_def)
qed



section \<open>Verified reading\<close>

record verified_reader =
  vr_rest :: bytes
  vr_expected_size :: nat
  vr_expected_hash :: string
  vr_read_bytes :: nat
  vr_hash :: bytes
  vr_verified :: bool
  vr_failed :: bool

text \<open>What \<open>VerifiedReader::open\<close> finds at the path: nothing, a symbolic link, something that
  is no regular file, or the bytes of a file.\<close>

datatype path_entry = Missing | Symlink | Special | Regular bytes

definition open_verified :: "path_entry \<Rightarrow> nat \<Rightarrow> string \<Rightarrow> store_error + verified_reader" where
  "open_verified entry size_bytes hash =
     (case entry of
        Symlink \<Rightarrow> Err UnsafePath
      | Missing \<Rightarrow> Err (Io OtherIo)
      | Special \<Rightarrow> Err UnsafePath
      | Regular contents \<Rightarrow>
          Ok \<lparr>vr_rest = contents, vr_expected_size = size_bytes, vr_expected_hash = hash, vr_read_bytes = 0,
              vr_hash = [], vr_verified = False, vr_failed = False\<rparr>)"

text \<open>One \<open>read\<close> into a buffer of \<open>n\<close> bytes, of which the system delivers at most \<open>avail\<close>: the
  bytes delivered, which are none at the end of the file. \<open>avail = None\<close> is a failing system
  call.\<close>

definition read_verified ::
  "(bytes \<Rightarrow> string) \<Rightarrow> verified_reader \<Rightarrow> nat \<Rightarrow> nat option \<Rightarrow> (io_error + bytes) \<times> verified_reader" where
  "read_verified sha256 r n avail =
     (if n = 0 \<or> vr_verified r then (Ok [], r)
      else if vr_failed r then (Err OtherIo, r)
      else case avail of
        None \<Rightarrow> (Err OtherIo, r)
      | Some k \<Rightarrow>
          let got = take (min n (max 1 k)) (vr_rest r); r1 = r\<lparr>vr_rest := drop (length got) (vr_rest r)\<rparr> in
          (case checked_add_u64 (vr_read_bytes r) (length got) of
             None \<Rightarrow> (Err OtherIo, r1)
           | Some tot \<Rightarrow>
               let r2 = r1\<lparr>vr_read_bytes := tot, vr_hash := vr_hash r @ got\<rparr> in
               if tot > vr_expected_size r
                  \<or> (got = [] \<and> (tot \<noteq> vr_expected_size r \<or> sha256 (vr_hash r2) \<noteq> vr_expected_hash r))
               then (Err OtherIo, r2\<lparr>vr_failed := True\<rparr>)
               else (Ok got, r2\<lparr>vr_verified := (got = [])\<rparr>)))"

text \<open>A consumer reads until it sees an error or an empty result. The schedule gives the buffer
  size and the system's answer of each call.\<close>

fun read_to_end ::
  "(bytes \<Rightarrow> string) \<Rightarrow> verified_reader \<Rightarrow> (nat \<times> nat option) list \<Rightarrow> bytes \<Rightarrow> (io_error + bytes) option" where
  "read_to_end sha256 r [] acc = None"
| "read_to_end sha256 r ((n, k) # sched) acc =
     (case read_verified sha256 r n k of
        (Err e, _) \<Rightarrow> Some (Err e)
      | (Ok got, r') \<Rightarrow> if got = [] then Some (Ok acc) else read_to_end sha256 r' sched (acc @ got))"

lemma read_to_end_sound:
  assumes "read_to_end sha256 r sched acc = Some (Ok out)" "\<forall>(n, k)\<in>set sched. 0 < n"
    "vr_hash r = acc" "vr_read_bytes r = length acc" "\<not> vr_verified r"
  shows "length out = vr_expected_size r \<and> sha256 out = vr_expected_hash r \<and> out = acc @ vr_rest r"
  using assms
proof (induction sha256 r sched acc rule: read_to_end.induct)
  case (2 sha256 r n k sched acc)
  obtain got r' where g: "read_verified sha256 r n k = (Ok got, r')"
    using "2.prems"(1) by (auto split: prod.splits sum.splits)
  have n: "0 < n" using "2.prems"(2) by auto
  show ?case
  proof (cases "got = []")
    case True
    with g n "2.prems" show ?thesis
      by (auto simp: read_verified_def Let_def res_simps split: if_splits option.splits)
  next
    case False
    have next_r: "vr_hash r' = acc @ got" "vr_read_bytes r' = length (acc @ got)" "\<not> vr_verified r'"
      "vr_expected_size r' = vr_expected_size r" "vr_expected_hash r' = vr_expected_hash r"
      "got @ vr_rest r' = vr_rest r"
      using g False n "2.prems"(3-5)
      by (auto simp: read_verified_def Let_def res_simps min_def split: if_splits option.splits)
    show ?thesis
      using "2.IH" [OF g [symmetric] refl False] False g "2.prems"(1,2) next_r by auto
  qed
qed simp

text \<open>Every call makes progress, so a consumer that asks often enough gets an answer; and where
  the file is the expected one and the system does not fail, the answer is the file.\<close>

lemma read_to_end_complete:
  assumes "sha256 (acc @ vr_rest r) = vr_expected_hash r" "length (acc @ vr_rest r) = vr_expected_size r"
    "vr_expected_size r \<le> u64_max" "vr_hash r = acc" "vr_read_bytes r = length acc"
    "\<not> vr_verified r" "\<not> vr_failed r" "\<forall>(n, k)\<in>set sched. 0 < n \<and> k \<noteq> None"
    "length (vr_rest r) < length sched"
  shows "read_to_end sha256 r sched acc = Some (Ok (acc @ vr_rest r))"
  using assms
proof (induction sha256 r sched acc rule: read_to_end.induct)
  case (2 sha256 r n k sched acc)
  obtain j where j: "k = Some j" "0 < n" using "2.prems"(8) by auto
  define got where "got = take (min n (max 1 j)) (vr_rest r)"
  define r1 where "r1 = r\<lparr>vr_rest := drop (length got) (vr_rest r), vr_read_bytes := length acc + length got,
      vr_hash := acc @ got, vr_verified := (got = [])\<rparr>"
  have rest: "vr_rest r = got @ vr_rest r1" 
  proof -
    have "take (length got) (vr_rest r) = got" by (auto simp: got_def min_def)
    then have "vr_rest r = got @ drop (length got) (vr_rest r)" by (metis append_take_drop_id)
    then show ?thesis by (simp add: r1_def)
  qed
  have len: "length acc + length got \<le> vr_expected_size r"
    using "2.prems"(2) by (simp add: got_def)
  have empty: "got = [] \<Longrightarrow> vr_rest r = []" using j by (auto simp: got_def min_def split: if_splits)
  have g: "read_verified sha256 r n k = (Ok got, r1)"
    unfolding read_verified_def Let_def j(1) option.case got_def [symmetric]
    using j(2) "2.prems"(1-7) len empty by (auto simp: checked_add_u64_def r1_def)
  show ?case
  proof (cases "got = []")
    case True
    with empty g show ?thesis by simp
  next
    case False
    have joined: "(acc @ got) @ vr_rest r1 = acc @ vr_rest r" using rest by (metis append.assoc)
    have "read_to_end sha256 r1 sched (acc @ got) = Some (Ok ((acc @ got) @ vr_rest r1))"
    proof (rule "2.IH" [OF g [symmetric] refl False])
      show "length (vr_rest r1) < length sched"
        using arg_cong [OF rest, of length] False "2.prems"(9) by (cases got) auto
      show "sha256 ((acc @ got) @ vr_rest r1) = vr_expected_hash r1"
        "length ((acc @ got) @ vr_rest r1) = vr_expected_size r1"
        using "2.prems"(1,2) joined by (simp_all add: r1_def)
    qed (use False "2.prems"(3,7,8) in \<open>simp_all add: r1_def\<close>)
    with joined False g show ?thesis by simp
  qed
qed simp

text \<open>Property C36. Reading a message file to its end either reports an error or delivers exactly the
  file, whose length and SHA-256 are the recorded ones; and a file that matches its record
  is delivered whole by any sequence of reads that is long enough.\<close>

theorem verified_reader_exact:
  assumes o: "open_verified entry size_bytes hash = Ok r" and n: "\<forall>(n, k)\<in>set sched. 0 < n"
  shows "(\<forall>out. read_to_end sha256 r sched [] = Some (Ok out) \<longrightarrow>
      entry = Regular out \<and> length out = size_bytes \<and> sha256 out = hash)
    \<and> (\<forall>contents. entry = Regular contents \<and> length contents = size_bytes \<and> sha256 contents = hash
        \<and> size_bytes \<le> u64_max \<and> (\<forall>(n, k)\<in>set sched. k \<noteq> None) \<and> size_bytes < length sched \<longrightarrow>
      read_to_end sha256 r sched [] = Some (Ok contents))"
proof -
  obtain contents where c: "entry = Regular contents"
    "r = \<lparr>vr_rest = contents, vr_expected_size = size_bytes, vr_expected_hash = hash, vr_read_bytes = 0,
              vr_hash = [], vr_verified = False, vr_failed = False\<rparr>"
    using o by (auto simp: open_verified_def split: path_entry.splits)
  have "\<forall>(n, k)\<in>set sched. k \<noteq> None \<Longrightarrow> \<forall>(n, k)\<in>set sched. 0 < n \<and> k \<noteq> None" using n by auto
  then show ?thesis
    using read_to_end_sound [of sha256 r sched "[]"] read_to_end_complete [of sha256 "[]" r sched] n c
    by auto
qed

theorem verified_reader_exact_witness:
  "\<exists>r. open_verified (Regular ''abc'') 3 ''abc'' = Ok r
     \<and> read_to_end (\<lambda>b. b) r [(2, Some 1), (2, Some 9), (2, Some 2), (2, Some 0)] [] = Some (Ok ''abc'')"
proof -
  obtain r where r: "open_verified (Regular ''abc'') 3 ''abc'' = Ok r" by (simp add: open_verified_def)
  have "\<forall>(n, k)\<in>set [(2::nat, Some (1::nat)), (2, Some 9), (2, Some 2), (2, Some 0)]. 0 < n" by simp
  from verified_reader_exact [OF r this, of "\<lambda>b. b", THEN conjunct2, rule_format, of "''abc''"] r show ?thesis
    by (simp add: u64_max_def)
qed

end
