(* ===== verification/Mail_Transfer.thy ===== *)
theory Mail_Transfer
  imports Commands Headers Config Staging
begin

text \<open>
  The message body on its way: \<open>prepare\<close> of \<open>crates/client/src/message.rs\<close> (the snapshot a
  submission sends), \<open>send_body\<close> of \<open>crates/client/src/smtp.rs\<close> (the transparent encoding on the wire)
  and \<open>receive_message\<close> of \<open>crates/server/src/lib.rs\<close> (decoding, filtering and staging). Each reads
  its input in pieces of any size; the locale \<open>chunk_consumer\<close> gives independence of the
  pieces, and the last section composes the three.
\<close>

section \<open>Preparing a snapshot\<close>

datatype prepare_error = InputTooLong | HeadersTooLong | BadHeader | BadFrame frame_error | Incomplete | BadLimits

record prep_state =
  ps_line :: line_decoder
  ps_filter :: header_filter
  ps_input_size :: nat
  ps_header_bytes :: nat
  ps_headers :: bool
  ps_body :: body
  ps_output :: bytes

record snapshot =
  snap_contents :: bytes
  snap_size :: nat
  snap_body :: body

definition prep_new :: prep_state where
  "prep_new = \<lparr>ps_line = new_decoder 1000, ps_filter = submission, ps_input_size = 0,
     ps_header_bytes = 0, ps_headers = True, ps_body = SevenBit, ps_output = []\<rparr>"

definition prep_frame :: "input_limits \<Rightarrow> prep_state \<Rightarrow> bytes \<Rightarrow> prepare_error + prep_state" where
  "prep_frame lim s fr =
     (if ps_headers s then
        let s1 = s\<lparr>ps_header_bytes := ps_header_bytes s + length fr\<rparr> in
        if ps_header_bytes s1 > in_header_bytes lim then Err HeadersTooLong
        else if fr = CRLF then Ok (s1\<lparr>ps_headers := False, ps_output := ps_output s @ fr\<rparr>)
        else (case retain (ps_filter s) fr of
                Err _ \<Rightarrow> Err BadHeader
              | Ok (keep, f) \<Rightarrow>
                  Ok (s1\<lparr>ps_filter := f, ps_output := ps_output s @ (if keep then fr else [])\<rparr>))
      else Ok (s\<lparr>ps_body := (if is_ascii fr then ps_body s else EightBitMime), ps_output := ps_output s @ fr\<rparr>))"

text \<open>One pass of the outer loop, on the bytes one \<open>read\<close> delivered.\<close>

definition prep_chunk :: "input_limits \<Rightarrow> prep_state \<Rightarrow> bytes \<Rightarrow> prepare_error + prep_state" where
  "prep_chunk lim s bs =
     (case checked_add_u64 (ps_input_size s) (length bs) of
        None \<Rightarrow> Err InputTooLong
      | Some n \<Rightarrow>
          if n > in_message_bytes lim then Err InputTooLong
          else rbind (drain (prep_frame lim) BadFrame (ps_line s) (s\<lparr>ps_input_size := n\<rparr>) bs)
                 (\<lambda>(d, s'). Ok (s'\<lparr>ps_line := d\<rparr>)))"

definition prepare :: "input_limits \<Rightarrow> bytes list \<Rightarrow> prepare_error + snapshot" where
  "prepare lim chunks =
     (if \<not> is_ok (input_limits_validate lim) then Err BadLimits
      else rbind (run_chunks (prep_chunk lim) prep_new chunks) (\<lambda>s.
        if ps_headers s \<or> buffered_bytes (ps_line s) \<noteq> 0 then Err Incomplete
        else Ok \<lparr>snap_contents = ps_output s, snap_size = length (ps_output s), snap_body = ps_body s\<rparr>))"

section \<open>Sending a body\<close>

datatype failure = Connection | Setup | Content

record message =
  m_sender :: "address option"
  m_recipient :: address
  m_body :: body
  m_stored_size :: nat
  m_omit_prefix :: bytes

record send_state =
  ss_decoder :: line_decoder
  ss_total :: nat
  ss_first :: bool
  ss_headers :: bool
  ss_output :: bytes

definition send_new :: send_state where
  "send_new = \<lparr>ss_decoder = new_decoder 1000, ss_total = 0, ss_first = True, ss_headers = True, ss_output = []\<rparr>"

definition send_frame :: "message \<Rightarrow> send_state \<Rightarrow> bytes \<Rightarrow> failure + send_state" where
  "send_frame m s fr =
     (if (ss_headers s \<or> m_body m = SevenBit) \<and> \<not> is_ascii fr then Err Content
      else if ss_first s \<and> m_omit_prefix m \<noteq> [] \<and> fr \<noteq> m_omit_prefix m then Err Content
      else Ok (s\<lparr>ss_output := ss_output s @
                  (if ss_first s \<and> m_omit_prefix m \<noteq> [] then [] else dot_stuff fr),
                 ss_first := False,
                 ss_headers := ss_headers s \<and> fr \<noteq> CRLF\<rparr>))"

definition send_chunk :: "message \<Rightarrow> send_state \<Rightarrow> bytes \<Rightarrow> failure + send_state" where
  "send_chunk m s bs =
     (case checked_add_u64 (ss_total s) (length bs) of
        None \<Rightarrow> Err Content
      | Some n \<Rightarrow>
          if n > m_stored_size m then Err Content
          else rbind (drain (send_frame m) (\<lambda>_. Content) (ss_decoder s) (s\<lparr>ss_total := n\<rparr>) bs)
                 (\<lambda>(d, s'). Ok (s'\<lparr>ss_decoder := d\<rparr>)))"

text \<open>What the reader and the socket do, call by call: a read delivers bytes and the write
  of their encoding succeeds or not, a read fails, or a read takes too long. The list ends where
  the reader reports the end of the stored message.\<close>

datatype pump = Got bytes bool | PumpError | PumpTimeout

text \<open>The result, and the bytes written to the wire by then.\<close>

fun send_loop :: "message \<Rightarrow> send_state \<Rightarrow> pump list \<Rightarrow> (failure + send_state) \<times> bytes" where
  "send_loop m s [] = (Ok s, ss_output s)"
| "send_loop m s (PumpError # ps) = (Err Content, ss_output s)"
| "send_loop m s (PumpTimeout # ps) = (Err Connection, ss_output s)"
| "send_loop m s (Got bs ok # ps) =
     (case send_chunk m s bs of
        Err e \<Rightarrow> (Err e, ss_output s)
      | Ok s' \<Rightarrow> if ok then send_loop m s' ps else (Err Connection, ss_output s))"

definition send_body :: "message \<Rightarrow> pump list \<Rightarrow> (failure + unit) \<times> bytes" where
  "send_body m ps =
     (case send_loop m send_new ps of
        (Err e, w) \<Rightarrow> (Err e, w)
      | (Ok s, w) \<Rightarrow>
          (if ss_total s \<noteq> m_stored_size m \<or> buffered_bytes (ss_decoder s) \<noteq> 0 \<or> ss_headers s
           then Err Content else Ok (), w))"

section \<open>Receiving a message\<close>

datatype server_error = SConfig string | Storage store_error | SIo io_error | Task | InvalidHeaders

record receive_state =
  rx_in_headers :: bool
  rx_headers :: nat
  rx_input_bytes :: nat
  rx_filter :: header_filter
  rx_identities :: submission_headers
  rx_stage :: staged
  rx_disk :: disk
  rx_script :: write_script

definition rx_append :: "(fault_point \<Rightarrow> bool) \<Rightarrow> receive_state \<Rightarrow> bytes \<Rightarrow>
    ((server_error + unit) \<times> receive_state) option" where
  "rx_append hook s bs =
     (case append_stage hook (rx_script s) (rx_stage s) (rx_disk s) bs of
        None \<Rightarrow> None
      | Some (r, st, d, ws) \<Rightarrow>
          Some (case r of Err e \<Rightarrow> Err (Storage e) | Ok _ \<Rightarrow> Ok (),
                s\<lparr>rx_stage := st, rx_disk := d, rx_script := ws\<rparr>))"

text \<open>What happens to one decoded line before it is appended: whether to keep it.\<close>

definition rx_line :: "limits \<Rightarrow> bool \<Rightarrow> body \<Rightarrow> receive_state \<Rightarrow> bytes \<Rightarrow> server_error + bool \<times> receive_state" where
  "rx_line l sub bd s data =
     (if bd = SevenBit \<and> \<not> is_ascii data then Err (SIo InvalidText)
      else case checked_add_u64 (rx_input_bytes s) (length data) of
        None \<Rightarrow> Err (Storage SizeLimit)
      | Some n \<Rightarrow>
          if n > message_bytes l then Err (Storage SizeLimit)
          else let s1 = s\<lparr>rx_input_bytes := n\<rparr> in
          if \<not> rx_in_headers s then Ok (True, s1)
          else (case checked_add_u64 (rx_headers s) (length data) of
            None \<Rightarrow> Err (Storage SizeLimit)
          | Some h \<Rightarrow>
              let s2 = s1\<lparr>rx_headers := h\<rparr> in
              if h > header_bytes l then Err (Storage SizeLimit)
              else if data = CRLF then Ok (True, s2\<lparr>rx_in_headers := False\<rparr>)
              else (case retain (rx_filter s) data of
                Err _ \<Rightarrow> Err InvalidHeaders
              | Ok (keep, f) \<Rightarrow>
                  let s3 = s2\<lparr>rx_filter := f\<rparr> in
                  if sub then (case identities_line (rx_identities s) data of
                                 Err e \<Rightarrow> Err (Storage e)
                               | Ok i \<Rightarrow> Ok (keep, s3\<lparr>rx_identities := i\<rparr>))
                  else Ok (keep, s3))))"

text \<open>The end of DATA: the author of a submission, and the separator of a message without body.\<close>

definition rx_finish :: "(fault_point \<Rightarrow> bool) \<Rightarrow> bool \<Rightarrow> receive_state \<Rightarrow>
    ((server_error + address option) \<times> receive_state) option" where
  "rx_finish hook sub s =
     (case (if sub then (case identities_finish (rx_identities s) of Err e \<Rightarrow> Err (Storage e) | Ok a \<Rightarrow> Ok (Some a))
            else Ok None) of
        Err e \<Rightarrow> Some (Err e, s)
      | Ok auth \<Rightarrow>
          if rx_in_headers s then
            (case rx_append hook s CRLF of
               None \<Rightarrow> None
             | Some (Err e, s') \<Rightarrow> Some (Err e, s')
             | Some (Ok _, s') \<Rightarrow> Some (Ok auth, s'))
          else Some (Ok auth, s))"

lemma fill_line_progress:
  assumes "fill_line (clear d) chunks = (Ok True, d', rest)"
  shows "length (concat rest) < length (concat chunks)"
proof -
  have nc: "\<not> complete (clear d)" by simp
  have r: "concat rest = snd (snd (fill_whole (clear d) (concat chunks)))"
    and f: "fst (fill_whole (clear d) (concat chunks)) = Ok True"
    using fill_line_chunks [OF nc, of chunks] assms by auto
  then obtain used d1 where fl: "feed_loop (clear d) 0 (concat chunks) = (Ok (used, True), d1)"
    by (auto simp: fill_whole_def split: prod.splits sum.splits bool.splits if_splits)
  then have "concat chunks \<noteq> []" by (cases "concat chunks") auto
  with feed_loop_used [OF fl] have "0 < used" "used \<le> length (concat chunks)" by auto
  with r fl show ?thesis by (simp add: fill_whole_def)
qed

text \<open>The loop: the result with the author, the state, and what is left unread. \<open>None\<close> would be an
  append that does not return.\<close>

function receive_loop ::
  "(fault_point \<Rightarrow> bool) \<Rightarrow> limits \<Rightarrow> bool \<Rightarrow> body \<Rightarrow> line_decoder \<Rightarrow> receive_state \<Rightarrow> bytes list \<Rightarrow>
     ((server_error + address option) \<times> receive_state \<times> bytes list) option" where
  "receive_loop hook l sub bd d s chunks =
     (case fill_line (clear d) chunks of
        (Err e, _, rest) \<Rightarrow> Some (Err (SIo e), s, rest)
      | (Ok False, _, rest) \<Rightarrow> Some (Err (SIo UnexpectedEof), s, rest)
      | (Ok True, d', rest) \<Rightarrow>
          (case decode_data_frame (buffer d') of
             Err e \<Rightarrow> Some (Err (SIo (InvalidData e)), s, rest)
           | Ok None \<Rightarrow> map_option (\<lambda>(r, s'). (r, s', rest)) (rx_finish hook sub s)
           | Ok (Some data) \<Rightarrow>
               (case rx_line l sub bd s data of
                  Err e \<Rightarrow> Some (Err e, s, rest)
                | Ok (keep, s1) \<Rightarrow>
                    if keep then
                      (case rx_append hook s1 data of
                         None \<Rightarrow> None
                       | Some (r, s2) \<Rightarrow>
                           (case r of Err e \<Rightarrow> Some (Err e, s2, rest)
                            | Ok _ \<Rightarrow> receive_loop hook l sub bd d' s2 rest))
                    else receive_loop hook l sub bd d' s1 rest)))"
  by pat_completeness auto
termination
  by (relation "measure (\<lambda>(hook, l, sub, bd, d, s, chunks). length (concat chunks))")
    (auto dest!: sym [of _ "fill_line _ _"] intro: fill_line_progress)

declare receive_loop.simps [simp del]

definition receive_new :: "bool \<Rightarrow> staged \<Rightarrow> disk \<Rightarrow> write_script \<Rightarrow> receive_state" where
  "receive_new sub st d ws = \<lparr>rx_in_headers = True, rx_headers = 0, rx_input_bytes = 0,
     rx_filter = (if sub then submission else default_filter), rx_identities = default_identities,
     rx_stage = st, rx_disk = d, rx_script = ws\<rparr>"

definition receive_message ::
  "(bytes \<Rightarrow> string) \<Rightarrow> (fault_point \<Rightarrow> bool) \<Rightarrow> (disk_call \<Rightarrow> bool) \<Rightarrow> limits \<Rightarrow> bool \<Rightarrow> body \<Rightarrow> bytes \<Rightarrow>
     staged \<Rightarrow> disk \<Rightarrow> write_script \<Rightarrow> bytes list \<Rightarrow>
     ((server_error + prepared \<times> address option) \<times> staged \<times> disk \<times> bytes list) option" where
  "receive_message sha256 hook fails l sub bd pre st d ws chunks =
     (case rx_append hook (receive_new sub st d ws) pre of
        None \<Rightarrow> None
      | Some (Err e, s) \<Rightarrow> Some (Err e, rx_stage s, rx_disk s, chunks)
      | Some (Ok _, s) \<Rightarrow>
          (case receive_loop hook l sub bd (new_decoder 1001) s chunks of
             None \<Rightarrow> None
           | Some (Err e, s', rest) \<Rightarrow> Some (Err e, rx_stage s', rx_disk s', rest)
           | Some (Ok auth, s', rest) \<Rightarrow>
               (case prepare_stage sha256 hook fails (rx_script s') (rx_stage s') (rx_disk s') of
                  (Err e, st', d') \<Rightarrow> Some (Err (Storage e), st', d', rest)
                | (Ok p, st', d') \<Rightarrow> Some (Ok (p, auth), st', d', rest))))"

section \<open>Readers that count their input\<close>

text \<open>
  \<open>prepare\<close> and \<open>send_body\<close> share a shape: a counter of input bytes checked against a cap, and a
  decoder whose complete frames go to a handler that touches neither. The handler law is all
  a reader has to prove.
\<close>

locale counted_consumer =
  fixes step :: "'s \<Rightarrow> bytes \<Rightarrow> 'e + 's"
    and h :: "'s \<Rightarrow> bytes \<Rightarrow> 'e + 's"
    and fe :: "frame_error \<Rightarrow> 'e"
    and over :: 'e
    and cap :: nat
    and dec :: "'s \<Rightarrow> line_decoder"
    and cnt :: "'s \<Rightarrow> nat"
    and put :: "line_decoder \<Rightarrow> nat \<Rightarrow> 's \<Rightarrow> 's"
  assumes step_eq: "step s bs =
      (if cnt s + length bs > min u64_max cap then Err over
       else rbind (drain h fe (dec s) (put (dec s) (cnt s + length bs) s) bs)
              (\<lambda>(d, t). Ok (put d (cnt t) t)))"
    and get_put [simp]: "dec (put d n s) = d" "cnt (put d n s) = n"
    and put_put [simp]: "put d n (put e m s) = put d n s"
    and put_get [simp]: "put (dec s) (cnt s) s = s"
    and h_put: "h (put d n s) fr = map_sum id (put d n) (h s fr)"
begin

lemma h_keeps: "h s fr = Ok t \<Longrightarrow> dec t = dec s \<and> cnt t = cnt s"
  using h_put [of "dec s" "cnt s" s fr] by (auto simp: map_sum_def split: sum.splits) (metis get_put)+

lemma drain_put:
  "\<not> complete d \<Longrightarrow> drain h fe d (put e n s) bs = map_sum id (map_prod id (put e n)) (drain h fe d s bs)"
proof (induction "length bs" arbitrary: d s bs rule: less_induct)
  case less
  show ?case
  proof (cases "bs = []")
    case False
    obtain r d1 where f: "feed_loop d 0 bs = (r, d1)" by fastforce
    show ?thesis
    proof (cases "\<exists>k. r = Ok (k, True)")
      case True
      then obtain k where r: "r = Ok (k, True)" by blast
      have "length (drop k bs) < length bs" using feed_loop_used [OF f [unfolded r]] False by simp
      note IH = less.hyps [OF this, of "clear d1"]
      show ?thesis
        unfolding drain_step [OF less.prems False] f r
        by (cases "h s (buffer d1)") (auto simp: h_put IH)
    next
      case F: False
      then show ?thesis
        unfolding drain_step [OF less.prems False] f
        by (cases r) (auto split: prod.splits)
    qed
  qed simp
qed

lemma drain_cnt: "drain h fe d s bs = Ok (d', t) \<Longrightarrow> \<not> complete d \<Longrightarrow> dec t = dec s \<and> cnt t = cnt s"
  using drain_put [of d "dec s" "cnt s" s bs] by (auto dest: arg_cong [where f = projr]) (metis get_put)+

lemma step_Ok_iff:
  "\<not> complete (dec s) \<Longrightarrow> step s bs = Ok t \<longleftrightarrow> cnt s + length bs \<le> min u64_max cap
     \<and> (\<exists>d u. drain h fe (dec s) s bs = Ok (d, u) \<and> t = put d (cnt s + length bs) u)"
  by (cases "drain h fe (dec s) s bs")
    (auto simp: step_eq drain_put res_simps not_less split: prod.splits if_splits)

end

sublocale counted_consumer \<subseteq> chunk_consumer step "\<lambda>s. \<not> complete (dec s) \<and> cnt s \<le> min u64_max cap"
proof
  fix s
  assume inv: "\<not> complete (dec s) \<and> cnt s \<le> min u64_max cap"
  then show "step s [] = Ok s" by (auto simp: step_eq)
next
  fix s xs t
  assume inv: "\<not> complete (dec s) \<and> cnt s \<le> min u64_max cap" and st: "step s xs = Ok t"
  from st obtain d u where u: "drain h fe (dec s) (put (dec s) (cnt s + length xs) s) xs = Ok (d, u)"
    "t = put d (cnt u) u" "cnt s + length xs \<le> min u64_max cap"
    by (auto simp: step_eq res_simps not_less split: if_splits)
  moreover from u(1) inv have "cnt u = cnt s + length xs" using drain_cnt by fastforce
  moreover have "\<not> complete d" using drain_not_complete [OF u(1)] inv by simp
  ultimately show "\<not> complete (dec t) \<and> cnt t \<le> min u64_max cap" by simp
next
  fix s xs ys t
  assume inv: "\<not> complete (dec s) \<and> cnt s \<le> min u64_max cap"
  let ?D = "drain h fe (dec s) s xs"
  have "\<not> complete d" if "?D = Ok (d, u)" for d u using drain_not_complete [OF that] inv by simp
  then show "step s (xs @ ys) = Ok t \<longleftrightarrow> (\<exists>u. step s xs = Ok u \<and> step u ys = Ok t)"
    using inv
    by (cases ?D) (fastforce simp: step_Ok_iff drain_append drain_put res_simps add.assoc)+
qed

interpretation prep: counted_consumer "prep_chunk lim" "prep_frame lim" BadFrame InputTooLong
  "in_message_bytes lim" ps_line ps_input_size "\<lambda>d n s. s\<lparr>ps_line := d, ps_input_size := n\<rparr>" for lim
  by unfold_locales
    (auto simp: prep_chunk_def prep_frame_def checked_add_u64_def min_def Let_def split: sum.splits option.splits)

interpretation sender: counted_consumer "send_chunk m" "send_frame m" "\<lambda>_. Content" Content
  "m_stored_size m" ss_decoder ss_total "\<lambda>d n s. s\<lparr>ss_decoder := d, ss_total := n\<rparr>" for m
  by unfold_locales
    (auto simp: send_chunk_def send_frame_def checked_add_u64_def min_def Let_def split: sum.splits option.splits)

lemma ascii_line_end [simp]: "is_ascii_byte CR" "is_ascii_byte LF"
  by (simp_all add: is_ascii_byte_def code_def)

section \<open>What a snapshot is\<close>

abbreviation crlf :: "bytes \<Rightarrow> bytes" where
  "crlf l \<equiv> l @ CRLF"

definition line_fits :: "bytes \<Rightarrow> bool" where
  "line_fits l \<longleftrightarrow> clean l \<and> length l + 2 \<le> 1000"

text \<open>A message on the wire, seen as header lines, the empty line, and body lines.\<close>

definition mail_lines :: "bytes list \<Rightarrow> bytes list \<Rightarrow> bytes list" where
  "mail_lines hs bs = hs @ [] # bs"

definition body_kind :: "bytes list \<Rightarrow> body" where
  "body_kind bs = (if list_all is_ascii bs then SevenBit else EightBitMime)"

lemma fold_res_append:
  "fold_res h s (xs @ ys) = rbind (fold_res h s xs) (\<lambda>s'. fold_res h s' ys)"
  by (induction xs arbitrary: s) (auto simp: rbind_def split: sum.splits)

lemma length_wire: "length (wire ls) = sum_list (map (\<lambda>l. length l + 2) ls)"
  by (induction ls) auto

lemma wire_concat: "concat (map crlf ls) = wire ls"
  by (simp add: wire_def)

lemma crlf_eq_CRLF [simp]: "l @ CRLF = CRLF \<longleftrightarrow> l = []"
  by (metis append_self_conv2)

lemma prep_fold_headers:
  assumes "ps_headers s" "[] \<notin> set hs" "ps_header_bytes s \<le> in_header_bytes lim"
  shows "fold_res (prep_frame lim) s (map crlf hs) = Ok t \<longleftrightarrow>
    ps_header_bytes s + length (wire hs) \<le> in_header_bytes lim \<and>
    (\<exists>out f. filter_lines (ps_filter s) (map crlf hs) = Ok (out, f) \<and>
      t = s\<lparr>ps_header_bytes := ps_header_bytes s + length (wire hs), ps_filter := f,
            ps_output := ps_output s @ concat out\<rparr>)"
  using assms
proof (induction hs arbitrary: s)
  case Nil
  then show ?case by auto
next
  case (Cons l hs)
  have nl: "l \<noteq> []" using Cons.prems by auto
  show ?case
  proof (cases "ps_header_bytes s + length (crlf l) \<le> in_header_bytes lim")
    case True
    show ?thesis
    proof (cases "retain (ps_filter s) (crlf l)")
      case (Inl e)
      with True Cons.prems nl show ?thesis by (simp add: prep_frame_def Let_def)
    next
      case (Inr p)
      obtain k f1 where p: "p = (k, f1)" by fastforce
      let ?s = "s\<lparr>ps_header_bytes := ps_header_bytes s + length (crlf l), ps_filter := f1,
        ps_output := ps_output s @ (if k then crlf l else [])\<rparr>"
      have step: "prep_frame lim s (crlf l) = Ok ?s" using True Cons.prems nl Inr p by (simp add: prep_frame_def Let_def)
      have flt: "filter_lines (ps_filter s) (map crlf (l # hs)) = Ok (out, f) \<longleftrightarrow>
          (\<exists>out1. filter_lines f1 (map crlf hs) = Ok (out1, f) \<and> out = (if k then [crlf l] else []) @ out1)" for out f
        using Inr p by (auto simp: res_simps)
      have "fold_res (prep_frame lim) s (map crlf (l # hs)) = Ok t \<longleftrightarrow>
          fold_res (prep_frame lim) ?s (map crlf hs) = Ok t" using step by simp
      also have "\<dots> \<longleftrightarrow> ps_header_bytes s + length (wire (l # hs)) \<le> in_header_bytes lim \<and>
          (\<exists>out1 f. filter_lines f1 (map crlf hs) = Ok (out1, f) \<and>
            t = s\<lparr>ps_header_bytes := ps_header_bytes s + length (wire (l # hs)), ps_filter := f,
              ps_output := ps_output s @ concat ((if k then [crlf l] else []) @ out1)\<rparr>)"
        using Cons.IH [of ?s] Cons.prems True by (cases k) (simp_all add: add.assoc)
      finally show ?thesis unfolding flt by blast
    qed
  next
    case False
    with Cons.prems nl show ?thesis by (auto simp: prep_frame_def Let_def)
  qed
qed

lemma prep_fold_body:
  assumes "\<not> ps_headers s"
  shows "fold_res (prep_frame lim) s (map crlf bs) =
    Ok (s\<lparr>ps_body := (if list_all is_ascii bs then ps_body s else EightBitMime), ps_output := ps_output s @ wire bs\<rparr>)"
  using assms
proof (induction bs arbitrary: s)
  case (Cons b bs)
  have "is_ascii (crlf b) = is_ascii b" by (simp add: is_ascii_byte_def code_def)
  with Cons show ?case by (auto simp: prep_frame_def)
qed simp

lemma mail_split: "[] \<in> set ls \<Longrightarrow> \<exists>hs bs. ls = mail_lines hs bs \<and> [] \<notin> set hs"
  unfolding mail_lines_def by (rule split_list_first)

lemma prep_fold_mail:
  assumes "0 < in_header_bytes lim" "[] \<notin> set hs"
  shows "fold_res (prep_frame lim) prep_new (map crlf (mail_lines hs bs)) = Ok u \<longleftrightarrow>
    length (wire hs) + 2 \<le> in_header_bytes lim
    \<and> (\<exists>out f. filter_lines submission (map crlf hs) = Ok (out, f)
        \<and> u = prep_new\<lparr>ps_header_bytes := length (wire hs) + 2, ps_filter := f, ps_headers := False,
            ps_body := body_kind bs, ps_output := concat out @ CRLF @ wire bs\<rparr>)"
proof -
  have h: "fold_res (prep_frame lim) prep_new (map crlf hs) = Ok t \<longleftrightarrow>
    length (wire hs) \<le> in_header_bytes lim \<and>
    (\<exists>out f. filter_lines submission (map crlf hs) = Ok (out, f) \<and>
      t = prep_new\<lparr>ps_header_bytes := length (wire hs), ps_filter := f, ps_output := concat out\<rparr>)" for t
    using prep_fold_headers [of prep_new hs lim t] assms by (simp add: prep_new_def)
  have b: "fold_res (prep_frame lim) (prep_new\<lparr>ps_header_bytes := n, ps_filter := f, ps_output := w\<rparr>)
      (map crlf ([] # bs)) = Ok u \<longleftrightarrow> n + 2 \<le> in_header_bytes lim
      \<and> u = prep_new\<lparr>ps_header_bytes := n + 2, ps_filter := f, ps_headers := False,
            ps_body := body_kind bs, ps_output := w @ CRLF @ wire bs\<rparr>" for n f w
    by (auto simp: prep_frame_def prep_new_def Let_def prep_fold_body body_kind_def)
  show ?thesis
    unfolding mail_lines_def map_append fold_res_append rbind_Ok_iff h using b by fastforce
qed

lemma prep_fold_no_end:
  assumes "0 < in_header_bytes lim" "[] \<notin> set ls" "fold_res (prep_frame lim) prep_new (map crlf ls) = Ok u"
  shows "ps_headers u"
  using prep_fold_headers [of prep_new ls lim u] assms by (auto simp: prep_new_def)

text \<open>Whatever the pieces, the outcome is that of handing the lines over one by one.\<close>

lemma prepare_by_lines:
  assumes ok: "is_ok (input_limits_validate lim)"
  shows "prepare lim chunks = Ok snap \<longleftrightarrow> length (concat chunks) \<le> in_message_bytes lim
    \<and> (\<exists>ls u. concat chunks = wire ls \<and> list_all line_fits ls
        \<and> fold_res (prep_frame lim) prep_new (map crlf ls) = Ok u \<and> \<not> ps_headers u
        \<and> snap = \<lparr>snap_contents = ps_output u, snap_size = length (ps_output u), snap_body = ps_body u\<rparr>)"
    (is "?lhs \<longleftrightarrow> ?small \<and> ?lines")
proof -
  let ?bs = "concat chunks"
  have "in_message_bytes lim \<le> u64_max"
    using ok by (auto simp: input_limits_validate_def u64_max_def split: if_splits)
  moreover have "\<not> complete (ps_line prep_new)" "ps_input_size prep_new = 0" "ps_line prep_new = new_decoder 1000"
    by (simp_all add: prep_new_def new_decoder_def)
  ultimately have run: "run_chunks (prep_chunk lim) prep_new chunks = Ok s \<longleftrightarrow>
      ?small \<and> (\<exists>d u. drain (prep_frame lim) BadFrame (new_decoder 1000) prep_new ?bs = Ok (d, u)
        \<and> s = u\<lparr>ps_line := d, ps_input_size := length ?bs\<rparr>)" for s
    using prep.run_concat [of prep_new lim chunks s] prep.step_Ok_iff [of prep_new lim ?bs s] by simp
  have drained: "drain (prep_frame lim) BadFrame (new_decoder 1000) prep_new (wire ls) = Ok (d, u) \<longleftrightarrow>
      d = new_decoder 1000 \<and> fold_res (prep_frame lim) prep_new (map crlf ls) = Ok u"
    if "list_all line_fits ls" for ls d u
    using drain_lines [of ls 1000 "prep_frame lim" BadFrame prep_new] that
    by (auto simp: line_fits_def list_all_iff split: sum.splits)
  have lines: "\<exists>ls. ?bs = wire ls \<and> list_all line_fits ls"
    if "drain (prep_frame lim) BadFrame (new_decoder 1000) prep_new ?bs = Ok (d, u)" "buffered_bytes d = 0" for d u
    using drain_Ok_lines [OF that] by (auto simp: line_fits_def list_all_iff)
  show ?thesis
  proof
    assume ?lhs
    with ok run obtain d u where du: "?small" "drain (prep_frame lim) BadFrame (new_decoder 1000) prep_new ?bs = Ok (d, u)"
      "\<not> ps_headers u" "buffered_bytes d = 0"
      "snap = \<lparr>snap_contents = ps_output u, snap_size = length (ps_output u), snap_body = ps_body u\<rparr>"
      by (auto simp: prepare_def res_simps split: if_splits)
    with lines obtain ls where ls: "?bs = wire ls" "list_all line_fits ls" by blast
    with drained [OF ls(2)] du show "?small \<and> ?lines" by auto
  next
    assume "?small \<and> ?lines"
    then obtain ls u where ls: "?small" "?bs = wire ls" "list_all line_fits ls"
      "fold_res (prep_frame lim) prep_new (map crlf ls) = Ok u" "\<not> ps_headers u"
      "snap = \<lparr>snap_contents = ps_output u, snap_size = length (ps_output u), snap_body = ps_body u\<rparr>" by blast
    with drained run have "run_chunks (prep_chunk lim) prep_new chunks =
        Ok (u\<lparr>ps_line := new_decoder 1000, ps_input_size := length ?bs\<rparr>)" by metis
    then show ?lhs using ok ls(5,6) by (simp add: prepare_def buffered_bytes_def new_decoder_def)
  qed
qed

lemma prepare_char:
  "prepare lim chunks = Ok snap \<longleftrightarrow>
     is_ok (input_limits_validate lim) \<and> length (concat chunks) \<le> in_message_bytes lim \<and>
     (\<exists>hs bs fls. concat chunks = wire (mail_lines hs bs) \<and> list_all line_fits (mail_lines hs bs) \<and> [] \<notin> set hs
       \<and> map crlf hs = concat (map field_lines fls) \<and> list_all field_ok fls
       \<and> length (wire hs) + 2 \<le> in_header_bytes lim
       \<and> (let kept = concat (map field_lines (filter (\<lambda>fl. \<not> removed_name True (field_name fl)) fls));
              contents = concat kept @ CRLF @ wire bs
          in snap = \<lparr>snap_contents = contents, snap_size = length contents, snap_body = body_kind bs\<rparr>))"
    (is "?lhs \<longleftrightarrow> ?ok \<and> ?small \<and> ?rhs")
proof (cases ?ok)
  case ok: True
  have hb: "0 < in_header_bytes lim" using ok by (auto simp: input_limits_validate_def split: if_splits)
  have flt: "(\<exists>f. filter_lines submission (map crlf hs) = Ok (out, f)) \<longleftrightarrow>
    (\<exists>fls. map crlf hs = concat (map field_lines fls) \<and> list_all field_ok fls
      \<and> out = concat (map field_lines (filter (\<lambda>fl. \<not> removed_name True (field_name fl)) fls)))" for hs out
    using filter_lines_iff [of submission "map crlf hs" out] by (simp add: submission_def default_filter_def)
  have "(\<exists>ls u. concat chunks = wire ls \<and> list_all line_fits ls
        \<and> fold_res (prep_frame lim) prep_new (map crlf ls) = Ok u \<and> \<not> ps_headers u
        \<and> snap = \<lparr>snap_contents = ps_output u, snap_size = length (ps_output u), snap_body = ps_body u\<rparr>)
    \<longleftrightarrow> (\<exists>hs bs. concat chunks = wire (mail_lines hs bs) \<and> list_all line_fits (mail_lines hs bs) \<and> [] \<notin> set hs
        \<and> length (wire hs) + 2 \<le> in_header_bytes lim
        \<and> (\<exists>out f. filter_lines submission (map crlf hs) = Ok (out, f)
           \<and> snap = \<lparr>snap_contents = concat out @ CRLF @ wire bs, snap_size = length (concat out @ CRLF @ wire bs),
               snap_body = body_kind bs\<rparr>))" (is "?a \<longleftrightarrow> ?b")
  proof
    assume ?a
    then obtain ls u where a: "concat chunks = wire ls" "list_all line_fits ls"
      "fold_res (prep_frame lim) prep_new (map crlf ls) = Ok u" "\<not> ps_headers u"
      "snap = \<lparr>snap_contents = ps_output u, snap_size = length (ps_output u), snap_body = ps_body u\<rparr>" by blast
    with prep_fold_no_end [OF hb _ a(3)] mail_split obtain hs bs where "ls = mail_lines hs bs" "[] \<notin> set hs" by blast
    with a prep_fold_mail [OF hb, of hs bs u] show ?b by fastforce
  next
    assume ?b
    then show ?a using prep_fold_mail [OF hb] by fastforce
  qed
  with prepare_by_lines [OF ok] flt ok show ?thesis by (simp add: Let_def) blast
qed (simp add: prepare_def)

text \<open>Property C38. Preparing a submission succeeds exactly when the input, however it is cut into
  reads, is a message of clean CRLF lines within the limits whose header consists of valid
  fields; the snapshot is then the input without its Return-Path, Bcc and Resent-Bcc fields
  (with their continuation lines), with its true size and body kind.\<close>

theorem prepare_exact:
  "prepare lim chunks = Ok snap \<longleftrightarrow>
     is_ok (input_limits_validate lim) \<and> length (concat chunks) \<le> in_message_bytes lim \<and>
     (\<exists>hs bs fls. concat chunks = wire (mail_lines hs bs) \<and> list_all line_fits (mail_lines hs bs) \<and> [] \<notin> set hs
       \<and> map crlf hs = concat (map field_lines fls) \<and> list_all field_ok fls
       \<and> length (wire hs) + 2 \<le> in_header_bytes lim
       \<and> (let kept = concat (map field_lines (filter (\<lambda>fl. \<not> removed_name True (field_name fl)) fls));
              contents = concat kept @ CRLF @ wire bs
          in snap = \<lparr>snap_contents = contents, snap_size = length contents, snap_body = body_kind bs\<rparr>))"
  by (rule prepare_char)

section \<open>What is sent\<close>

definition stuffed :: "bytes list \<Rightarrow> bytes" where
  "stuffed ls = concat (map (\<lambda>l. dot_stuff (crlf l)) ls)"

fun send_ok :: "body \<Rightarrow> bool \<Rightarrow> bytes list \<Rightarrow> bool" where
  "send_ok bd h [] \<longleftrightarrow> True"
| "send_ok bd h (l # ls) \<longleftrightarrow> (h \<or> bd = SevenBit \<longrightarrow> is_ascii l) \<and> send_ok bd (h \<and> l \<noteq> []) ls"

lemma stuffed_simps [simp]:
  "stuffed [] = []" "stuffed (l # ls) = dot_stuff (crlf l) @ stuffed ls"
  by (simp_all add: stuffed_def)

lemma send_ok_body: "send_ok bd False bs \<longleftrightarrow> (bd = SevenBit \<longrightarrow> list_all is_ascii bs)"
  by (induction bs) auto

lemma send_ok_mail:
  "[] \<notin> set hs \<Longrightarrow> send_ok bd True (mail_lines hs bs) \<longleftrightarrow>
     list_all is_ascii hs \<and> (bd = SevenBit \<longrightarrow> list_all is_ascii bs)"
  by (induction hs) (auto simp: mail_lines_def send_ok_body)

lemma send_fold:
  assumes "\<not> ss_first s"
  shows "fold_res (send_frame m) s (map crlf ls) = Ok t \<longleftrightarrow> send_ok (m_body m) (ss_headers s) ls
    \<and> t = s\<lparr>ss_output := ss_output s @ stuffed ls, ss_headers := ss_headers s \<and> [] \<notin> set ls\<rparr>"
  using assms
proof (induction ls arbitrary: s)
  case Nil
  then show ?case by auto
next
  case (Cons l ls)
  let ?s = "s\<lparr>ss_output := ss_output s @ dot_stuff (crlf l), ss_headers := ss_headers s \<and> l \<noteq> []\<rparr>"
  have step: "send_frame m s (crlf l) =
      (if (ss_headers s \<or> m_body m = SevenBit) \<and> \<not> is_ascii l then Err Content else Ok ?s)"
    using Cons.prems by (simp add: send_frame_def)
  show ?case
  proof (cases "(ss_headers s \<or> m_body m = SevenBit) \<and> \<not> is_ascii l")
    case False
    then have "fold_res (send_frame m) s (map crlf (l # ls)) = fold_res (send_frame m) ?s (map crlf ls)"
      using step by auto
    then show ?thesis using Cons.IH [of ?s] Cons.prems False by (auto simp: eq_commute [of "[]"])
  qed (use step in auto)
qed

definition omits :: "message \<Rightarrow> bytes list \<Rightarrow> bool" where
  "omits m ls \<longleftrightarrow> (m_omit_prefix m \<noteq> [] \<longrightarrow> ls \<noteq> [] \<and> crlf (hd ls) = m_omit_prefix m)"

definition transmitted :: "message \<Rightarrow> bytes list \<Rightarrow> bytes list" where
  "transmitted m ls = (if m_omit_prefix m = [] then ls else tl ls)"

lemma send_fold_new:
  assumes "ls \<noteq> []"
  shows "fold_res (send_frame m) send_new (map crlf ls) = Ok t \<longleftrightarrow> send_ok (m_body m) True ls \<and> omits m ls
    \<and> t = send_new\<lparr>ss_output := stuffed (transmitted m ls), ss_first := False, ss_headers := [] \<notin> set ls\<rparr>"
proof -
  obtain l ls' where ls: "ls = l # ls'" using assms by (cases ls) auto
  let ?s = "send_new\<lparr>ss_output := (if m_omit_prefix m = [] then dot_stuff (crlf l) else []), ss_first := False,
    ss_headers := l \<noteq> []\<rparr>"
  have "send_frame m send_new (crlf l) = (if is_ascii l \<and> omits m ls then Ok ?s else Err Content)"
    by (auto simp: send_frame_def send_new_def omits_def ls)
  then show ?thesis
    using send_fold [of ?s m ls' t] by (auto simp: ls transmitted_def eq_commute [of "[]"])
qed

lemma send_loop_ok:
  "send_loop m s ps = (Ok t, w) \<longleftrightarrow>
     (\<exists>cs. ps = map (\<lambda>b. Got b True) cs \<and> run_chunks (send_chunk m) s cs = Ok t \<and> w = ss_output t)"
proof (induction m s ps rule: send_loop.induct)
  case (4 m s bs ok ps)
  show ?case
  proof (cases "send_chunk m s bs")
    case (Inr s')
    then show ?thesis
      using "4.IH" [OF Inr] by (cases ok) (auto simp: map_eq_Cons_conv Cons_eq_map_conv)
  qed (auto simp: Cons_eq_map_conv)
qed (auto simp: Cons_eq_map_conv)

text \<open>Success means that the whole stored message went through the decoder.\<close>

abbreviation send_drain :: "message \<Rightarrow> bytes \<Rightarrow> failure + line_decoder \<times> send_state" where
  "send_drain m \<equiv> drain (send_frame m) (\<lambda>_. Content) (new_decoder 1000) send_new"

lemma send_body_drained:
  assumes "m_stored_size m \<le> u64_max"
  shows "send_body m ps = (Ok (), w) \<longleftrightarrow>
    (\<exists>cs d u. ps = map (\<lambda>b. Got b True) cs \<and> length (concat cs) = m_stored_size m
      \<and> send_drain m (concat cs) = Ok (d, u) \<and> buffered_bytes d = 0 \<and> \<not> ss_headers u \<and> w = ss_output u)"
    (is "?lhs \<longleftrightarrow> _")
proof -
  have start: "\<not> complete (ss_decoder send_new)" "ss_total send_new = 0" "ss_decoder send_new = new_decoder 1000"
    by (simp_all add: send_new_def new_decoder_def)
  have run: "run_chunks (send_chunk m) send_new cs = Ok s \<longleftrightarrow> length (concat cs) \<le> m_stored_size m
      \<and> (\<exists>d u. send_drain m (concat cs) = Ok (d, u) \<and> s = u\<lparr>ss_decoder := d, ss_total := length (concat cs)\<rparr>)" for cs s
    using sender.run_concat [of send_new m cs s] sender.step_Ok_iff [of send_new m "concat cs" s] start assms
    by simp
  have eq: "?lhs \<longleftrightarrow> (\<exists>t. send_loop m send_new ps = (Ok t, w) \<and> ss_total t = m_stored_size m
      \<and> buffered_bytes (ss_decoder t) = 0 \<and> \<not> ss_headers t)"
    by (auto simp: send_body_def split: prod.splits sum.splits if_splits)
  show ?thesis
    unfolding eq send_loop_ok run
  proof (intro iffI; elim exE conjE)
    fix cs d u
    assume "ps = map (\<lambda>b. Got b True) cs" "length (concat cs) = m_stored_size m" "send_drain m (concat cs) = Ok (d, u)"
      "buffered_bytes d = 0" "\<not> ss_headers u" "w = ss_output u"
    then show "\<exists>t. (\<exists>cs. ps = map (\<lambda>b. Got b True) cs \<and> (length (concat cs) \<le> m_stored_size m
        \<and> (\<exists>d u. send_drain m (concat cs) = Ok (d, u) \<and> t = u\<lparr>ss_decoder := d, ss_total := length (concat cs)\<rparr>))
        \<and> w = ss_output t) \<and> ss_total t = m_stored_size m \<and> buffered_bytes (ss_decoder t) = 0 \<and> \<not> ss_headers t"
      by (intro exI [of _ "u\<lparr>ss_decoder := d, ss_total := length (concat cs)\<rparr>"] conjI exI [of _ cs] exI [of _ d] exI [of _ u])
        simp_all
  qed auto
qed

lemma send_body_char:
  assumes "m_stored_size m \<le> u64_max"
  shows "send_body m ps = (Ok (), w) \<longleftrightarrow>
    (\<exists>cs hs bs. ps = map (\<lambda>b. Got b True) cs \<and> concat cs = wire (mail_lines hs bs) \<and> [] \<notin> set hs
      \<and> list_all line_fits (mail_lines hs bs) \<and> length (concat cs) = m_stored_size m
      \<and> list_all is_ascii hs \<and> (m_body m = SevenBit \<longrightarrow> list_all is_ascii bs) \<and> omits m (mail_lines hs bs)
      \<and> w = stuffed (transmitted m (mail_lines hs bs)))"
    (is "?lhs \<longleftrightarrow> ?rhs")
proof -
  have drained: "send_drain m (wire ls) = Ok (d, u) \<longleftrightarrow>
      d = new_decoder 1000 \<and> fold_res (send_frame m) send_new (map crlf ls) = Ok u"
    if "list_all line_fits ls" for ls d u
    using drain_lines [of ls 1000 "send_frame m" "\<lambda>_. Content" send_new] that
    by (auto simp: line_fits_def list_all_iff split: sum.splits)
  show ?thesis
  proof
    assume ?lhs
    then obtain cs d u where u: "ps = map (\<lambda>b. Got b True) cs" "length (concat cs) = m_stored_size m"
      "send_drain m (concat cs) = Ok (d, u)" "buffered_bytes d = 0" "\<not> ss_headers u" "w = ss_output u" unfolding send_body_drained [OF assms] by blast
    from drain_Ok_lines [OF u(3,4)] obtain ls where ls: "concat cs = wire ls" "list_all line_fits ls"
      by (auto simp: line_fits_def list_all_iff)
    with drained [OF ls(2)] u(3) have f: "fold_res (send_frame m) send_new (map crlf ls) = Ok u" by simp
    have "ls \<noteq> []" using f u(5) by (auto simp: send_new_def)
    note g = f [unfolded send_fold_new [OF this]]
    with u(5) mail_split [of ls] obtain hs bs where "ls = mail_lines hs bs" "[] \<notin> set hs" by auto
    with u(1,2,6) ls g send_ok_mail [of hs "m_body m" bs] show ?rhs
      by (intro exI [of _ cs] exI [of _ hs] exI [of _ bs]) auto
  next
    assume ?rhs
    then obtain cs hs bs where r: "ps = map (\<lambda>b. Got b True) cs" "concat cs = wire (mail_lines hs bs)" "[] \<notin> set hs"
      "list_all line_fits (mail_lines hs bs)" "length (concat cs) = m_stored_size m"
      "list_all is_ascii hs" "m_body m = SevenBit \<longrightarrow> list_all is_ascii bs" "omits m (mail_lines hs bs)"
      "w = stuffed (transmitted m (mail_lines hs bs))" by blast
    let ?u = "send_new\<lparr>ss_output := w, ss_first := False, ss_headers := False\<rparr>"
    have "fold_res (send_frame m) send_new (map crlf (mail_lines hs bs)) = Ok ?u"
      using r send_ok_mail [OF r(3), of "m_body m" bs] send_fold_new [of "mail_lines hs bs" m ?u]
      by (simp add: mail_lines_def)
    with drained [OF r(4)] r show ?lhs
      unfolding send_body_drained [OF assms] by (intro exI [of _ cs] exI [of _ "new_decoder 1000"] exI [of _ ?u])
        (simp add: buffered_bytes_def new_decoder_def)
  qed
qed

section \<open>What is received\<close>

definition undot :: "bytes \<Rightarrow> bytes" where
  "undot l = (if prefix ''.'' l then tl l else l)"

definition dot_line :: "bytes \<Rightarrow> bytes" where
  "dot_line l = (if prefix ''.'' l then CHR ''.'' # l else l)"

definition frame_fits :: "bytes \<Rightarrow> bool" where
  "frame_fits f \<longleftrightarrow> clean f \<and> length f + 2 \<le> 1001 \<and> f \<noteq> ''.'' \<and> length (undot f) + 2 \<le> 1000"

lemma dot_line_simps:
  "dot_stuff (crlf l) = crlf (dot_line l)" "undot (dot_line l) = l" "clean (dot_line l) = clean l"
  "length (dot_line l) \<le> Suc (length l)" "dot_line l \<noteq> ''.''"
  by (cases l; auto simp: dot_stuff_def dot_line_def undot_def)+

lemma line_fits_frame: "line_fits l \<Longrightarrow> frame_fits (dot_line l)"
  using dot_line_simps(4) [of l] by (auto simp: line_fits_def frame_fits_def dot_line_simps(2,3,5))

lemma decode_frame_cases:
  "decode_data_frame (crlf f) = Ok None \<longleftrightarrow> f = ''.''"
  "decode_data_frame (crlf f) = Ok (Some x) \<longleftrightarrow> f \<noteq> ''.'' \<and> length (undot f) + 2 \<le> 1000 \<and> x = crlf (undot f)"
  unfolding decode_line_frame by (cases f; force simp: decode_data_line_def undot_def Let_def)+

text \<open>What the lines do to the receiver's state, apart from the stage, and what they add to it.\<close>

fun rx_lines :: "limits \<Rightarrow> bool \<Rightarrow> body \<Rightarrow> receive_state \<Rightarrow> bytes list \<Rightarrow> server_error + bytes \<times> receive_state" where
  "rx_lines l sub bd s [] = Ok ([], s)"
| "rx_lines l sub bd s (x # xs) =
     rbind (rx_line l sub bd s (crlf x)) (\<lambda>(keep, s1).
     rbind (rx_lines l sub bd s1 xs) (\<lambda>(out, s2). Ok ((if keep then crlf x else []) @ out, s2)))"

abbreviation set_stage :: "staged \<Rightarrow> disk \<Rightarrow> write_script \<Rightarrow> receive_state \<Rightarrow> receive_state" where
  "set_stage st d ws s \<equiv> s\<lparr>rx_stage := st, rx_disk := d, rx_script := ws\<rparr>"

lemma rx_line_stage:
  "rx_line l sub bd (set_stage st d ws s) data = map_sum id (map_prod id (set_stage st d ws)) (rx_line l sub bd s data)"
  by (auto simp: rx_line_def Let_def split: option.splits sum.splits)

lemma rx_lines_stage:
  "rx_lines l sub bd (set_stage st d ws s) xs = map_sum id (map_prod id (set_stage st d ws)) (rx_lines l sub bd s xs)"
  by (induction xs arbitrary: s) (auto simp: rx_line_stage rbind_def split: sum.splits)

text \<open>The stage of a receiver holds some content, and the rest of the disk is as before.\<close>

definition rx_holds :: "string \<Rightarrow> nat \<Rightarrow> disk \<Rightarrow> receive_state \<Rightarrow> bytes \<Rightarrow> bool" where
  "rx_holds i mx d0 s content \<longleftrightarrow> stage_inv (rx_disk s) (rx_stage s) content \<and> st_id (rx_stage s) = i
     \<and> st_max_size (rx_stage s) = mx \<and> blobs (rx_disk s) = blobs d0 \<and> reserved (rx_disk s) = reserved d0
     \<and> (\<forall>j. j \<noteq> i \<longrightarrow> staging (rx_disk s) j = staging d0 j)"

lemma rx_append_holds:
  assumes "rx_holds i mx d0 s content" "rx_append hook s bs = Some (Ok u, s')"
  shows "rx_holds i mx d0 s' (content @ bs) \<and> (\<exists>st d ws. s' = set_stage st d ws s)"
proof -
  from assms(1) have inv: "stage_inv (rx_disk s) (rx_stage s) content" by (simp add: rx_holds_def)
  then obtain r st d ws where a: "append_stage hook (rx_script s) (rx_stage s) (rx_disk s) bs = Some (r, st, d, ws)"
    "case r of Ok _ \<Rightarrow> stage_inv d st (content @ bs) | Err _ \<Rightarrow> st_poisoned st"
    "st_id st = st_id (rx_stage s)" "st_max_size st = st_max_size (rx_stage s)" "blobs d = blobs (rx_disk s)"
    "reserved d = reserved (rx_disk s)" "\<forall>j. j \<noteq> st_id (rx_stage s) \<longrightarrow> staging d j = staging (rx_disk s) j"
    using append_stage_returns [of "rx_disk s" "rx_stage s" content hook "rx_script s" bs] by blast
  with assms(2) have "r = Ok ()" "s' = set_stage st d ws s"
    by (cases r; simp add: rx_append_def)+
  with a assms(1) show ?thesis by (auto simp: rx_holds_def)
qed

lemma rx_append_succeeds:
  assumes "rx_holds i mx d0 s content" "length content + length bs \<le> mx" "mx \<le> u64_max" "\<not> hook Append"
    "set (rx_script s) \<subseteq> {None}"
  shows "\<exists>s'. rx_append hook s bs = Some (Ok (), s') \<and> set (rx_script s') \<subseteq> {None}"
  using append_stage_succeeds [of "rx_disk s" "rx_stage s" content bs hook "rx_script s"] assms
  by (auto simp: rx_holds_def rx_append_def)

text \<open>The receiver never hangs.\<close>

lemma rx_append_returns:
  assumes "rx_holds i mx d0 s content"
  shows "rx_append hook s bs \<noteq> None"
  using append_stage_returns [of "rx_disk s" "rx_stage s" content hook "rx_script s" bs] assms
  by (auto simp: rx_append_def rx_holds_def)

text \<open>One turn of the loop on a whole line, as a rewriting of the loop.\<close>

definition rx_turn :: "(fault_point \<Rightarrow> bool) \<Rightarrow> limits \<Rightarrow> bool \<Rightarrow> body \<Rightarrow> receive_state \<Rightarrow> bytes \<Rightarrow>
    ((server_error + unit) \<times> receive_state) option" where
  "rx_turn hook l sub bd s data =
     (case rx_line l sub bd s data of
        Err e \<Rightarrow> Some (Err e, s)
      | Ok (keep, s1) \<Rightarrow> if keep then rx_append hook s1 data else Some (Ok (), s1))"

lemma receive_loop_data:
  assumes "concat chunks = crlf f @ later" "frame_fits f" "limit d = 1001"
  obtains d' rest where "limit d' = 1001" "concat rest = later"
    "receive_loop hook l sub bd d s chunks =
      (case rx_turn hook l sub bd s (crlf (undot f)) of
         None \<Rightarrow> None
       | Some (Err e, s1) \<Rightarrow> Some (Err e, s1, rest)
       | Some (Ok _, s1) \<Rightarrow> receive_loop hook l sub bd d' s1 rest)"
proof -
  obtain r d' rest where fl: "fill_line (clear d) chunks = (r, d', rest)" by (metis prod_cases3)
  have *: "r = Ok True" "buffer d' = crlf f" "limit d' = 1001" "concat rest = later"
    using fill_line_iff(2) [OF assms(3) fl assms(1)] assms(2) by (auto simp: frame_fits_def)
  have "decode_data_frame (crlf f) = Ok (Some (crlf (undot f)))"
    using assms(2) unfolding decode_frame_cases frame_fits_def by simp
  with * have "receive_loop hook l sub bd d s chunks =
      (case rx_turn hook l sub bd s (crlf (undot f)) of
         None \<Rightarrow> None
       | Some (Err e, s1) \<Rightarrow> Some (Err e, s1, rest)
       | Some (Ok _, s1) \<Rightarrow> receive_loop hook l sub bd d' s1 rest)"
    by (subst receive_loop.simps)
      (auto simp: fl rx_turn_def split: option.splits sum.splits prod.splits)
  with * that show ?thesis by blast
qed

lemma receive_loop_dot:
  assumes "concat chunks = crlf ''.'' @ later" "limit d = 1001"
  shows "\<exists>rest. concat rest = later \<and>
    receive_loop hook l sub bd d s chunks = map_option (\<lambda>(r, s'). (r, s', rest)) (rx_finish hook sub s)"
proof -
  obtain r d' rest where fl: "fill_line (clear d) chunks = (r, d', rest)" by (metis prod_cases3)
  have *: "r = Ok True" "buffer d' = crlf ''.''" "concat rest = later"
    using fill_line_iff(2) [OF assms(2) fl assms(1)] by auto
  have "decode_data_frame (crlf ''.'') = Ok None" unfolding decode_frame_cases ..
  with * show ?thesis by (subst receive_loop.simps) (auto simp: fl)
qed

text \<open>Whatever is not such a line ends the session without a message.\<close>

lemma receive_loop_junk:
  assumes "receive_loop hook l sub bd d s chunks = Some (Ok a, s', rest)" "limit d = 1001"
  shows "\<exists>f later. concat chunks = crlf f @ later \<and> (f = ''.'' \<or> frame_fits f)"
proof -
  obtain r d' rest' where fl: "fill_line (clear d) chunks = (r, d', rest')" by (metis prod_cases3)
  have "r = Ok True"
    using assms(1) by (subst (asm) receive_loop.simps) (auto simp: fl split: sum.splits bool.splits)
  then obtain f later where f: "concat chunks = crlf f @ later" "clean f" "length f + 2 \<le> 1001"
    using fill_line_iff(1) [OF assms(2) fl] by auto
  then have b: "buffer d' = crlf f" using fill_line_iff(2) [OF assms(2) fl f] by simp
  have "\<exists>x. decode_data_frame (crlf f) = Ok x"
    using assms(1) \<open>r = Ok True\<close> by (subst (asm) receive_loop.simps) (auto simp: fl b split: sum.splits)
  then obtain x where "decode_data_frame (crlf f) = Ok x" by blast
  with f show ?thesis
    by (intro exI [of _ f] exI [of _ later]; cases x) (auto simp: decode_frame_cases frame_fits_def)
qed

definition rx_author :: "bool \<Rightarrow> receive_state \<Rightarrow> address option \<Rightarrow> bool" where
  "rx_author sub s a \<longleftrightarrow> (if sub then \<exists>x. identities_finish (rx_identities s) = Ok x \<and> a = Some x else a = None)"

definition separator :: "receive_state \<Rightarrow> bytes" where
  "separator s = (if rx_in_headers s then CRLF else [])"

lemma rx_finish_holds:
  assumes "rx_finish hook sub s = Some (Ok a, s')" "rx_holds i mx d0 s content"
  shows "rx_author sub s a \<and> rx_holds i mx d0 s' (content @ separator s)"
proof -
  have a: "rx_author sub s a"
    using assms(1) by (auto simp: rx_finish_def rx_author_def split: if_splits sum.splits option.splits)
  have "s' = s \<and> \<not> rx_in_headers s \<or> rx_in_headers s \<and> (\<exists>u. rx_append hook s CRLF = Some (Ok u, s'))"
    using assms(1) by (auto simp: rx_finish_def split: if_splits sum.splits option.splits)
  with a assms(2) rx_append_holds [OF assms(2), of hook CRLF] show ?thesis by (auto simp: separator_def)
qed

lemma rx_turn_holds:
  assumes "rx_turn hook l sub bd s (crlf x) = Some (Ok u, s1)" "rx_holds i mx d0 s content"
  shows "\<exists>keep s2 st d ws. rx_line l sub bd s (crlf x) = Ok (keep, s2) \<and> s1 = set_stage st d ws s2
    \<and> rx_holds i mx d0 s1 (content @ (if keep then crlf x else []))"
proof -
  obtain keep s2 where k: "rx_line l sub bd s (crlf x) = Ok (keep, s2)"
    using assms(1) by (cases "rx_line l sub bd s (crlf x)") (auto simp: rx_turn_def)
  then have "rx_stage s2 = rx_stage s" "rx_disk s2 = rx_disk s"
    by (auto simp: rx_line_def Let_def split: if_splits option.splits sum.splits)
  then have h: "rx_holds i mx d0 s2 content" using assms(2) by (simp add: rx_holds_def)
  show ?thesis
  proof (cases keep)
    case True
    with assms(1) k have "rx_append hook s2 (crlf x) = Some (Ok u, s1)" by (simp add: rx_turn_def)
    with rx_append_holds [OF h this] k True show ?thesis by auto
  next
    case False
    with assms(1) k have "s1 = s2" by (simp add: rx_turn_def)
    with k h False show ?thesis
      by (intro exI [of _ keep] exI [of _ s2] exI [of _ "rx_stage s2"] exI [of _ "rx_disk s2"]
          exI [of _ "rx_script s2"]) simp
  qed
qed

lemma receive_loop_sound:
  assumes "receive_loop hook l sub bd d s chunks = Some (Ok a, s', rest)" "limit d = 1001"
    "rx_holds i mx d0 s content"
  shows "\<exists>fs out t. concat chunks = wire fs @ crlf ''.'' @ concat rest \<and> list_all frame_fits fs
    \<and> rx_lines l sub bd s (map undot fs) = Ok (out, t) \<and> rx_author sub t a
    \<and> rx_holds i mx d0 s' (content @ out @ separator t)"
  using assms
proof (induction "length (concat chunks)" arbitrary: chunks d s content rule: less_induct)
  case less
  obtain f later where f: "concat chunks = crlf f @ later" "f = ''.'' \<or> frame_fits f"
    using receive_loop_junk [OF less.prems(1,2)] by blast
  show ?case
  proof (cases "f = ''.''")
    case True
    then obtain r where r: "concat r = later"
      "receive_loop hook l sub bd d s chunks = map_option (\<lambda>(x, s'). (x, s', r)) (rx_finish hook sub s)"
      using receive_loop_dot [OF _ less.prems(2), of chunks later hook l sub bd s] f by blast
    with less.prems(1) have "rx_finish hook sub s = Some (Ok a, s')" "r = rest" by auto
    with rx_finish_holds less.prems(3) r f True show ?thesis
      by (intro exI [of _ "[]"] exI [of _ "[]"] exI [of _ s]) auto
  next
    case False
    then have ff: "frame_fits f" using f by simp
    obtain d' r where r: "limit d' = 1001" "concat r = later"
      "receive_loop hook l sub bd d s chunks =
        (case rx_turn hook l sub bd s (crlf (undot f)) of
           None \<Rightarrow> None
         | Some (Err e, s1) \<Rightarrow> Some (Err e, s1, r)
         | Some (Ok _, s1) \<Rightarrow> receive_loop hook l sub bd d' s1 r)"
      using receive_loop_data [OF f(1) ff less.prems(2)] by blast
    with less.prems(1) obtain u s1 where t: "rx_turn hook l sub bd s (crlf (undot f)) = Some (Ok u, s1)"
      "receive_loop hook l sub bd d' s1 r = Some (Ok a, s', rest)"
      by (auto split: option.splits sum.splits prod.splits)
    from rx_turn_holds [OF t(1) less.prems(3)] obtain keep s2 st dk ws where
      k: "rx_line l sub bd s (crlf (undot f)) = Ok (keep, s2)" "s1 = set_stage st dk ws s2"
      "rx_holds i mx d0 s1 (content @ (if keep then crlf (undot f) else []))" by blast
    have "length (concat r) < length (concat chunks)" using f r(2) by simp
    from less.hyps [OF this t(2) r(1) k(3)] obtain fs out t where
      *: "concat r = wire fs @ crlf ''.'' @ concat rest" "list_all frame_fits fs"
      "rx_lines l sub bd s1 (map undot fs) = Ok (out, t)" "rx_author sub t a"
      "rx_holds i mx d0 s' ((content @ (if keep then crlf (undot f) else [])) @ out @ separator t)" by blast
    from *(3) k(2) obtain t2 where t2: "rx_lines l sub bd s2 (map undot fs) = Ok (out, t2)" "t = set_stage st dk ws t2"
      by (auto simp: rx_lines_stage res_simps)
    then have "rx_author sub t2 a" "separator t2 = separator t" using *(4) by (auto simp: rx_author_def separator_def)
    with * t2 k(1) f r(2) ff show ?thesis
      by (intro exI [of _ "f # fs"] exI [of _ "(if keep then crlf (undot f) else []) @ out"] exI [of _ t2]) auto
  qed
qed

text \<open>The lines of a header and of a body, in closed form.\<close>

definition idents :: "bool \<Rightarrow> submission_headers \<Rightarrow> bytes list \<Rightarrow> submission_headers \<Rightarrow> bool" where
  "idents sub i ls i' \<longleftrightarrow> (if sub then fold_res identities_line i ls = Ok i' else i' = i)"

definition counters_ok :: "limits \<Rightarrow> receive_state \<Rightarrow> bool" where
  "counters_ok l s \<longleftrightarrow> rx_input_bytes s \<le> message_bytes l \<and> message_bytes l \<le> u64_max
     \<and> rx_headers s \<le> header_bytes l \<and> header_bytes l \<le> u64_max"

lemma idents_Cons:
  "idents sub i (x # xs) i' \<longleftrightarrow>
     (\<exists>j. (if sub then identities_line i x = Ok j else j = i) \<and> idents sub j xs i')"
  by (auto simp: idents_def res_simps)

lemma rx_line_header:
  assumes "rx_in_headers s" "x \<noteq> []" "counters_ok l s"
  shows "rx_line l sub bd s (crlf x) = Ok (keep, t) \<longleftrightarrow>
    (bd = SevenBit \<longrightarrow> is_ascii x) \<and> rx_input_bytes s + length (crlf x) \<le> message_bytes l
    \<and> rx_headers s + length (crlf x) \<le> header_bytes l
    \<and> (\<exists>f i. retain (rx_filter s) (crlf x) = Ok (keep, f)
        \<and> (if sub then identities_line (rx_identities s) (crlf x) = Ok i else i = rx_identities s)
        \<and> t = s\<lparr>rx_input_bytes := rx_input_bytes s + length (crlf x), rx_headers := rx_headers s + length (crlf x),
              rx_filter := f, rx_identities := i\<rparr>)"
proof (cases "retain (rx_filter s) (crlf x)")
  case (Inr p)
  obtain k f where p: "p = (k, f)" by fastforce
  show ?thesis
    using assms Inr p
    by (cases "identities_line (rx_identities s) (crlf x)")
      (auto simp: rx_line_def counters_ok_def checked_add_u64_def Let_def not_less)
qed (use assms in \<open>auto simp: rx_line_def Let_def split: option.splits\<close>)

definition header_spec ::
  "limits \<Rightarrow> bool \<Rightarrow> body \<Rightarrow> receive_state \<Rightarrow> bytes list \<Rightarrow> bytes \<Rightarrow> receive_state \<Rightarrow> bool" where
  "header_spec l sub bd s hs out t \<longleftrightarrow>
     (bd = SevenBit \<longrightarrow> list_all is_ascii hs) \<and> rx_input_bytes s + length (wire hs) \<le> message_bytes l
   \<and> rx_headers s + length (wire hs) \<le> header_bytes l
   \<and> (\<exists>kept f i. filter_lines (rx_filter s) (map crlf hs) = Ok (kept, f)
       \<and> idents sub (rx_identities s) (map crlf hs) i \<and> out = concat kept
       \<and> t = s\<lparr>rx_input_bytes := rx_input_bytes s + length (wire hs), rx_headers := rx_headers s + length (wire hs),
             rx_filter := f, rx_identities := i\<rparr>)"

lemma kept_exists:
  "(\<exists>kept f' i'. (\<exists>keep f k. R keep f \<and> L f k f' \<and> kept = (if keep then [c] else []) @ k)
      \<and> (\<exists>j. I j \<and> J j i') \<and> out = concat kept \<and> T f' i')
   \<longleftrightarrow> (\<exists>keep f k f' i i'. R keep f \<and> L f k f' \<and> I i \<and> J i i'
      \<and> out = (if keep then c else []) @ concat k \<and> T f' i')" (is "?l \<longleftrightarrow> ?r")
proof -
  have C: "concat ((if b then [y] else []) @ k) = (if b then y else []) @ concat k" for b y k by simp
  have "?l \<longleftrightarrow> (\<exists>keep f k f' i i'. R keep f \<and> L f k f' \<and> I i \<and> J i i'
      \<and> out = concat ((if keep then [c] else []) @ k) \<and> T f' i')" by blast
  then show ?thesis unfolding C .
qed

lemma header_spec_Cons:
  "header_spec l sub bd s (x # hs) out t \<longleftrightarrow>
     (bd = SevenBit \<longrightarrow> is_ascii x) \<and>
     (\<exists>keep f i out1. retain (rx_filter s) (crlf x) = Ok (keep, f)
       \<and> (if sub then identities_line (rx_identities s) (crlf x) = Ok i else i = rx_identities s)
       \<and> header_spec l sub bd
           (s\<lparr>rx_input_bytes := rx_input_bytes s + length (crlf x), rx_headers := rx_headers s + length (crlf x),
              rx_filter := f, rx_identities := i\<rparr>) hs out1 t
       \<and> out = (if keep then crlf x else []) @ out1)"
proof -
  have F: "filter_lines g (map crlf (x # hs)) = Ok (kept, f') \<longleftrightarrow>
      (\<exists>keep f k. retain g (crlf x) = Ok (keep, f) \<and> filter_lines f (map crlf hs) = Ok (k, f')
        \<and> kept = (if keep then [crlf x] else []) @ k)" for g kept f'
    by (auto simp: res_simps)
  let ?s = "\<lambda>f i. s\<lparr>rx_input_bytes := rx_input_bytes s + length (crlf x),
    rx_headers := rx_headers s + length (crlf x), rx_filter := f, rx_identities := i\<rparr>"
  have tail: "header_spec l sub bd (?s f i) hs out1 t \<longleftrightarrow>
      (bd = SevenBit \<longrightarrow> list_all is_ascii hs) \<and> rx_input_bytes s + length (wire (x # hs)) \<le> message_bytes l
    \<and> rx_headers s + length (wire (x # hs)) \<le> header_bytes l
    \<and> (\<exists>k f' i'. filter_lines f (map crlf hs) = Ok (k, f') \<and> idents sub i (map crlf hs) i' \<and> out1 = concat k
        \<and> t = s\<lparr>rx_input_bytes := rx_input_bytes s + length (wire (x # hs)),
              rx_headers := rx_headers s + length (wire (x # hs)), rx_filter := f', rx_identities := i'\<rparr>)" for f i out1
    by (simp add: header_spec_def add.assoc)
  have whole: "header_spec l sub bd s (x # hs) out t \<longleftrightarrow>
      (bd = SevenBit \<longrightarrow> is_ascii x \<and> list_all is_ascii hs) \<and> rx_input_bytes s + length (wire (x # hs)) \<le> message_bytes l
    \<and> rx_headers s + length (wire (x # hs)) \<le> header_bytes l
    \<and> (\<exists>keep f k f' i i'. retain (rx_filter s) (crlf x) = Ok (keep, f) \<and> filter_lines f (map crlf hs) = Ok (k, f')
        \<and> (if sub then identities_line (rx_identities s) (crlf x) = Ok i else i = rx_identities s)
        \<and> idents sub i (map crlf hs) i' \<and> out = (if keep then crlf x else []) @ concat k
        \<and> t = s\<lparr>rx_input_bytes := rx_input_bytes s + length (wire (x # hs)),
              rx_headers := rx_headers s + length (wire (x # hs)), rx_filter := f', rx_identities := i'\<rparr>)"
    (is "_ \<longleftrightarrow> ?a \<and> ?b \<and> ?c \<and> ?d")
  proof -
    have "(\<exists>kept f i. filter_lines (rx_filter s) (map crlf (x # hs)) = Ok (kept, f)
       \<and> idents sub (rx_identities s) (map crlf (x # hs)) i \<and> out = concat kept
       \<and> t = s\<lparr>rx_input_bytes := rx_input_bytes s + length (wire (x # hs)),
              rx_headers := rx_headers s + length (wire (x # hs)), rx_filter := f, rx_identities := i\<rparr>) \<longleftrightarrow> ?d"
      unfolding F unfolding list.map idents_Cons by (rule kept_exists)
    then show ?thesis unfolding header_spec_def by simp
  qed
  show ?thesis unfolding whole tail by blast
qed

lemma rx_lines_header:
  assumes "rx_in_headers s" "[] \<notin> set hs" "counters_ok l s"
  shows "rx_lines l sub bd s hs = Ok (out, t) \<longleftrightarrow> header_spec l sub bd s hs out t"
  using assms
proof (induction hs arbitrary: s out)
  case Nil
  then show ?case by (auto simp: header_spec_def idents_def counters_ok_def)
next
  case (Cons x hs)
  let ?n = "length (crlf x)"
  let ?s = "\<lambda>f i. s\<lparr>rx_input_bytes := rx_input_bytes s + ?n, rx_headers := rx_headers s + ?n,
              rx_filter := f, rx_identities := i\<rparr>"
  have x: "x \<noteq> []" and hs: "[] \<notin> set hs" using Cons.prems by auto
  note step = rx_line_header [OF Cons.prems(1) x Cons.prems(3), of sub bd]
  have IH: "rx_lines l sub bd (?s f i) hs = Ok (o', t) \<longleftrightarrow> header_spec l sub bd (?s f i) hs o' t"
    if "rx_input_bytes s + ?n \<le> message_bytes l" "rx_headers s + ?n \<le> header_bytes l" for f i o'
    using Cons.IH [of "?s f i" o'] Cons.prems(1,3) hs that by (simp add: counters_ok_def)
  have fits: "rx_input_bytes s + ?n \<le> message_bytes l \<and> rx_headers s + ?n \<le> header_bytes l"
    if "header_spec l sub bd (?s f i) hs o' t" for f i o'
    using that by (auto simp: header_spec_def)
  have "rx_lines l sub bd s (x # hs) = Ok (out, t) \<longleftrightarrow>
      (\<exists>keep s1 o'. rx_line l sub bd s (crlf x) = Ok (keep, s1) \<and> rx_lines l sub bd s1 hs = Ok (o', t)
        \<and> out = (if keep then crlf x else []) @ o')"
    by (auto simp: res_simps)
  also have "\<dots> \<longleftrightarrow> header_spec l sub bd s (x # hs) out t"
    unfolding step header_spec_Cons using IH fits by blast
  finally show ?case .
qed

lemma rx_lines_append_eq:
  "rx_lines l sub bd s (xs @ ys) =
     rbind (rx_lines l sub bd s xs) (\<lambda>(o1, u). rbind (rx_lines l sub bd u ys) (\<lambda>(o2, t). Ok (o1 @ o2, t)))"
  by (induction xs arbitrary: s) (simp_all add: rbind_def split: sum.splits prod.splits)

lemma rx_lines_append:
  "rx_lines l sub bd s (xs @ ys) = Ok (out, t) \<longleftrightarrow>
     (\<exists>o1 u o2. rx_lines l sub bd s xs = Ok (o1, u) \<and> rx_lines l sub bd u ys = Ok (o2, t) \<and> out = o1 @ o2)"
  unfolding rx_lines_append_eq by (auto simp: res_simps)

lemma rx_lines_body:
  assumes "\<not> rx_in_headers s" "counters_ok l s"
  shows "rx_lines l sub bd s bs = Ok (out, t) \<longleftrightarrow> (bd = SevenBit \<longrightarrow> list_all is_ascii bs)
    \<and> rx_input_bytes s + length (wire bs) \<le> message_bytes l \<and> out = wire bs
    \<and> t = s\<lparr>rx_input_bytes := rx_input_bytes s + length (wire bs)\<rparr>"
  using assms
proof (induction bs arbitrary: s out)
  case Nil
  then show ?case by (auto simp: counters_ok_def)
next
  case (Cons b bs)
  let ?s = "s\<lparr>rx_input_bytes := rx_input_bytes s + length (crlf b)\<rparr>"
  have step: "rx_line l sub bd s (crlf b) =
      (if bd = SevenBit \<and> \<not> is_ascii b then Err (SIo InvalidText)
       else if rx_input_bytes s + length (crlf b) > message_bytes l then Err (Storage SizeLimit) else Ok (True, ?s))"
    using Cons.prems by (auto simp: rx_line_def counters_ok_def checked_add_u64_def Let_def)
  show ?case
  proof (cases "(bd = SevenBit \<longrightarrow> is_ascii b) \<and> rx_input_bytes s + length (crlf b) \<le> message_bytes l")
    case True
    then have "rx_lines l sub bd s (b # bs) = Ok (out, t) \<longleftrightarrow>
        (\<exists>o1. rx_lines l sub bd ?s bs = Ok (o1, t) \<and> out = crlf b @ o1)"
      using step by (auto simp: res_simps)
    also have "\<dots> \<longleftrightarrow> (bd = SevenBit \<longrightarrow> list_all is_ascii bs)
      \<and> rx_input_bytes s + length (wire (b # bs)) \<le> message_bytes l \<and> out = wire (b # bs)
      \<and> t = s\<lparr>rx_input_bytes := rx_input_bytes s + length (wire (b # bs))\<rparr>"
      using Cons.IH [of ?s] Cons.prems True by (auto simp: counters_ok_def add.assoc)
    finally show ?thesis using True by simp
  next
    case False
    with step show ?thesis by (auto simp: not_le)
  qed
qed

lemma rx_lines_mail:
  assumes "[] \<notin> set hs" "message_bytes l \<le> u64_max" "header_bytes l \<le> u64_max"
    "(bd = SevenBit \<longrightarrow> list_all is_ascii (mail_lines hs bs))"
    "length (wire (mail_lines hs bs)) \<le> message_bytes l" "length (wire hs) + 2 \<le> header_bytes l"
    "filter_lines (if sub then submission else default_filter) (map crlf hs) = Ok (kept, f)"
    "idents sub default_identities (map crlf hs) i"
  shows "\<exists>t. rx_lines l sub bd (receive_new sub st d ws) (mail_lines hs bs) = Ok (concat kept @ CRLF @ wire bs, t)
    \<and> \<not> rx_in_headers t \<and> rx_identities t = i"
proof -
  let ?s = "receive_new sub st d ws"
  let ?u = "?s\<lparr>rx_input_bytes := length (wire hs), rx_headers := length (wire hs), rx_filter := f, rx_identities := i\<rparr>"
  let ?v = "?u\<lparr>rx_input_bytes := length (wire hs) + 2, rx_headers := length (wire hs) + 2, rx_in_headers := False\<rparr>"
  let ?t = "?v\<lparr>rx_input_bytes := length (wire hs) + 2 + length (wire bs)\<rparr>"
  have "header_spec l sub bd ?s hs (concat kept) ?u"
    using assms by (auto simp: header_spec_def receive_new_def mail_lines_def)
  then have h: "rx_lines l sub bd ?s hs = Ok (concat kept, ?u)"
    using rx_lines_header [of ?s hs l sub bd "concat kept" ?u] assms(1-3)
    by (simp add: receive_new_def counters_ok_def)
  have e: "rx_line l sub bd ?u CRLF = Ok (True, ?v)"
    using assms(2,3,5,6) by (simp add: rx_line_def receive_new_def checked_add_u64_def mail_lines_def)
  have b: "rx_lines l sub bd ?v bs = Ok (wire bs, ?t)"
    using rx_lines_body [of ?v l sub bd bs "wire bs" ?t] assms(2-6)
    by (auto simp: counters_ok_def mail_lines_def)
  have "rx_lines l sub bd ?u ([] # bs) = Ok (CRLF @ wire bs, ?t)" using e b by simp
  with h have "rx_lines l sub bd ?s (mail_lines hs bs) = Ok (concat kept @ CRLF @ wire bs, ?t)"
    unfolding mail_lines_def rx_lines_append by blast
  then show ?thesis by (intro exI [of _ ?t]) simp
qed

lemma receive_loop_complete:
  assumes "rx_lines l sub bd s (map undot fs) = Ok (out, t)" "list_all frame_fits fs"
    "concat chunks = wire fs @ crlf ''.'' @ later" "limit d = 1001" "rx_holds i mx d0 s content"
    "length content + length (out @ separator t) \<le> mx" "mx \<le> u64_max" "\<not> hook Append"
    "set (rx_script s) \<subseteq> {None}" "rx_author sub t a"
  shows "\<exists>s' rest. receive_loop hook l sub bd d s chunks = Some (Ok a, s', rest) \<and> concat rest = later
    \<and> rx_holds i mx d0 s' (content @ out @ separator t) \<and> set (rx_script s') \<subseteq> {None}"
  using assms
proof (induction fs arbitrary: s out chunks d content t)
  case Nil
  then have t: "t = s" "out = []" by auto
  from Nil have "concat chunks = crlf ''.'' @ later" by simp
  from receive_loop_dot [OF this Nil.prems(4)] obtain rest where rest: "concat rest = later"
    "receive_loop hook l sub bd d s chunks = map_option (\<lambda>(r, s'). (r, s', rest)) (rx_finish hook sub s)" by blast
  have "\<exists>s'. rx_finish hook sub s = Some (Ok a, s') \<and> set (rx_script s') \<subseteq> {None}"
    using rx_append_succeeds [OF Nil.prems(5), of CRLF hook] Nil.prems(6-10) t
    by (auto simp: rx_finish_def rx_author_def separator_def split: if_splits)
  then obtain s' where s': "rx_finish hook sub s = Some (Ok a, s')" "set (rx_script s') \<subseteq> {None}" by blast
  with rx_finish_holds [OF s'(1) Nil.prems(5)] rest t show ?case by auto
next
  case (Cons f fs)
  from Cons.prems(1) obtain keep s1 o1 where k: "rx_line l sub bd s (crlf (undot f)) = Ok (keep, s1)"
    "rx_lines l sub bd s1 (map undot fs) = Ok (o1, t)" "out = (if keep then crlf (undot f) else []) @ o1"
    by (auto simp: res_simps)
  have same: "rx_stage s1 = rx_stage s" "rx_disk s1 = rx_disk s" "rx_script s1 = rx_script s"
    using k(1) by (auto simp: rx_line_def Let_def split: if_splits option.splits sum.splits)
  then have h1: "rx_holds i mx d0 s1 content" using Cons.prems(5) by (simp add: rx_holds_def)
  have "\<exists>s2. rx_turn hook l sub bd s (crlf (undot f)) = Some (Ok (), s2) \<and> set (rx_script s2) \<subseteq> {None}"
    using rx_append_succeeds [OF h1, of "crlf (undot f)" hook] Cons.prems(6-9) k same
    by (auto simp: rx_turn_def)
  then obtain s2 where s2: "rx_turn hook l sub bd s (crlf (undot f)) = Some (Ok (), s2)" "set (rx_script s2) \<subseteq> {None}"
    by blast
  from rx_turn_holds [OF s2(1) Cons.prems(5)] k(1) obtain st dk ws where
    h2: "s2 = set_stage st dk ws s1" "rx_holds i mx d0 s2 (content @ (if keep then crlf (undot f) else []))" by auto
  have t2: "rx_lines l sub bd s2 (map undot fs) = Ok (o1, set_stage st dk ws t)"
    using k(2) h2(1) by (simp add: rx_lines_stage)
  have sep: "separator (set_stage st dk ws t) = separator t" "rx_author sub (set_stage st dk ws t) a"
    using Cons.prems(10) by (auto simp: separator_def rx_author_def)
  have c: "concat chunks = crlf f @ (wire fs @ crlf ''.'' @ later)" "frame_fits f" "list_all frame_fits fs"
    using Cons.prems(2,3) by auto
  obtain d' r where r: "limit d' = 1001" "concat r = wire fs @ crlf ''.'' @ later"
    "receive_loop hook l sub bd d s chunks = receive_loop hook l sub bd d' s2 r"
    using receive_loop_data [OF c(1,2) Cons.prems(4), of hook l sub bd s] s2(1) by auto
  have len: "length (content @ (if keep then crlf (undot f) else [])) + length (o1 @ separator (set_stage st dk ws t)) \<le> mx"
    using Cons.prems(6) k(3) sep by auto
  from Cons.IH [OF t2 c(3) r(2,1) h2(2) len Cons.prems(7,8) s2(2) sep(2)] show ?case
    using r(3) k(3) sep(1) by auto
qed

lemma rx_turn_returns:
  assumes "rx_holds i mx d0 s content"
  shows "rx_turn hook l sub bd s data \<noteq> None"
proof (cases "rx_line l sub bd s data")
  case (Inr p)
  then obtain keep s1 where k: "rx_line l sub bd s data = Ok (keep, s1)" by (cases p) auto
  then have "rx_stage s1 = rx_stage s" "rx_disk s1 = rx_disk s"
    by (auto simp: rx_line_def Let_def split: if_splits option.splits sum.splits)
  then have "rx_holds i mx d0 s1 content" using assms by (simp add: rx_holds_def)
  with rx_append_returns k show ?thesis by (auto simp: rx_turn_def)
qed (simp add: rx_turn_def)

lemma rx_finish_returns: "rx_holds i mx d0 s content \<Longrightarrow> rx_finish hook sub s \<noteq> None"
  using rx_append_returns [of i mx d0 s content hook CRLF]
  by (auto simp: rx_finish_def split: sum.splits option.splits)

lemma receive_loop_returns:
  assumes "limit d = 1001" "rx_holds i mx d0 s content"
  shows "receive_loop hook l sub bd d s chunks \<noteq> None"
  using assms
proof (induction "length (concat chunks)" arbitrary: chunks d s content rule: less_induct)
  case less
  consider (data) f later where "concat chunks = crlf f @ later" "frame_fits f"
    | (dot) later where "concat chunks = crlf ''.'' @ later"
    | (junk) "\<nexists>f later. concat chunks = crlf f @ later \<and> (f = ''.'' \<or> frame_fits f)" by blast
  then show ?case
  proof cases
    case data
    obtain d' r where r: "limit d' = 1001" "concat r = later"
      "receive_loop hook l sub bd d s chunks =
        (case rx_turn hook l sub bd s (crlf (undot f)) of
           None \<Rightarrow> None
         | Some (Err e, s1) \<Rightarrow> Some (Err e, s1, r)
         | Some (Ok _, s1) \<Rightarrow> receive_loop hook l sub bd d' s1 r)"
      using receive_loop_data [OF data less.prems(1)] by blast
    have shorter: "length (concat r) < length (concat chunks)" using data r(2) by simp
    have "receive_loop hook l sub bd d' s1 r \<noteq> None" if "rx_turn hook l sub bd s (crlf (undot f)) = Some (Ok u, s1)" for u s1
      using rx_turn_holds [OF that less.prems(2)] less.hyps [OF shorter r(1)] by blast
    with r(3) rx_turn_returns [OF less.prems(2)] show ?thesis by (auto split: option.splits sum.splits)
  next
    case dot
    from receive_loop_dot [OF dot less.prems(1), of hook l sub bd s] rx_finish_returns [OF less.prems(2)]
    show ?thesis by fastforce
  next
    case junk
    obtain r d' rest where fl: "fill_line (clear d) chunks = (r, d', rest)" by (metis prod_cases3)
    show ?thesis
    proof (cases "r = Ok True")
      case False
      then show ?thesis
        by (subst receive_loop.simps) (auto simp: fl split: sum.splits bool.splits)
    next
      case True
      with fill_line_iff [OF less.prems(1) fl] obtain f later where
        f: "concat chunks = crlf f @ later" "clean f" "length f + 2 \<le> 1001" "buffer d' = crlf f" by blast
      have "\<exists>e. decode_data_frame (crlf f) = Err e"
      proof (cases "decode_data_frame (crlf f)")
        case (Inr x)
        then have "f = ''.'' \<or> frame_fits f"
          using f(2,3) by (cases x) (auto simp: decode_frame_cases frame_fits_def)
        with f(1) junk show ?thesis by blast
      qed simp
      with True f show ?thesis by (subst receive_loop.simps) (auto simp: fl)
    qed
  qed
qed

section \<open>End to end\<close>

lemma receive_new_holds: "stage_inv d st [] \<Longrightarrow> rx_holds (st_id st) (st_max_size st) d (receive_new sub st d ws) []"
  by (simp add: rx_holds_def receive_new_def)

text \<open>A second filtering removes nothing.\<close>

lemma refilter:
  assumes "filter_lines f ls = Ok (kept, f')" "\<not> field_seen f" "\<not> field_seen g" "remove_bcc g \<longrightarrow> remove_bcc f"
  shows "\<exists>g'. filter_lines g kept = Ok (kept, g')"
proof -
  obtain fls where fls: "list_all field_ok fls"
    "kept = concat (map field_lines (filter (\<lambda>fl. \<not> removed_name (remove_bcc f) (field_name fl)) fls))"
    using filter_lines_iff [OF assms(2), of ls kept] assms(1) by blast
  let ?fls = "filter (\<lambda>fl. \<not> removed_name (remove_bcc f) (field_name fl)) fls"
  have "filter (\<lambda>fl. \<not> removed_name (remove_bcc g) (field_name fl)) ?fls = ?fls"
    using assms(4) unfolding filter_filter by (intro filter_cong) (auto simp: removed_name_def)
  moreover have "list_all field_ok ?fls" using fls(1) by (auto simp: list_all_iff)
  ultimately show ?thesis
    using filter_lines_iff [OF assms(3), of kept kept] fls(2) by metis
qed

lemma filter_lines_lines:
  assumes "filter_lines f (map crlf hs) = Ok (kept, f')" "[] \<notin> set hs" "list_all line_fits hs"
  shows "\<exists>ks. kept = map crlf ks \<and> set ks \<subseteq> set hs \<and> list_all is_ascii ks \<and> length (wire ks) \<le> length (wire hs)"
  using assms
proof (induction hs arbitrary: f kept)
  case (Cons x hs)
  from Cons.prems(1) obtain k f1 kept1 where r: "retain f (crlf x) = Ok (k, f1)"
    "filter_lines f1 (map crlf hs) = Ok (kept1, f')" "kept = (if k then [crlf x] else []) @ kept1"
    by (auto simp: res_simps)
  from Cons.IH [OF r(2)] Cons.prems(2,3) obtain ks where
    ks: "kept1 = map crlf ks" "set ks \<subseteq> set hs" "list_all is_ascii ks" "length (wire ks) \<le> length (wire hs)" by auto
  have "is_ascii x"
    using r(1) by (auto simp: retain_def res_simps strip_suffix_Some_iff header_bytes_ok_def split: if_splits)
  with r(3) ks show ?case
    by (intro exI [of _ "(if k then [x] else []) @ ks"]) auto
qed simp

lemma receive_stuffed:
  assumes "rx_lines l sub bd (receive_new sub st d ws) ls = Ok (out, t)" "list_all line_fits ls"
    "concat chunks = stuffed ls @ crlf ''.'' @ later" "stage_inv d st []"
    "length pre + length (out @ separator t) \<le> st_max_size st" "st_max_size st \<le> u64_max"
    "blobs d (st_id st) = None" "valid_id (st_id st)" "set ws \<subseteq> {None}" "rx_author sub t a"
    "content = out @ separator t"
  shows "\<exists>p st' d' rest. receive_message sha256 (\<lambda>_. False) (\<lambda>_. False) l sub bd pre st d ws chunks
      = Some (Ok (p, a), st', d', rest)
    \<and> concat rest = later \<and> blobs d' = (blobs d)(st_id st \<mapsto> pre @ content) \<and> pr_hash p = sha256 (pre @ content)"
proof -
  let ?h = "rx_holds (st_id st) (st_max_size st) d" and ?q = "\<lambda>_. False"
  obtain s where s: "rx_append ?q (receive_new sub st d ws) pre = Some (Ok (), s)" "set (rx_script s) \<subseteq> {None}"
    using rx_append_succeeds [OF receive_new_holds [OF assms(4)], of pre ?q sub ws] assms(5,6,9)
    by (auto simp: receive_new_def)
  from rx_append_holds [OF receive_new_holds [OF assms(4)] s(1)] obtain st1 d1 ws1 where
    h: "?h s pre" "s = set_stage st1 d1 ws1 (receive_new sub st d ws)" by auto
  let ?fs = "map dot_line ls" and ?t = "set_stage st1 d1 ws1 t"
  have w: "stuffed ls = wire ?fs" by (induction ls) (auto simp: dot_line_simps)
  have u: "map undot ?fs = ls" by (simp add: dot_line_simps o_def)
  have "rx_lines l sub bd s (map undot ?fs) = Ok (out, ?t)" using assms(1) h(2) u by (simp add: rx_lines_stage)
  moreover have "list_all frame_fits ?fs" using assms(2) line_fits_frame by (auto simp: list_all_iff)
  moreover have "rx_author sub ?t a" "separator ?t = separator t"
    using assms(10) by (auto simp: rx_author_def separator_def)
  ultimately obtain s' rest where r: "receive_loop ?q l sub bd (new_decoder 1001) s chunks = Some (Ok a, s', rest)"
    "concat rest = later" "?h s' (pre @ content)" "set (rx_script s') \<subseteq> {None}"
    using receive_loop_complete [of l sub bd s ?fs out ?t chunks later "new_decoder 1001"
        "st_id st" "st_max_size st" d pre ?q a]
      assms(3,5,6,11) h(1) s(2) w by (auto simp: new_decoder_def)
  from r(3) have st': "stage_inv (rx_disk s') (rx_stage s') (pre @ content)" "st_id (rx_stage s') = st_id st"
    "blobs (rx_disk s') = blobs d" by (auto simp: rx_holds_def)
  obtain p st2 d2 where p: "prepare_stage sha256 ?q ?q (rx_script s') (rx_stage s') (rx_disk s') = (Ok p, st2, d2)"
    using prepare_stage_succeeds [OF st'(1) refl refl r(4), of sha256] st'(2,3) assms(7,8) by auto
  from prepare_publishes_result [OF st'(1) p] st'(2,3) r s p show ?thesis
    by (simp add: receive_message_def)
qed

lemma prepare_lines:
  assumes "prepare lim cs = Ok snap"
  obtains ks bs g where "snap_contents snap = wire (mail_lines ks bs)" "[] \<notin> set ks"
    "list_all line_fits (mail_lines ks bs)" "list_all is_ascii ks" "snap_body snap = body_kind bs"
    "length (wire ks) + 2 \<le> in_header_bytes lim" "snap_size snap = length (snap_contents snap)"
    "\<And>f. \<not> field_seen f \<Longrightarrow> \<exists>f'. filter_lines f (map crlf ks) = Ok (map crlf ks, f')"
proof -
  from assms [unfolded prepare_char Let_def] obtain hs bs fls where
    h: "list_all line_fits (mail_lines hs bs)" "[] \<notin> set hs" "map crlf hs = concat (map field_lines fls)"
    "list_all field_ok fls" "length (wire hs) + 2 \<le> in_header_bytes lim"
    "snap = \<lparr>snap_contents = concat (concat (map field_lines (filter (\<lambda>fl. \<not> removed_name True (field_name fl)) fls)))
       @ CRLF @ wire bs, snap_size = length (concat (concat (map field_lines
       (filter (\<lambda>fl. \<not> removed_name True (field_name fl)) fls))) @ CRLF @ wire bs), snap_body = body_kind bs\<rparr>" by blast
  let ?kept = "concat (map field_lines (filter (\<lambda>fl. \<not> removed_name True (field_name fl)) fls))"
  have sub: "\<not> field_seen submission" "remove_bcc submission" by (auto simp: submission_def default_filter_def)
  with filter_lines_iff [OF sub(1), of "map crlf hs" ?kept] h(3,4) obtain f'
    where f': "filter_lines submission (map crlf hs) = Ok (?kept, f')" by auto
  have "list_all line_fits hs" using h(1) by (simp add: mail_lines_def)
  from filter_lines_lines [OF f' h(2) this] obtain ks where
    ks: "?kept = map crlf ks" "set ks \<subseteq> set hs" "list_all is_ascii ks" "length (wire ks) \<le> length (wire hs)" by blast
  have "snap_contents snap = wire (mail_lines ks bs)" using h(6) ks(1) by (simp add: mail_lines_def wire_def)
  moreover have "[] \<notin> set ks" "list_all line_fits (mail_lines ks bs)"
    using ks(2) h(1,2) by (auto simp: mail_lines_def list_all_iff)
  moreover have "\<exists>g'. filter_lines g (map crlf ks) = Ok (map crlf ks, g')" if "\<not> field_seen g" for g
    using refilter [OF f' sub(1) that] sub(2) ks(1) by simp
  ultimately show ?thesis using that ks(3,4) h(5,6) by simp
qed

lemma round_trip:
  assumes prep: "prepare lim cs = Ok snap"
    and m: "m_omit_prefix m = []" "m_stored_size m = snap_size snap" "m_body m = snap_body snap"
    and rs: "concat rs = snap_contents snap"
    and l: "snap_size snap \<le> message_bytes l" "message_bytes l \<le> u64_max"
      "in_header_bytes lim \<le> header_bytes l" "header_bytes l \<le> u64_max"
    and st: "stage_inv d st []" "length pre + snap_size snap \<le> st_max_size st" "st_max_size st \<le> u64_max"
      "blobs d (st_id st) = None" "valid_id (st_id st)" "set ws \<subseteq> {None}"
    and bd: "bd = EightBitMime \<or> bd = snap_body snap"
    and who: "sub \<longrightarrow> (\<forall>ks bs. snap_contents snap = wire (mail_lines ks bs) \<and> [] \<notin> set ks \<and> list_all line_fits (mail_lines ks bs) \<longrightarrow>
      (\<exists>i. fold_res identities_line default_identities (map crlf ks) = Ok i \<and> identities_finish i = Ok who))"
  shows "\<exists>w. send_body m (map (\<lambda>b. Got b True) rs) = (Ok (), w) \<and>
    (\<forall>chunks later. concat chunks = w @ crlf ''.'' @ later \<longrightarrow>
      (\<exists>p st' d' rest. receive_message sha256 (\<lambda>_. False) (\<lambda>_. False) l sub bd pre st d ws chunks
          = Some (Ok (p, if sub then Some who else None), st', d', rest)
        \<and> concat rest = later \<and> blobs d' = (blobs d)(st_id st \<mapsto> pre @ snap_contents snap)
        \<and> pr_hash p = sha256 (pre @ snap_contents snap)))"
proof -
  obtain ks bs where k: "snap_contents snap = wire (mail_lines ks bs)" "[] \<notin> set ks"
    "list_all line_fits (mail_lines ks bs)" "list_all is_ascii ks" "snap_body snap = body_kind bs"
    "length (wire ks) + 2 \<le> in_header_bytes lim" "snap_size snap = length (snap_contents snap)"
    "\<And>f. \<not> field_seen f \<Longrightarrow> \<exists>f'. filter_lines f (map crlf ks) = Ok (map crlf ks, f')"
    by (rule prepare_lines [OF prep]) blast
  let ?ls = "mail_lines ks bs"
  let ?w = "stuffed ?ls"
  have seven: "body_kind bs = SevenBit \<longrightarrow> list_all is_ascii bs" by (simp add: body_kind_def split: if_splits)
  have cap: "m_stored_size m \<le> u64_max" using m(2) l(1,2) by simp
  have sent: "send_body m (map (\<lambda>b. Got b True) rs) = (Ok (), ?w)"
    unfolding send_body_char [OF cap] using k(1-5,7) rs m seven
    by (intro exI [of _ rs] exI [of _ ks] exI [of _ bs]) (auto simp: omits_def transmitted_def)
  have ascii: "bd = SevenBit \<longrightarrow> list_all is_ascii ?ls" using bd k(4,5) seven by (auto simp: mail_lines_def)
  obtain i where i: "idents sub default_identities (map crlf ks) i" "sub \<longrightarrow> identities_finish i = Ok who"
    using who k(1-3) by (cases sub) (auto simp: idents_def)
  obtain f' where f': "filter_lines (if sub then submission else default_filter) (map crlf ks) = Ok (map crlf ks, f')"
    using k(8) [of submission] k(8) [of default_filter]
    by (cases sub) (auto simp: submission_def default_filter_def)
  have sizes: "length (wire ?ls) \<le> message_bytes l" "length (wire ks) + 2 \<le> header_bytes l" using k(1,6,7) l by auto
  obtain t where t: "rx_lines l sub bd (receive_new sub st d ws) ?ls = Ok (concat (map crlf ks) @ CRLF @ wire bs, t)"
    "\<not> rx_in_headers t" "rx_identities t = i"
    using rx_lines_mail [OF k(2) l(2,4) ascii sizes f' i(1)] by blast
  have out: "concat (map crlf ks) @ CRLF @ wire bs = snap_contents snap" using k(1) by (simp add: mail_lines_def wire_def)
  show ?thesis
  proof (intro exI [of _ ?w] conjI sent allI impI)
    fix chunks later
    assume c: "concat chunks = ?w @ crlf ''.'' @ later"
    show "\<exists>p st' d' rest. receive_message sha256 (\<lambda>_. False) (\<lambda>_. False) l sub bd pre st d ws chunks
          = Some (Ok (p, if sub then Some who else None), st', d', rest)
        \<and> concat rest = later \<and> blobs d' = (blobs d)(st_id st \<mapsto> pre @ snap_contents snap)
        \<and> pr_hash p = sha256 (pre @ snap_contents snap)"
      by (rule receive_stuffed [OF _ _ c]) (use t i out k(3,7) st in \<open>auto simp: rx_author_def separator_def\<close>)
  qed
qed

section \<open>A sample exchange\<close>

definition sample_mail :: bytes where
  "sample_mail = ''From: a@b.test'' @ CRLF @ CRLF @ ''.hi'' @ CRLF"

definition sample_limits :: input_limits where
  "sample_limits = \<lparr>in_message_bytes = 1024, in_header_bytes = 1024\<rparr>"

lemma sample_lines:
  "sample_mail = wire (mail_lines [''From: a@b.test''] [''.hi''])"
  "list_all line_fits (mail_lines [''From: a@b.test''] [''.hi''])"
  by (simp_all add: sample_mail_def mail_lines_def line_fits_def clean_def)

lemma sample_field: "field_ok (''From: a@b.test'' @ CRLF, [])"
proof -
  have "line_ok (''From: a@b.test'' @ CRLF)"
    unfolding line_ok_def by (intro exI [of _ "''From: a@b.test''"]) (simp add: header_bytes_ok_def ascii_simps code_def)
  moreover have "\<exists>name rest. ''From: a@b.test'' @ CRLF = name @ CHR '':'' # rest @ CRLF \<and> name \<noteq> []
      \<and> list_all token_byte name \<and> CHR '':'' \<notin> set name"
    by (intro exI [of _ "''From''"] exI [of _ "'' a@b.test''"]) (simp add: token_byte_def code_def)
  ultimately show ?thesis by (simp add: field_ok_def head_line_def)
qed

lemma sample_prepared:
  "prepare sample_limits [sample_mail]
    = Ok \<lparr>snap_contents = sample_mail, snap_size = length sample_mail, snap_body = SevenBit\<rparr>"
proof -
  have n: "\<not> removed_name True (field_name (''From: a@b.test'' @ CRLF, []))"
    by (simp add: field_name_def removed_name_def eq_ignore_ascii_case_def)
  show ?thesis
    unfolding prepare_char Let_def
    by (intro conjI exI [of _ "[''From: a@b.test'']"] exI [of _ "[''.hi'']"] exI [of _ "[(''From: a@b.test'' @ CRLF, [])]"])
      (use sample_lines sample_field n in \<open>simp_all add: sample_limits_def input_limits_validate_def field_lines_def
          sample_mail_def mail_lines_def body_kind_def ascii_simps code_def\<close>)
qed

definition sample_id :: string where
  "sample_id = replicate 32 CHR ''a''"

definition sample_stage :: staged where
  "sample_stage = \<lparr>st_id = sample_id, st_open = True, st_staged = True, st_reservation = 4096, st_buffer = [],
     st_buffer_limit = 1024, st_hash = [], st_size = 0, st_max_size = 4096, st_poisoned = False\<rparr>"

definition sample_disk :: disk where
  "sample_disk = \<lparr>staging = [sample_id \<mapsto> []], blobs = Map.empty, reserved = 4096\<rparr>"

definition sample_server_limits :: limits where
  "sample_server_limits = \<lparr>connections = 1, connections_per_ip = 1, tls_handshakes = 1, message_bytes = 2048,
     header_bytes = 1024, recipients_per_message = 1, ingest_concurrency = 1, stream_buffer_bytes = 1024,
     disk_reserve_bytes = 1, disk_reserve_percent = 1, temporary_reserved_bytes = 4096\<rparr>"

definition sample_message :: message where
  "sample_message = \<lparr>m_sender = None, m_recipient = Address ''a@b.test'', m_body = SevenBit,
     m_stored_size = length sample_mail, m_omit_prefix = []\<rparr>"

lemma sample_stage_inv: "stage_inv sample_disk sample_stage []"
  by (simp add: stage_inv_def sample_disk_def sample_stage_def stage_file_def)

lemma sample_id_valid: "valid_id sample_id"
  by (simp add: valid_id_def sample_id_def list_all_iff is_ascii_digit_def code_def)

lemma sample_length: "length sample_mail = 23"
  by (simp add: sample_mail_def)

lemmas sample_round_trip = round_trip [of sample_limits "[sample_mail]"
  "\<lparr>snap_contents = sample_mail, snap_size = length sample_mail, snap_body = SevenBit\<rparr>" sample_message "[sample_mail]"
  sample_server_limits sample_disk sample_stage "''X: y'' @ CRLF" "[]" SevenBit False "Address ''a@b.test''" "\<lambda>b. b"]

lemma sample_received:
  "\<exists>w p st' d' rest. send_body sample_message [Got sample_mail True] = (Ok (), w) \<and>
    receive_message (\<lambda>b. b) (\<lambda>_. False) (\<lambda>_. False) sample_server_limits False SevenBit (''X: y'' @ CRLF)
      sample_stage sample_disk [] [w @ crlf ''.'' @ ''QUIT''] = Some (Ok (p, None), st', d', rest)"
proof -
  obtain w where w: "send_body sample_message (map (\<lambda>b. Got b True) [sample_mail]) = (Ok (), w)"
    "\<forall>chunks later. concat chunks = w @ crlf ''.'' @ later \<longrightarrow>
      (\<exists>p st' d' rest. receive_message (\<lambda>b. b) (\<lambda>_. False) (\<lambda>_. False) sample_server_limits False SevenBit
          (''X: y'' @ CRLF) sample_stage sample_disk [] chunks
          = Some (Ok (p, if False then Some (Address ''a@b.test'') else None), st', d', rest)
        \<and> concat rest = later \<and> blobs d' = (blobs sample_disk)(st_id sample_stage \<mapsto> (''X: y'' @ CRLF) @ sample_mail)
        \<and> pr_hash p = (''X: y'' @ CRLF) @ sample_mail)"
    using sample_round_trip sample_prepared sample_stage_inv sample_id_valid sample_length
    by (auto simp: sample_message_def sample_limits_def sample_server_limits_def sample_disk_def sample_stage_def u64_max_def)
  from w(2) [rule_format, of "[w @ crlf ''.'' @ ''QUIT'']" "''QUIT''"] w(1) show ?thesis by auto
qed

text \<open>Property C39. A body counts as sent exactly when every read and write succeeded and the bytes
  read, however they were cut, are the whole stored message: clean CRLF lines of the announced
  total size, ASCII wherever 8-bit is not announced, starting with the prefix to omit. The wire
  then carries the remaining lines with leading dots doubled, and nothing else.\<close>

theorem send_body_exact:
  assumes "m_stored_size m \<le> u64_max"
  shows "send_body m ps = (Ok (), w) \<longleftrightarrow>
    (\<exists>cs hs bs. ps = map (\<lambda>b. Got b True) cs \<and> concat cs = wire (mail_lines hs bs) \<and> [] \<notin> set hs
      \<and> list_all line_fits (mail_lines hs bs) \<and> length (concat cs) = m_stored_size m
      \<and> list_all is_ascii hs \<and> (m_body m = SevenBit \<longrightarrow> list_all is_ascii bs) \<and> omits m (mail_lines hs bs)
      \<and> w = stuffed (transmitted m (mail_lines hs bs)))"
  using assms by (rule send_body_char)

theorem send_body_exact_witness:
  "\<exists>w. send_body sample_message [Got sample_mail True] = (Ok (), w) \<and>
    (\<exists>cs hs bs. [Got sample_mail True] = map (\<lambda>b. Got b True) cs \<and> concat cs = wire (mail_lines hs bs) \<and> [] \<notin> set hs
      \<and> w = stuffed (transmitted sample_message (mail_lines hs bs)))"
proof -
  obtain w where w: "send_body sample_message [Got sample_mail True] = (Ok (), w)" using sample_received by blast
  have "m_stored_size sample_message \<le> u64_max" by (simp add: sample_message_def sample_length u64_max_def)
  from w [unfolded send_body_exact [OF this]] obtain cs hs bs where
    "[Got sample_mail True] = map (\<lambda>b. Got b True) cs" "concat cs = wire (mail_lines hs bs)" "[] \<notin> set hs"
    "w = stuffed (transmitted sample_message (mail_lines hs bs))" by (elim exE conjE)
  with w show ?thesis by (intro exI [of _ w] conjI exI [of _ cs] exI [of _ hs] exI [of _ bs])
qed

lemma received_content:
  assumes inv: "stage_inv d st []"
    and r: "receive_message sha256 hook fails l sub bd pre st d ws chunks = Some (Ok (p, a), st', d', rest)"
  shows "\<exists>fs out t. concat chunks = wire fs @ crlf ''.'' @ concat rest \<and> list_all frame_fits fs
    \<and> rx_lines l sub bd (receive_new sub st d ws) (map undot fs) = Ok (out, t) \<and> rx_author sub t a
    \<and> (let content = pre @ out @ separator t in
        blobs d' = (blobs d)(st_id st \<mapsto> content) \<and> blobs d (st_id st) = None
        \<and> pr_id p = st_id st \<and> pr_size p = length content \<and> pr_hash p = sha256 content)"
proof -
  let ?h = "rx_holds (st_id st) (st_max_size st) d"
  obtain u s where s: "rx_append hook (receive_new sub st d ws) pre = Some (Ok u, s)"
    using r by (auto simp: receive_message_def split: option.splits sum.splits prod.splits)
  with r obtain a1 s' rest1 where l: "receive_loop hook l sub bd (new_decoder 1001) s chunks = Some (Ok a1, s', rest1)"
    by (auto simp: receive_message_def split: option.splits sum.splits prod.splits)
  with r s have p: "prepare_stage sha256 hook fails (rx_script s') (rx_stage s') (rx_disk s') = (Ok p, st', d')"
    and eqs: "a1 = a" "rest1 = rest"
    by (auto simp: receive_message_def split: sum.splits prod.splits)
  from rx_append_holds [OF receive_new_holds [OF inv] s] obtain st1 d1 ws1 where
    h: "?h s pre" "s = set_stage st1 d1 ws1 (receive_new sub st d ws)" by auto
  have lim: "limit (new_decoder 1001) = 1001" by (simp add: new_decoder_def)
  from receive_loop_sound [OF l lim h(1)] eqs obtain fs out t where
    *: "concat chunks = wire fs @ crlf ''.'' @ concat rest" "list_all frame_fits fs"
    "rx_lines l sub bd s (map undot fs) = Ok (out, t)" "rx_author sub t a" "?h s' (pre @ out @ separator t)" by blast
  from *(3) h(2) obtain t2 where t2: "rx_lines l sub bd (receive_new sub st d ws) (map undot fs) = Ok (out, t2)"
    "t = set_stage st1 d1 ws1 t2" by (auto simp: rx_lines_stage res_simps)
  then have same: "rx_author sub t2 a" "separator t = separator t2" using *(4) by (auto simp: rx_author_def separator_def)
  from *(5) have st: "stage_inv (rx_disk s') (rx_stage s') (pre @ out @ separator t)" "st_id (rx_stage s') = st_id st"
    "blobs (rx_disk s') = blobs d" by (auto simp: rx_holds_def)
  from prepare_publishes_result [OF st(1) p] st(2,3) same(2)
  have "blobs d' = (blobs d)(st_id st \<mapsto> pre @ out @ separator t2)" "blobs d (st_id st) = None" "pr_id p = st_id st"
    "pr_size p = length (pre @ out @ separator t2)" "pr_hash p = sha256 (pre @ out @ separator t2)" by auto
  with *(1,2) t2(1) same(1) show ?thesis
    by (intro exI [of _ fs] exI [of _ out] exI [of _ t2]) (simp add: Let_def)
qed



text \<open>Property C4. A snapshot that the client prepared is sent completely whatever the sizes of the
  reads, and a server that receives those octets, in pieces of any size, followed by the final dot
  and by anything else, within its limits and without disk failures, stores exactly its
  own prefix followed by the snapshot, and resumes after the dot. On a submission port the
  author is the one the snapshot's From field pins.\<close>

theorem submission_round_trip:
  assumes prep: "prepare lim cs = Ok snap"
    and m: "m_omit_prefix m = []" "m_stored_size m = snap_size snap" "m_body m = snap_body snap"
    and rs: "concat rs = snap_contents snap"
    and l: "snap_size snap \<le> message_bytes l" "message_bytes l \<le> u64_max"
      "in_header_bytes lim \<le> header_bytes l" "header_bytes l \<le> u64_max"
    and st: "stage_inv d st []" "length pre + snap_size snap \<le> st_max_size st" "st_max_size st \<le> u64_max"
      "blobs d (st_id st) = None" "valid_id (st_id st)" "set ws \<subseteq> {None}"
    and bd: "bd = EightBitMime \<or> bd = snap_body snap"
    and who: "sub \<longrightarrow> (\<forall>ks bs. snap_contents snap = wire (mail_lines ks bs) \<and> [] \<notin> set ks \<and> list_all line_fits (mail_lines ks bs) \<longrightarrow>
      (\<exists>i. fold_res identities_line default_identities (map crlf ks) = Ok i \<and> identities_finish i = Ok who))"
  shows "\<exists>w. send_body m (map (\<lambda>b. Got b True) rs) = (Ok (), w) \<and>
    (\<forall>chunks later. concat chunks = w @ crlf ''.'' @ later \<longrightarrow>
      (\<exists>p st' d' rest. receive_message sha256 (\<lambda>_. False) (\<lambda>_. False) l sub bd pre st d ws chunks
          = Some (Ok (p, if sub then Some who else None), st', d', rest)
        \<and> concat rest = later \<and> blobs d' = (blobs d)(st_id st \<mapsto> pre @ snap_contents snap)
        \<and> pr_hash p = sha256 (pre @ snap_contents snap)))"
  by (rule round_trip [OF assms])

theorem submission_round_trip_witness:
  "\<exists>w. send_body sample_message [Got sample_mail True] = (Ok (), w)"
  using submission_round_trip [of sample_limits "[sample_mail]"
  "\<lparr>snap_contents = sample_mail, snap_size = length sample_mail, snap_body = SevenBit\<rparr>" sample_message "[sample_mail]"
  sample_server_limits sample_disk sample_stage "''X: y'' @ CRLF" "[]" SevenBit False "Address ''a@b.test''" "\<lambda>b. b"]
    sample_prepared sample_stage_inv sample_id_valid sample_length
  by (auto simp: sample_message_def sample_limits_def sample_server_limits_def sample_disk_def sample_stage_def u64_max_def)

lemma receive_message_ends:
  assumes "stage_inv d st []"
  shows "\<exists>r. receive_message sha256 hook fails l sub bd pre st d ws chunks = Some r"
proof -
  note h = receive_new_holds [OF assms, of sub ws]
  obtain r s where r: "rx_append hook (receive_new sub st d ws) pre = Some (r, s)"
    using rx_append_returns [OF h, of hook pre] by fastforce
  show ?thesis
  proof (cases r)
    case (Inr u)
    with rx_append_holds [OF h, of hook pre u s] r have "rx_holds (st_id st) (st_max_size st) d s pre" by simp
    with receive_loop_returns [of "new_decoder 1001"] Inr r show ?thesis
      by (fastforce simp: receive_message_def new_decoder_def split: option.splits sum.splits prod.splits)
  qed (use r in \<open>simp add: receive_message_def\<close>)
qed

end
