(* ===== verification/Smtp_Client.thy ===== *)
theory Smtp_Client
  imports Mail_Transfer
begin

text \<open>
  The SMTP transport of \<open>crates/client/src/smtp.rs\<close>: \<open>response\<close>, \<open>command\<close>, \<open>envelope_pipeline\<close>,
  \<open>upgrade\<close>, \<open>try_attempt\<close> and \<open>attempt\<close>. A connection holds the chunks the peer will still
  deliver, the outcomes of the writes to come, and the log of what the client did. The end of
  the chunks stands for the end of input, a read error and a deadline alike: all three are
  \<open>io::Error\<close>s, which the code turns into \<open>Failure::Connection\<close>. The TLS library is a parameter: whether
  the handshake succeeds and which chunks arrive on the new stream. The second buffer check of
  \<open>envelope_pipeline\<close> (\<open>wire.buffer()\<close>) has no counterpart, since the outer reader's buffer
  has been drained into the inner one of the same capacity.
\<close>

section \<open>Responses\<close>

record capabilities =
  cap_pipelining :: bool
  cap_starttls :: bool
  cap_eight_bit :: bool
  cap_plain :: bool
  cap_size :: "nat option option"

record response =
  resp_code :: nat
  resp_capabilities :: capabilities

definition no_capabilities :: capabilities where
  "no_capabilities = \<lparr>cap_pipelining = False, cap_starttls = False, cap_eight_bit = False, cap_plain = False,
     cap_size = None\<rparr>"

definition reply_number :: "bytes \<Rightarrow> nat" where
  "reply_number l = digit_value (l ! 0) * 100 + digit_value (l ! 1) * 10 + digit_value (l ! 2)"

definition bad_reply_line :: "nat \<Rightarrow> bytes \<Rightarrow> bool" where
  "bad_reply_line tot l \<longleftrightarrow> tot > 16384 \<or> length l < 3 \<or> \<not> list_all is_ascii_digit (take 3 l) \<or> \<not> is_ascii l
     \<or> list_ex (\<lambda>b. is_ascii_control b \<and> b \<noteq> TAB) l"

definition separator_byte :: "bytes \<Rightarrow> byte" where
  "separator_byte l = (if length l > 3 then l ! 3 else SP)"

definition learn :: "bytes \<Rightarrow> capabilities \<Rightarrow> io_error + capabilities" where
  "learn l c =
     (case split_ascii_whitespace (drop 4 l) of
        [] \<Rightarrow> Ok c
      | w # ws \<Rightarrow>
         (let k = to_ascii_uppercase w in
          if k = ''PIPELINING'' then Ok (c\<lparr>cap_pipelining := True\<rparr>)
          else if k = ''STARTTLS'' then Ok (c\<lparr>cap_starttls := True\<rparr>)
          else if k = ''8BITMIME'' then Ok (c\<lparr>cap_eight_bit := True\<rparr>)
          else if k = ''AUTH'' then Ok (c\<lparr>cap_plain := list_ex (\<lambda>s. eq_ignore_ascii_case s ''PLAIN'') ws\<rparr>)
          else if k = ''SIZE'' then
            (case ws of
               [] \<Rightarrow> Ok (c\<lparr>cap_size := Some None\<rparr>)
             | v # _ \<Rightarrow> (case parse_u64 v of None \<Rightarrow> Err OtherIo | Some n \<Rightarrow> Ok (c\<lparr>cap_size := Some (Some n)\<rparr>)))
          else Ok c))"

text \<open>The loop over at most 64 lines: lines left, index, code so far, bytes so far, capabilities.\<close>

fun response_loop ::
  "bool \<Rightarrow> nat \<Rightarrow> nat \<Rightarrow> nat option \<Rightarrow> nat \<Rightarrow> capabilities \<Rightarrow> bytes list \<Rightarrow> (io_error + response) \<times> bytes list" where
  "response_loop capture 0 index cd tot caps chunks = (Err OtherIo, chunks)"
| "response_loop capture (Suc n) index cd tot caps chunks =
     (case read_line 512 chunks of
        (Err e, rest) \<Rightarrow> (Err e, rest)
      | (Ok None, rest) \<Rightarrow> (Err OtherIo, rest)
      | (Ok (Some l), rest) \<Rightarrow>
          let tot' = tot + length l + 2 in
          if bad_reply_line tot' l then (Err OtherIo, rest)
          else let number = reply_number l in
          if \<not> (200 \<le> number \<and> number < 600) \<or> (case cd of None \<Rightarrow> False | Some old \<Rightarrow> old \<noteq> number)
          then (Err OtherIo, rest)
          else let sep = separator_byte l in
          if sep \<noteq> SP \<and> sep \<noteq> CHR ''-'' then (Err OtherIo, rest)
          else (case (if capture \<and> index > 0 \<and> number = 250 then learn l caps else Ok caps) of
            Err e \<Rightarrow> (Err e, rest)
          | Ok caps' \<Rightarrow>
              if sep = SP then (Ok \<lparr>resp_code = number, resp_capabilities = caps'\<rparr>, rest)
              else response_loop capture n (index + 1) (Some number) tot' caps' rest))"

definition read_response :: "bool \<Rightarrow> bytes list \<Rightarrow> (io_error + response) \<times> bytes list" where
  "read_response capture chunks = response_loop capture 64 0 None 0 no_capabilities chunks"

section \<open>The connection\<close>

datatype wire_event = Sent bytes | Upgraded | MarkedBody

record conn =
  c_in :: "bytes list"
  c_writes :: "bool list"
  c_log :: "wire_event list"

type_synonym 'a exchange = "conn \<Rightarrow> (failure + 'a) \<times> conn"

definition ret :: "'a \<Rightarrow> 'a exchange" where
  "ret x c = (Ok x, c)"

definition fail :: "failure \<Rightarrow> 'a exchange" where
  "fail f c = (Err f, c)"

definition bind :: "'a exchange \<Rightarrow> ('a \<Rightarrow> 'b exchange) \<Rightarrow> 'b exchange" where
  "bind m k c = (case m c of (Err f, c') \<Rightarrow> (Err f, c') | (Ok x, c') \<Rightarrow> k x c')"

text \<open>\<open>if cond \{ return Err(f) \}\<close>.\<close>

definition guard :: "bool \<Rightarrow> failure \<Rightarrow> unit exchange" where
  "guard ok f = (if ok then ret () else fail f)"

definition write_wire :: "bytes \<Rightarrow> unit exchange" where
  "write_wire b c =
     (case c_writes c of
        False # ws \<Rightarrow> (Err Connection, c\<lparr>c_writes := ws\<rparr>)
      | True # ws \<Rightarrow> (Ok (), c\<lparr>c_writes := ws, c_log := c_log c @ [Sent b]\<rparr>)
      | [] \<Rightarrow> (Ok (), c\<lparr>c_log := c_log c @ [Sent b]\<rparr>))"

definition get_response :: "bool \<Rightarrow> response exchange" where
  "get_response capture c =
     (case read_response capture (c_in c) of
        (Err _, rest) \<Rightarrow> (Err Connection, c\<lparr>c_in := rest\<rparr>)
      | (Ok r, rest) \<Rightarrow> (Ok r, c\<lparr>c_in := rest\<rparr>))"

definition send_command :: "bytes \<Rightarrow> bool \<Rightarrow> response exchange" where
  "send_command b capture = bind (write_wire b) (\<lambda>_. get_response capture)"

definition get_code :: "bytes \<Rightarrow> nat exchange" where
  "get_code b = bind (send_command b False) (\<lambda>r. ret (resp_code r))"

record tls_peer =
  handshake_ok :: bool
  tls_in :: "bytes list"

text \<open>\<open>upgrade\<close>: the plaintext read ahead is dropped with its reader.\<close>

definition upgrade :: "bool \<Rightarrow> tls_peer \<Rightarrow> unit exchange" where
  "upgrade has_tls p c =
     (if \<not> has_tls \<or> \<not> handshake_ok p then (Err Setup, c)
      else (Ok (), c\<lparr>c_in := tls_in p, c_log := c_log c @ [Upgraded]\<rparr>))"

record smtp_client =
  sc_greeting :: string
  sc_tls :: bool
  sc_starttls :: bool
  sc_authorization :: "string option"

datatype attempt_result = Delivered nat | Temporary nat | Permanent nat | ConnectionLost | Hold | Deferred

definition rejected :: "nat \<Rightarrow> failure + attempt_result" where
  "rejected n = (if 400 \<le> n \<and> n \<le> 499 then Ok (Temporary n)
     else if 500 \<le> n \<and> n \<le> 599 then Ok (Permanent n) else Err Connection)"

definition reject_with :: "nat \<Rightarrow> attempt_result exchange" where
  "reject_with n = (case rejected n of Err f \<Rightarrow> fail f | Ok r \<Rightarrow> ret r)"

definition positive :: "nat \<Rightarrow> bool" where
  "positive n \<longleftrightarrow> 200 \<le> n \<and> n < 300"

text \<open>The replies of a pipelined envelope; after a 421 the remaining codes stay zero.\<close>

fun pipeline_codes :: "nat \<Rightarrow> nat list exchange" where
  "pipeline_codes 0 = ret []"
| "pipeline_codes (Suc n) = bind (get_response False) (\<lambda>r.
     if resp_code r = 421 then ret (421 # replicate n 0)
     else bind (pipeline_codes n) (\<lambda>cs. ret (resp_code r # cs)))"

definition no_read_ahead :: "unit exchange" where
  "no_read_ahead c = (case c_in c of b # _ \<Rightarrow> if b = [] then (Ok (), c) else (Err Connection, c) | [] \<Rightarrow> (Ok (), c))"

definition envelope_pipeline :: "bytes \<Rightarrow> nat list exchange" where
  "envelope_pipeline b = bind (write_wire b) (\<lambda>_. bind (pipeline_codes 3) (\<lambda>cs. bind no_read_ahead (\<lambda>_. ret cs)))"

definition hello :: "smtp_client \<Rightarrow> capabilities exchange" where
  "hello cl = bind (send_command (''EHLO '' @ sc_greeting cl @ CRLF) True) (\<lambda>r.
     bind (guard (resp_code r = 250) Setup) (\<lambda>_. ret (resp_capabilities r)))"

text \<open>From the banner to the capabilities of the stream that will carry the mail.\<close>

definition open_session :: "smtp_client \<Rightarrow> tls_peer \<Rightarrow> capabilities exchange" where
  "open_session cl p =
     bind (if sc_tls cl \<and> \<not> sc_starttls cl then upgrade (sc_tls cl) p else ret ()) (\<lambda>_.
     bind (get_response False) (\<lambda>banner.
     bind (guard (resp_code banner = 220) Setup) (\<lambda>_.
     bind (hello cl) (\<lambda>caps.
       if \<not> sc_starttls cl then ret caps
       else bind (guard (cap_starttls caps) Setup) (\<lambda>_.
            bind (get_code (''STARTTLS'' @ CRLF)) (\<lambda>n.
            bind (guard (n = 220) Setup) (\<lambda>_.
            bind (upgrade (sc_tls cl) p) (\<lambda>_. hello cl))))))))"

definition authenticate :: "smtp_client \<Rightarrow> capabilities \<Rightarrow> unit exchange" where
  "authenticate cl caps =
     (case sc_authorization cl of
        None \<Rightarrow> ret ()
      | Some token \<Rightarrow>
          bind (guard (cap_plain caps \<and> sc_tls cl) Setup) (\<lambda>_.
          bind (get_code (''AUTH PLAIN '' @ token @ CRLF)) (\<lambda>n.
          bind (if n = 334 then get_code (token @ CRLF) else ret n) (\<lambda>n'.
          guard (n' = 235) Setup))))"

definition mail_command :: "message \<Rightarrow> capabilities \<Rightarrow> nat \<Rightarrow> bytes" where
  "mail_command m caps size_bytes =
     mail_line (m_sender m) (if cap_size caps = None then None else Some size_bytes)
       (if cap_eight_bit caps then Some (m_body m) else None) @ CRLF"

definition rcpt_command :: "message \<Rightarrow> bytes" where
  "rcpt_command m = rcpt_line (m_recipient m) @ CRLF"

text \<open>The envelope: \<open>Inr\<close> the reply to DATA, \<open>Inl\<close> the code that rejects.\<close>

definition send_envelope :: "message \<Rightarrow> capabilities \<Rightarrow> nat \<Rightarrow> (nat + nat) exchange" where
  "send_envelope m caps size_bytes =
     (let mail = mail_command m caps size_bytes; rcpt = rcpt_command m in
      if cap_pipelining caps then
        bind (envelope_pipeline (mail @ rcpt @ ''DATA'' @ CRLF)) (\<lambda>cs.
          if \<not> positive (cs ! 0) then ret (Inl (cs ! 0))
          else if \<not> positive (cs ! 1) then ret (Inl (cs ! 1))
          else ret (Inr (cs ! 2)))
      else
        bind (get_code mail) (\<lambda>a. if \<not> positive a then ret (Inl a)
        else bind (get_code rcpt) (\<lambda>b. if \<not> positive b then ret (Inl b)
        else bind (get_code (''DATA'' @ CRLF)) (\<lambda>d. ret (Inr d)))))"

definition size_refused :: "message \<Rightarrow> capabilities \<Rightarrow> nat \<Rightarrow> bool" where
  "size_refused m caps size_bytes \<longleftrightarrow>
     (m_body m = EightBitMime \<and> \<not> cap_eight_bit caps)
   \<or> (case cap_size caps of Some (Some mx) \<Rightarrow> size_bytes > mx | _ \<Rightarrow> False)"

definition mark_body :: "bool \<Rightarrow> unit exchange" where
  "mark_body ok c = (if ok then (Ok (), c\<lparr>c_log := c_log c @ [MarkedBody]\<rparr>) else (Err Connection, c))"

text \<open>The body goes out in several writes; the log keeps their concatenation.\<close>

definition transmit_body :: "message \<Rightarrow> pump list \<Rightarrow> unit exchange" where
  "transmit_body m ps c = (let (r, w) = send_body m ps in (r, c\<lparr>c_log := c_log c @ [Sent w]\<rparr>))"

definition final_dot :: bytes where
  "final_dot = ''.'' @ CRLF"

definition send_message :: "message \<Rightarrow> bool \<Rightarrow> pump list \<Rightarrow> attempt_result exchange" where
  "send_message m marked ps =
     bind (mark_body marked) (\<lambda>_. bind (transmit_body m ps) (\<lambda>_. bind (get_code final_dot) (\<lambda>n.
       if positive n then ret (Delivered n) else reject_with n)))"

definition try_attempt ::
  "smtp_client \<Rightarrow> bool \<Rightarrow> tls_peer \<Rightarrow> message \<Rightarrow> bool \<Rightarrow> pump list \<Rightarrow> attempt_result exchange" where
  "try_attempt cl connected p m marked ps =
     bind (guard connected Connection) (\<lambda>_.
     bind (open_session cl p) (\<lambda>caps.
     bind (authenticate cl caps) (\<lambda>_.
       case checked_sub_u64 (m_stored_size m) (length (m_omit_prefix m)) of
         None \<Rightarrow> fail Content
       | Some size_bytes \<Rightarrow>
           bind (guard (\<not> size_refused m caps size_bytes) Content) (\<lambda>_.
           bind (send_envelope m caps size_bytes) (\<lambda>r.
             case r of
               Inl n \<Rightarrow> reject_with n
             | Inr n \<Rightarrow> if n \<noteq> 354 then reject_with n else send_message m marked ps)))))"

definition attempt ::
  "smtp_client \<Rightarrow> bool \<Rightarrow> tls_peer \<Rightarrow> message \<Rightarrow> bool \<Rightarrow> pump list \<Rightarrow> conn \<Rightarrow> attempt_result \<times> conn" where
  "attempt cl connected p m marked ps c =
     (case try_attempt cl connected p m marked ps c of
        (Ok r, c') \<Rightarrow> (r, c')
      | (Err Connection, c') \<Rightarrow> (ConnectionLost, c')
      | (Err Setup, c') \<Rightarrow> (Deferred, c')
      | (Err Content, c') \<Rightarrow> (Hold, c'))"

section \<open>What a reply is\<close>

text \<open>Every reply that is read has a code from 200 to 599.\<close>

lemma response_loop_code:
  "response_loop capture n index cd tot caps chunks = (Ok r, rest) \<Longrightarrow> 200 \<le> resp_code r \<and> resp_code r < 600"
  by (induction capture n index cd tot caps chunks arbitrary: rest rule: response_loop.induct)
    (auto simp: Let_def split: prod.splits sum.splits option.splits if_splits)

lemma get_response_code:
  "get_response capture c = (Ok r, c') \<Longrightarrow> 200 \<le> resp_code r \<and> resp_code r < 600"
  by (auto simp: get_response_def read_response_def dest: response_loop_code split: prod.splits sum.splits)

text \<open>The lines of a reply: all of them with one code, all but the last marked with a dash.\<close>

definition reply_lines :: "bytes list \<Rightarrow> nat \<Rightarrow> bool" where
  "reply_lines ls n \<longleftrightarrow> ls \<noteq> [] \<and> length ls \<le> 64 \<and> (\<forall>l\<in>set ls. reply_number l = n \<and> clean l \<and> length l \<le> 510)
     \<and> (\<forall>l\<in>set (butlast ls). separator_byte l = CHR ''-'') \<and> separator_byte (last ls) = SP"

lemma response_loop_lines:
  assumes "response_loop capture n index cd tot caps chunks = (Ok r, rest)"
  shows "\<exists>ls. ls \<noteq> [] \<and> length ls \<le> n \<and> concat chunks = wire ls @ concat rest
    \<and> (\<forall>l\<in>set ls. reply_number l = resp_code r \<and> clean l \<and> length l \<le> 510)
    \<and> (\<forall>l\<in>set (butlast ls). separator_byte l = CHR ''-'') \<and> separator_byte (last ls) = SP
    \<and> (case cd of None \<Rightarrow> True | Some old \<Rightarrow> old = resp_code r)"
  using assms
proof (induction capture n index cd tot caps chunks arbitrary: rest rule: response_loop.induct)
  case (2 capture n index cd tot caps chunks)
  obtain x rest1 where rl: "read_line 512 chunks = (x, rest1)" by fastforce
  with "2.prems" obtain l where x: "x = Ok (Some l)"
    by (auto split: sum.splits option.splits)
  have line: "concat chunks = l @ CRLF @ concat rest1" "clean l" "length l \<le> 510"
    using read_line_parts [of 512 chunks l "concat rest1"] rl x by auto
  let ?tot = "tot + length l + 2"
  let ?caps = "if capture \<and> index > 0 \<and> reply_number l = 250 then learn l caps else Ok caps"
  from "2.prems" rl x have ok: "\<not> bad_reply_line ?tot l" "200 \<le> reply_number l" "reply_number l < 600"
    "case cd of None \<Rightarrow> True | Some old \<Rightarrow> old = reply_number l"
    "separator_byte l = SP \<or> separator_byte l = CHR ''-''" "\<exists>caps'. ?caps = Ok caps'"
    by (auto simp: Let_def split: if_splits option.splits sum.splits)
  then obtain caps' where c: "?caps = Ok caps'" by blast
  show ?case
  proof (cases "separator_byte l = SP")
    case True
    with "2.prems" rl x ok c have "resp_code r = reply_number l" "rest = rest1"
      by (auto simp: Let_def split: if_splits option.splits)
    with True line ok show ?thesis by (intro exI [of _ "[l]"]) (auto split: option.splits)
  next
    case False
    then have sep: "separator_byte l = CHR ''-''" using ok by simp
    have next_: "response_loop capture n (index + 1) (Some (reply_number l)) ?tot caps' rest1 = (Ok r, rest)"
      using "2.prems" rl x ok c False sep by (auto simp: Let_def split: if_splits option.splits)
    have "\<not> (\<not> (200 \<le> reply_number l \<and> reply_number l < 600) \<or> (case cd of None \<Rightarrow> False | Some old \<Rightarrow> old \<noteq> reply_number l))"
      using ok by (auto split: option.splits)
    from "2.IH" [OF rl [symmetric] x refl refl ok(1) refl this refl _ c False next_] sep obtain ls where
      ls: "ls \<noteq> []" "length ls \<le> n" "concat rest1 = wire ls @ concat rest"
      "\<forall>l\<in>set ls. reply_number l = resp_code r \<and> clean l \<and> length l \<le> 510"
      "\<forall>l\<in>set (butlast ls). separator_byte l = CHR ''-''" "separator_byte (last ls) = SP"
      "reply_number l = resp_code r" by auto
    with line sep ok(4) show ?thesis
      by (intro exI [of _ "l # ls"]) (auto split: option.splits)
  qed
qed simp

lemma read_response_lines:
  assumes "read_response capture chunks = (Ok r, rest)"
  shows "\<exists>ls. reply_lines ls (resp_code r) \<and> concat chunks = wire ls @ concat rest"
  using response_loop_lines [OF assms [unfolded read_response_def]] unfolding reply_lines_def by auto

section \<open>Discipline on the wire\<close>

text \<open>What may happen next on a connection, given what has happened on it.\<close>

definition secure :: "smtp_client \<Rightarrow> wire_event list \<Rightarrow> bool" where
  "secure cl h \<longleftrightarrow> (sc_tls cl \<longrightarrow> Upgraded \<in> set h)"

definition credential :: "smtp_client \<Rightarrow> bytes \<Rightarrow> bool" where
  "credential cl b \<longleftrightarrow> (\<exists>token. sc_authorization cl = Some token \<and> (b = ''AUTH PLAIN '' @ token @ CRLF \<or> b = token @ CRLF))"

definition envelope_bytes :: "message \<Rightarrow> bytes \<Rightarrow> bool" where
  "envelope_bytes m b \<longleftrightarrow> (\<exists>caps n. b \<in> {mail_command m caps n, rcpt_command m, ''DATA'' @ CRLF,
     mail_command m caps n @ rcpt_command m @ ''DATA'' @ CRLF})"

fun permitted :: "smtp_client \<Rightarrow> message \<Rightarrow> pump list \<Rightarrow> wire_event list \<Rightarrow> wire_event \<Rightarrow> bool" where
  "permitted cl m ps h Upgraded \<longleftrightarrow> sc_tls cl \<and> Upgraded \<notin> set h"
| "permitted cl m ps h MarkedBody \<longleftrightarrow> secure cl h"
| "permitted cl m ps h (Sent b) \<longleftrightarrow>
     b = ''EHLO '' @ sc_greeting cl @ CRLF
   \<or> (b = ''STARTTLS'' @ CRLF \<and> sc_starttls cl \<and> Upgraded \<notin> set h)
   \<or> (credential cl b \<and> Upgraded \<in> set h)
   \<or> (envelope_bytes m b \<and> secure cl h)
   \<or> (b = snd (send_body m ps) \<and> (\<exists>h'. h = h' @ [MarkedBody]) \<and> secure cl h)
   \<or> (b = final_dot \<and> (\<exists>h' w. h = h' @ [MarkedBody, Sent w] \<and> send_body m ps = (Ok (), w)) \<and> secure cl h)"

fun disciplined :: "smtp_client \<Rightarrow> message \<Rightarrow> pump list \<Rightarrow> wire_event list \<Rightarrow> wire_event list \<Rightarrow> bool" where
  "disciplined cl m ps h [] \<longleftrightarrow> True"
| "disciplined cl m ps h (e # es) \<longleftrightarrow> permitted cl m ps h e \<and> disciplined cl m ps (h @ [e]) es"

lemma disciplined_snoc:
  "disciplined cl m ps h (es @ [e]) \<longleftrightarrow> disciplined cl m ps h es \<and> permitted cl m ps (h @ es) e"
  by (induction es arbitrary: h) auto

lemma disciplined_split:
  "disciplined cl m ps [] (es @ e # post) \<Longrightarrow> permitted cl m ps es e"
proof -
  have "disciplined cl m ps h (es @ e # post) \<Longrightarrow> permitted cl m ps (h @ es) e" for h
  proof (induction es arbitrary: h)
    case (Cons a es)
    from Cons.IH [of "h @ [a]"] Cons.prems show ?case by simp
  qed simp
  from this [of "[]"] show "disciplined cl m ps [] (es @ e # post) \<Longrightarrow> permitted cl m ps es e" by simp
qed

text \<open>Exchanges keep the discipline, from logs with \<open>P\<close> to results and logs with \<open>Q\<close>.\<close>

definition keeps ::
  "(wire_event list \<Rightarrow> bool) \<Rightarrow> (wire_event list \<Rightarrow> bool) \<Rightarrow> 'a exchange \<Rightarrow> ('a \<Rightarrow> wire_event list \<Rightarrow> bool) \<Rightarrow> bool" where
  "keeps D P e Q \<longleftrightarrow> (\<forall>c r c'. D (c_log c) \<longrightarrow> P (c_log c) \<longrightarrow> e c = (r, c') \<longrightarrow>
     D (c_log c') \<and> (case r of Err _ \<Rightarrow> True | Ok x \<Rightarrow> Q x (c_log c')))"

lemma keeps_bind:
  assumes "keeps D P e Q" "\<And>x. keeps D (Q x) (k x) R"
  shows "keeps D P (bind e k) R"
  unfolding keeps_def
proof (intro allI impI)
  fix c r c'
  assume a: "D (c_log c)" "P (c_log c)" "bind e k c = (r, c')"
  obtain r1 c1 where e: "e c = (r1, c1)" by fastforce
  with assms(1) a have 1: "D (c_log c1)" "case r1 of Err _ \<Rightarrow> True | Ok x \<Rightarrow> Q x (c_log c1)"
    unfolding keeps_def by blast+
  show "D (c_log c') \<and> (case r of Err _ \<Rightarrow> True | Ok x \<Rightarrow> R x (c_log c'))"
  proof (cases r1)
    case (Inl f)
    with e a(3) 1 show ?thesis by (auto simp: bind_def)
  next
    case (Inr x)
    with e a(3) have "k x c1 = (r, c')" by (simp add: bind_def)
    with assms(2) [of x] 1 Inr show ?thesis unfolding keeps_def by auto
  qed
qed

lemma keeps_ret: "(\<And>h. D h \<Longrightarrow> P h \<Longrightarrow> Q x h) \<Longrightarrow> keeps D P (ret x) Q"
  by (auto simp: keeps_def ret_def)

lemma keeps_fail: "keeps D P (fail f) Q"
  by (auto simp: keeps_def fail_def)

lemma keeps_guard: "(\<And>h. ok \<Longrightarrow> D h \<Longrightarrow> P h \<Longrightarrow> Q () h) \<Longrightarrow> keeps D P (guard ok f) Q"
  by (auto simp: keeps_def guard_def ret_def fail_def)

lemma keeps_response: "(\<And>x h. D h \<Longrightarrow> P h \<Longrightarrow> Q x h) \<Longrightarrow> keeps D P (get_response capture) Q"
  by (auto simp: keeps_def get_response_def split: prod.splits sum.splits)

lemma keeps_read_ahead: "(\<And>h. D h \<Longrightarrow> P h \<Longrightarrow> Q () h) \<Longrightarrow> keeps D P no_read_ahead Q"
  by (auto simp: keeps_def no_read_ahead_def split: list.splits if_splits)

lemma keeps_write:
  assumes "\<And>h. D h \<Longrightarrow> P h \<Longrightarrow> D (h @ [Sent b]) \<and> Q () (h @ [Sent b])"
  shows "keeps D P (write_wire b) Q"
  using assms by (auto simp: keeps_def write_wire_def split: list.splits bool.splits)

lemma keeps_upgrade:
  assumes "\<And>h. t \<Longrightarrow> D h \<Longrightarrow> P h \<Longrightarrow> D (h @ [Upgraded]) \<and> Q () (h @ [Upgraded])"
  shows "keeps D P (upgrade t p) Q"
  using assms by (auto simp: keeps_def upgrade_def)

lemma keeps_command:
  assumes "\<And>x h. D h \<Longrightarrow> P h \<Longrightarrow> D (h @ [Sent b]) \<and> Q x (h @ [Sent b])"
  shows "keeps D P (send_command b capture) Q"
  unfolding send_command_def
  by (rule keeps_bind [where Q = "\<lambda>_ g. \<forall>x. Q x g"]) (use assms in \<open>auto intro!: keeps_write keeps_response\<close>)

lemma keeps_code:
  assumes "\<And>x h. D h \<Longrightarrow> P h \<Longrightarrow> D (h @ [Sent b]) \<and> Q x (h @ [Sent b])"
  shows "keeps D P (get_code b) Q"
  unfolding get_code_def
  by (rule keeps_bind [where Q = "\<lambda>_ g. \<forall>x. Q x g"]) (use assms in \<open>auto intro!: keeps_command keeps_ret\<close>)

lemma keeps_reject: "(\<And>r h. rejected n = Ok r \<Longrightarrow> D h \<Longrightarrow> P h \<Longrightarrow> Q r h) \<Longrightarrow> keeps D P (reject_with n) Q"
  unfolding reject_with_def by (cases "rejected n") (auto intro: keeps_ret keeps_fail)

lemma keeps_if: "(b \<Longrightarrow> keeps D P e Q) \<Longrightarrow> (\<not> b \<Longrightarrow> keeps D P f Q) \<Longrightarrow> keeps D P (if b then e else f) Q"
  by simp

lemmas keeps_intros = keeps_ret keeps_fail keeps_guard keeps_response keeps_read_ahead keeps_if keeps_reject

text \<open>The phases of an attempt.\<close>

abbreviation wire_log :: "smtp_client \<Rightarrow> message \<Rightarrow> pump list \<Rightarrow> wire_event list \<Rightarrow> bool" where
  "wire_log cl m ps \<equiv> disciplined cl m ps []"

lemma keeps_hello:
  assumes "\<And>h x b. P h \<Longrightarrow> Q x (h @ [Sent b])"
  shows "keeps (wire_log cl m ps) P (hello cl) Q"
  unfolding hello_def
  by (rule keeps_bind [where Q = "\<lambda>_ g. \<forall>x. Q x g"], rule keeps_command)
    (use assms in \<open>auto simp: disciplined_snoc intro!: keeps_bind [where Q = "\<lambda>_ g. \<forall>x. Q x g"] keeps_guard keeps_ret\<close>)

lemma keeps_starttls:
  assumes "sc_starttls cl"
  shows "keeps (wire_log cl m ps) (\<lambda>h. Upgraded \<notin> set h)
    (bind (get_code (''STARTTLS'' @ CRLF)) (\<lambda>n. bind (guard (n = 220) Setup) (\<lambda>_. bind (upgrade (sc_tls cl) p) (\<lambda>_. hello cl))))
    (\<lambda>_. secure cl)"
proof (rule keeps_bind)
  show "keeps (wire_log cl m ps) (\<lambda>h. Upgraded \<notin> set h) (get_code (''STARTTLS'' @ CRLF)) (\<lambda>_ h. Upgraded \<notin> set h)"
    by (rule keeps_code) (use assms in \<open>auto simp: disciplined_snoc\<close>)
  fix n
  show "keeps (wire_log cl m ps) (\<lambda>h. Upgraded \<notin> set h) (bind (guard (n = 220) Setup) (\<lambda>_. bind (upgrade (sc_tls cl) p) (\<lambda>_. hello cl)))
      (\<lambda>_. secure cl)"
  proof (rule keeps_bind)
    show "keeps (wire_log cl m ps) (\<lambda>h. Upgraded \<notin> set h) (guard (n = 220) Setup) (\<lambda>_ h. Upgraded \<notin> set h)"
      by (rule keeps_guard)
    show "keeps (wire_log cl m ps) (\<lambda>h. Upgraded \<notin> set h) (bind (upgrade (sc_tls cl) p) (\<lambda>_. hello cl)) (\<lambda>_. secure cl)"
      by (rule keeps_bind [where Q = "\<lambda>_ h. Upgraded \<in> set h"], rule keeps_upgrade)
        (auto simp: disciplined_snoc secure_def intro: keeps_hello)
  qed
qed

lemma keeps_open_session:
  "keeps (wire_log cl m ps) (\<lambda>h. h = []) (open_session cl p) (\<lambda>_. secure cl)"
proof -
  let ?R = "\<lambda>h. if sc_starttls cl then Upgraded \<notin> set h else secure cl h"
  have sent: "?R h \<Longrightarrow> ?R (h @ [Sent b])" for h b by (auto simp: secure_def split: if_splits)
  have "keeps (wire_log cl m ps) (\<lambda>h. h = []) (if sc_tls cl \<and> \<not> sc_starttls cl then upgrade (sc_tls cl) p else ret ()) (\<lambda>_. ?R)"
    by (rule keeps_if) (auto simp: disciplined_snoc secure_def intro!: keeps_upgrade keeps_ret)
  moreover have "keeps (wire_log cl m ps) ?R (get_response False) (\<lambda>_. ?R)" by (rule keeps_response)
  moreover have "keeps (wire_log cl m ps) ?R (guard b Setup) (\<lambda>_. ?R)" for b by (rule keeps_guard)
  moreover have "keeps (wire_log cl m ps) ?R (hello cl) (\<lambda>_. ?R)" by (rule keeps_hello) (rule sent)
  moreover have "keeps (wire_log cl m ps) ?R
      (if \<not> sc_starttls cl then ret caps
       else bind (guard (cap_starttls caps) Setup) (\<lambda>_.
            bind (get_code (''STARTTLS'' @ CRLF)) (\<lambda>n. bind (guard (n = 220) Setup) (\<lambda>_.
            bind (upgrade (sc_tls cl) p) (\<lambda>_. hello cl))))) (\<lambda>_. secure cl)" for caps
  proof (cases "sc_starttls cl")
    case True
    show ?thesis
      by (simp only: True if_True not_True_eq_False if_False)
        (intro keeps_bind [OF _ keeps_starttls [OF True]] keeps_guard)
  qed (auto intro: keeps_ret)
  ultimately show ?thesis unfolding open_session_def by (intro keeps_bind)
qed

lemma keeps_authenticate:
  "keeps (wire_log cl m ps) (secure cl) (authenticate cl caps) (\<lambda>_. secure cl)"
proof (cases "sc_authorization cl")
  case None
  then show ?thesis by (auto simp: authenticate_def intro: keeps_ret)
next
  case (Some token)
  have cred: "credential cl (''AUTH PLAIN '' @ token @ CRLF)" "credential cl (token @ CRLF)" using Some by (auto simp: credential_def)
  let ?U = "\<lambda>h. Upgraded \<in> set h"
  have "keeps (wire_log cl m ps) (secure cl) (guard (cap_plain caps \<and> sc_tls cl) Setup) (\<lambda>_. ?U)"
    by (rule keeps_guard) (simp add: secure_def)
  moreover have "keeps (wire_log cl m ps) ?U (get_code (''AUTH PLAIN '' @ token @ CRLF)) (\<lambda>_. ?U)"
    by (rule keeps_code) (use cred in \<open>auto simp: disciplined_snoc\<close>)
  moreover have "keeps (wire_log cl m ps) ?U (if n = 334 then get_code (token @ CRLF) else ret n) (\<lambda>_. ?U)" for n
    by (rule keeps_if, rule keeps_code) (use cred in \<open>auto simp: disciplined_snoc intro: keeps_ret\<close>)
  moreover have "keeps (wire_log cl m ps) ?U (guard b Setup) (\<lambda>_. secure cl)" for b
    by (rule keeps_guard) (simp add: secure_def)
  ultimately show ?thesis unfolding authenticate_def Some option.case by (intro keeps_bind)
qed

lemma secure_snoc: "secure cl h \<Longrightarrow> secure cl (h @ [e])"
  by (simp add: secure_def)

lemma keeps_pipeline_codes: "keeps D P (pipeline_codes n) (\<lambda>_. P)"
proof (induction n)
  case (Suc n)
  then show ?case
    unfolding pipeline_codes.simps
    by (intro keeps_bind [where Q = "\<lambda>_. P"] keeps_response keeps_if keeps_ret)
qed (simp add: keeps_ret)

lemma keeps_envelope_code:
  assumes "envelope_bytes m b"
  shows "keeps (wire_log cl m ps) (secure cl) (get_code b) (\<lambda>_. secure cl)"
  by (rule keeps_code) (use assms in \<open>auto simp: disciplined_snoc secure_snoc\<close>)

lemma keeps_send_envelope:
  "keeps (wire_log cl m ps) (secure cl) (send_envelope m caps n) (\<lambda>_. secure cl)"
proof -
  have env: "envelope_bytes m (mail_command m caps n)" "envelope_bytes m (rcpt_command m)" "envelope_bytes m (''DATA'' @ CRLF)"
    "envelope_bytes m (mail_command m caps n @ rcpt_command m @ ''DATA'' @ CRLF)"
    unfolding envelope_bytes_def by blast+
  have "keeps (wire_log cl m ps) (secure cl) (write_wire (mail_command m caps n @ rcpt_command m @ ''DATA'' @ CRLF)) (\<lambda>_. secure cl)"
    by (rule keeps_write) (use env in \<open>auto simp: disciplined_snoc secure_snoc\<close>)
  then have pipe: "keeps (wire_log cl m ps) (secure cl) (envelope_pipeline (mail_command m caps n @ rcpt_command m @ ''DATA'' @ CRLF)) (\<lambda>_. secure cl)"
    unfolding envelope_pipeline_def by (intro keeps_bind [where Q = "\<lambda>_. secure cl"] keeps_pipeline_codes keeps_read_ahead keeps_ret)
  note code = env(1-3) [THEN keeps_envelope_code, of cl ps]
  show ?thesis
    unfolding send_envelope_def Let_def
    by (intro keeps_if keeps_bind [OF pipe] keeps_bind [OF code(1)] keeps_bind [OF code(2)] keeps_bind [OF code(3)] keeps_ret)
qed

text \<open>Sending the message: the last three events before a delivery are the mark, the whole body and
  the final dot.\<close>

definition delivered_log :: "smtp_client \<Rightarrow> message \<Rightarrow> pump list \<Rightarrow> wire_event list \<Rightarrow> bool" where
  "delivered_log cl m ps h \<longleftrightarrow> (\<exists>pre w. h = pre @ [MarkedBody, Sent w, Sent final_dot] \<and> send_body m ps = (Ok (), w) \<and> secure cl pre)"

definition outcome_ok :: "smtp_client \<Rightarrow> message \<Rightarrow> bool \<Rightarrow> pump list \<Rightarrow> attempt_result \<Rightarrow> wire_event list \<Rightarrow> bool" where
  "outcome_ok cl m marked ps r h \<longleftrightarrow>
     (case r of
        Delivered n \<Rightarrow> 200 \<le> n \<and> n < 300 \<and> marked \<and> delivered_log cl m ps h
      | Temporary n \<Rightarrow> 400 \<le> n \<and> n < 500
      | Permanent n \<Rightarrow> 500 \<le> n \<and> n < 600
      | _ \<Rightarrow> False)"

lemma rejected_ok: "rejected n = Ok r \<Longrightarrow> outcome_ok cl m marked ps r h"
  by (auto simp: rejected_def outcome_ok_def split: if_splits)

lemma keeps_send_message:
  "keeps (wire_log cl m ps) (secure cl) (send_message m marked ps) (outcome_ok cl m marked ps)"
proof -
  let ?M = "\<lambda>h. marked \<and> (\<exists>h'. h = h' @ [MarkedBody]) \<and> secure cl h"
  let ?B = "\<lambda>h. marked \<and> (\<exists>h' w. h = h' @ [MarkedBody, Sent w] \<and> send_body m ps = (Ok (), w)) \<and> secure cl h"
  let ?D = "\<lambda>h. marked \<and> delivered_log cl m ps h"
  have "keeps (wire_log cl m ps) (secure cl) (mark_body marked) (\<lambda>_. ?M)"
    by (auto simp: keeps_def mark_body_def disciplined_snoc secure_snoc)
  moreover have "keeps (wire_log cl m ps) ?M (transmit_body m ps) (\<lambda>_. ?B)"
    by (cases "send_body m ps"; cases "fst (send_body m ps)") (auto simp: keeps_def transmit_body_def disciplined_snoc secure_snoc)
  moreover have "keeps (wire_log cl m ps) ?B (get_code final_dot) (\<lambda>_. ?D)"
    by (rule keeps_code) (auto simp: disciplined_snoc delivered_log_def secure_def)
  moreover have "keeps (wire_log cl m ps) ?D (if positive n then ret (Delivered n) else reject_with n) (outcome_ok cl m marked ps)" for n
    by (intro keeps_if keeps_ret keeps_reject)
      (simp add: positive_def outcome_ok_def, simp add: rejected_ok)
  ultimately show ?thesis unfolding send_message_def by (intro keeps_bind)
qed

lemma keeps_try_attempt:
  "keeps (wire_log cl m ps) (\<lambda>h. h = []) (try_attempt cl connected p m marked ps) (outcome_ok cl m marked ps)"
proof -
  have finish: "keeps (wire_log cl m ps) (secure cl)
      (case r of Inl n \<Rightarrow> reject_with n | Inr n \<Rightarrow> if n \<noteq> 354 then reject_with n else send_message m marked ps)
      (outcome_ok cl m marked ps)" for r
    by (cases r) (auto intro!: keeps_reject keeps_send_message rejected_ok)
  have envelope: "keeps (wire_log cl m ps) (secure cl)
      (case checked_sub_u64 (m_stored_size m) (length (m_omit_prefix m)) of
         None \<Rightarrow> fail Content
       | Some n \<Rightarrow> bind (guard (\<not> size_refused m caps n) Content) (\<lambda>_. bind (send_envelope m caps n) (\<lambda>r.
           case r of Inl n \<Rightarrow> reject_with n | Inr n \<Rightarrow> if n \<noteq> 354 then reject_with n else send_message m marked ps)))
      (outcome_ok cl m marked ps)" for caps
    by (cases "checked_sub_u64 (m_stored_size m) (length (m_omit_prefix m))")
      (auto intro!: keeps_fail keeps_bind [where Q = "\<lambda>_. secure cl"] keeps_guard keeps_bind [OF keeps_send_envelope finish])
  have auth: "keeps (wire_log cl m ps) (secure cl) (authenticate cl caps) (\<lambda>_. secure cl)" for caps
    by (rule keeps_authenticate)
  have start: "keeps (wire_log cl m ps) (\<lambda>h. h = []) (guard connected Connection) (\<lambda>_ h. h = [])"
    by (rule keeps_guard)
  show ?thesis
    unfolding try_attempt_def
    by (intro keeps_bind [OF start] keeps_bind [OF keeps_open_session] keeps_bind [OF auth] envelope)
qed

text \<open>A delivery to a peer that accepts everything.\<close>

lemma one_line_reply:
  assumes "read_line 512 chunks = (Ok (Some l), rest)" "\<not> bad_reply_line (length l + 2) l"
    "200 \<le> reply_number l" "reply_number l < 600" "separator_byte l = SP"
  shows "read_response capture chunks = (Ok \<lparr>resp_code = reply_number l, resp_capabilities = no_capabilities\<rparr>, rest)"
proof -
  have "(64 :: nat) = Suc 63" by simp
  with assms show ?thesis unfolding read_response_def by (simp only: response_loop.simps) simp
qed

lemma short_reply:
  assumes "list_all is_ascii_digit [a, b, c]" "200 \<le> reply_number [a, b, c]" "reply_number [a, b, c] < 600"
  shows "read_response capture ([a, b, c, CR, LF] # chunks) =
    (Ok \<lparr>resp_code = reply_number [a, b, c], resp_capabilities = no_capabilities\<rparr>, [] # chunks)"
proof (rule one_line_reply)
  have d: "x \<noteq> CR \<and> x \<noteq> LF \<and> x \<noteq> NUL \<and> is_ascii_byte x \<and> \<not> is_ascii_control x" if "is_ascii_digit x" for x
    using that by (auto simp: ascii_simps code_def)
  show "read_line 512 ([a, b, c, CR, LF] # chunks) = (Ok (Some [a, b, c]), [] # chunks)"
    using assms(1) d by (auto simp: read_line_def feed_buffered_def new_decoder_def bad_byte_def last_byte_def take_line_def)
  show "\<not> bad_reply_line (length [a, b, c] + 2) [a, b, c]" using assms(1) d by (auto simp: bad_reply_line_def)
  show "separator_byte [a, b, c] = SP" by (simp add: separator_byte_def)
qed (use assms in auto)

definition sample_client :: smtp_client where
  "sample_client = \<lparr>sc_greeting = ''me.test'', sc_tls = False, sc_starttls = False, sc_authorization = None\<rparr>"

definition sample_conn :: conn where
  "sample_conn = \<lparr>c_in = [''220'' @ CRLF, ''250'' @ CRLF, ''250'' @ CRLF, ''250'' @ CRLF, ''354'' @ CRLF, ''250'' @ CRLF],
     c_writes = [], c_log = []\<rparr>"

lemma sample_replies:
  "read_response f ((''220'' @ CRLF) # cs) = (Ok \<lparr>resp_code = 220, resp_capabilities = no_capabilities\<rparr>, [] # cs)"
  "read_response f ((''250'' @ CRLF) # cs) = (Ok \<lparr>resp_code = 250, resp_capabilities = no_capabilities\<rparr>, [] # cs)"
  "read_response f ((''354'' @ CRLF) # cs) = (Ok \<lparr>resp_code = 354, resp_capabilities = no_capabilities\<rparr>, [] # cs)"
  using short_reply [of "CHR ''2''" "CHR ''2''" "CHR ''0''" f cs] short_reply [of "CHR ''2''" "CHR ''5''" "CHR ''0''" f cs]
    short_reply [of "CHR ''3''" "CHR ''5''" "CHR ''4''" f cs]
  by (simp_all add: reply_number_def digit_value_def code_def is_ascii_digit_def)

lemma skip_empty: "read_response f ([] # cs) = read_response f cs"
proof -
  have "(64 :: nat) = Suc 63" by simp
  moreover have "read_line 512 ([] # cs) = read_line 512 cs" by (simp add: read_line_def)
  ultimately show ?thesis unfolding read_response_def by (simp only: response_loop.simps)
qed

lemma sample_attempt:
  "\<exists>c'. attempt sample_client True \<lparr>handshake_ok = False, tls_in = []\<rparr> sample_message True [Got sample_mail True] sample_conn = (Delivered 250, c')"
proof -
  obtain w where w: "send_body sample_message [Got sample_mail True] = (Ok (), w)" using sample_received by blast
  have size: "checked_sub_u64 (m_stored_size sample_message) (length (m_omit_prefix sample_message)) = Some 23"
    by (simp add: checked_sub_u64_def sample_message_def sample_length)
  have ok: "\<not> size_refused sample_message no_capabilities n" for n
    by (simp add: size_refused_def no_capabilities_def sample_message_def)
  show ?thesis
    by (simp add: attempt_def try_attempt_def bind_def guard_def ret_def open_session_def sample_client_def sample_conn_def
        get_response_def sample_replies [simplified] skip_empty hello_def send_command_def write_wire_def authenticate_def size ok [unfolded no_capabilities_def]
        send_envelope_def Let_def no_capabilities_def get_code_def positive_def send_message_def mark_body_def
        transmit_body_def w)
qed



text \<open>Property C40. A reply is read exactly as the lines it consists of: at most 64 clean lines of at
  most 510 bytes, all with the same code between 200 and 599, joined by dashes and ended
  by a blank; what follows it stays unread.\<close>

theorem read_response_sound:
  assumes "read_response capture chunks = (Ok r, rest)"
  shows "(\<exists>ls. reply_lines ls (resp_code r) \<and> concat chunks = wire ls @ concat rest)
    \<and> 200 \<le> resp_code r \<and> resp_code r < 600"
  using read_response_lines [OF assms] response_loop_code [OF assms [unfolded read_response_def]] by blast

theorem read_response_sound_witness:
  "\<exists>ls. reply_lines ls 354 \<and> ''354'' @ CRLF @ ''x'' = wire ls @ ''x''"
  using read_response_sound [OF sample_replies(3) [of False "[''x'']"]] by simp

end
