(* ===== verification/Database.thy ===== *)
theory Database
  imports Storage_Runtime
begin

text \<open>
  The database of \<open>crates/store\<close>: the tables of \<open>crates/store/schema.sql\<close>, the statements the sources
  run on them, and the transactions around them. A table is the list of its rows in insertion
  order; a statement that violates a \<open>PRIMARY KEY\<close>, \<open>UNIQUE\<close>, \<open>CHECK\<close> or \<open>REFERENCES\<close> clause of the
  schema, or leaves the range of a 64-bit \<open>INTEGER\<close> column, is the error \<open>Database\<close> and changes nothing.
  Text columns restricted by a \<open>CHECK (\<dots> IN \<dots>)\<close> are datatypes.

  What SQLite, the clock, the random generator and the fault hook do beyond that is a \<open>world\<close>: it
  decides for every step whether the statement fails, how a commit ends, what the clocks read
  and which random bytes a UUID has. A commit that reports an error may or may not have been
  applied.
\<close>

named_theorems tx_simps \<open>inversion of the store's actions\<close>

section \<open>Tables\<close>

datatype account_status = AccountActive | AccountDisabled

datatype cred_scope = ScopeMail | ScopeReadOnly

datatype msg_source = SourceSmtp | SourceSubmission | SourceAppend | SourceDsn | SourceImport

datatype route = RouteLocal | RouteRelay | RouteDirect

datatype delivery_state =
    StPending | StLeased | StDeferred | StUncertain | StDelivered | StFailed | StHold

datatype lifecycle_reason = SmtpPermanent | Expired | ContentReason | Counter | Manual

datatype notification_state = NotePending | NoteCreated | NoteSuppressed

datatype event_kind = EventAppend | EventFlags | EventExpunge | EventRename

datatype lease_phase = PhaseReady | PhaseBody

datatype queue_body = SevenBitBody | EightBitMimeBody

datatype admin_action = ActionHold | ActionRetry | ActionCloseUnknown

datatype run_status = RunRunning | RunComplete | RunInterrupted

datatype gc_kind = GcStaging | GcOrphan

datatype gc_status = GcPlannedRow | GcDeletedRow

record account_row =
  ac_id :: int
  ac_login :: string
  ac_status :: account_status
  ac_quota :: int
  ac_used :: int
  ac_epoch :: int
  ac_created :: int

record credential_row =
  cr_id :: int
  cr_account :: int
  cr_selector :: string
  cr_label :: string
  cr_phc :: string
  cr_scope :: cred_scope
  cr_revoked :: "int option"
  cr_last_used :: "int option"
  cr_created :: int

record address_row =
  ad_address :: string
  ad_account :: int
  ad_receive :: bool
  ad_send :: bool

record mailbox_row =
  mb_id :: int
  mb_account :: int
  mb_name :: string
  mb_uidvalidity :: int
  mb_uidnext :: int
  mb_event_seq :: int

record subscription_row =
  su_account :: int
  su_name :: string

record blob_row =
  bl_id :: string
  bl_size :: int
  bl_sha256 :: string
  bl_created :: int

record message_row =
  ms_id :: string
  ms_ingest_key :: string
  ms_blob :: string
  ms_source :: msg_source
  ms_reverse_path :: string
  ms_account :: "int option"
  ms_accepted :: int

record delivery_row =
  de_id :: string
  de_message :: string
  de_recipient :: string
  de_route :: route
  de_domain :: string
  de_state :: delivery_state
  de_attempts :: int
  de_next :: int
  de_expires :: int
  de_token :: "string option"
  de_until :: "int option"
  de_generation :: int
  de_code :: "nat option"
  de_diagnostic :: "string option"
  de_reason :: "lifecycle_reason option"
  de_possibly :: bool
  de_closed :: "int option"
  de_note :: notification_state
  de_note_error :: "string option"
  de_note_due :: int

record mailbox_message_row =
  mm_mailbox :: int
  mm_uid :: int
  mm_message :: string
  mm_delivery :: "string option"
  mm_internaldate :: int

record mailbox_event_row =
  ev_mailbox :: int
  ev_seq :: int
  ev_kind :: event_kind
  ev_uid :: "int option"
  ev_payload :: bytes
  ev_created :: int

record notification_row =
  no_delivery :: string
  no_report :: string
  no_created :: int

record queue_message_row =
  qm_message :: string
  qm_body :: queue_body
  qm_age :: int

record queue_lease_row =
  ql_delivery :: string
  ql_phase :: lease_phase

record admin_event_row =
  qa_id :: int
  qa_delivery :: string
  qa_action :: admin_action
  qa_before :: delivery_state
  qa_after :: delivery_state
  qa_note :: string
  qa_duplicate :: bool
  qa_extend :: bool
  qa_created :: int

record backup_pin_row =
  bp_backup :: string
  bp_blob :: string

record maintenance_run_row =
  mr_id :: string
  mr_started :: int
  mr_completed :: "int option"
  mr_min_age :: int
  mr_status :: run_status

record gc_action_row =
  ga_run :: string
  ga_kind :: gc_kind
  ga_object :: string
  ga_size :: int
  ga_status :: gc_status

record database =
  accounts :: "account_row list"
  credentials :: "credential_row list"
  addresses :: "address_row list"
  mailboxes :: "mailbox_row list"
  subscriptions :: "subscription_row list"
  blob_rows :: "blob_row list"
  messages :: "message_row list"
  deliveries :: "delivery_row list"
  mailbox_messages :: "mailbox_message_row list"
  mailbox_events :: "mailbox_event_row list"
  notifications :: "notification_row list"
  queue_messages :: "queue_message_row list"
  queue_leases :: "queue_lease_row list"
  admin_events :: "admin_event_row list"
  backup_pins :: "backup_pin_row list"
  maintenance_runs :: "maintenance_run_row list"
  gc_actions :: "gc_action_row list"

definition empty_database :: database where
  "empty_database = \<lparr>accounts = [], credentials = [], addresses = [], mailboxes = [], subscriptions = [],
     blob_rows = [], messages = [], deliveries = [], mailbox_messages = [], mailbox_events = [], notifications = [],
     queue_messages = [], queue_leases = [], admin_events = [], backup_pins = [], maintenance_runs = [],
     gc_actions = []\<rparr>"

section \<open>Statements\<close>

definition in_i64 :: "int \<Rightarrow> bool" where
  "in_i64 v \<longleftrightarrow> i64_min \<le> v \<and> v \<le> i64_max"

text \<open>\<open>unsigned_column\<close>: a negative value is an error of the database layer.\<close>

definition unsigned_column :: "int \<Rightarrow> store_error + nat" where
  "unsigned_column v = (if v < 0 then Err Database else Ok (nat v))"

text \<open>The row a query on a unique key returns, the row with the least key first otherwise.\<close>

fun first_row :: "('r \<Rightarrow> bool) \<Rightarrow> 'r list \<Rightarrow> 'r option" where
  "first_row p [] = None"
| "first_row p (r # rs) = (if p r then Some r else first_row p rs)"

definition insert_row :: "'r \<Rightarrow> bool \<Rightarrow> 'r list \<Rightarrow> store_error + 'r list" where
  "insert_row r ok t = (if ok then Ok (t @ [r]) else Err Database)"

definition update_rows :: "('r \<Rightarrow> bool) \<Rightarrow> ('r \<Rightarrow> 'r) \<Rightarrow> ('r \<Rightarrow> bool) \<Rightarrow> 'r list \<Rightarrow> store_error + 'r list" where
  "update_rows p f ok t =
     (if list_all (\<lambda>r. p r \<longrightarrow> ok (f r)) t then Ok (map (\<lambda>r. if p r then f r else r) t) else Err Database)"

definition next_rowid :: "int list \<Rightarrow> int" where
  "next_rowid ids = (if ids = [] then 1 else Max (set ids) + 1)"

text \<open>A row of a table with the key may be written only once.\<close>

definition fresh_key :: "('r \<Rightarrow> 'k) \<Rightarrow> 'k \<Rightarrow> 'r list \<Rightarrow> bool" where
  "fresh_key k v t \<longleftrightarrow> v \<notin> k ` set t"

definition has_key :: "('r \<Rightarrow> 'k) \<Rightarrow> 'k \<Rightarrow> 'r list \<Rightarrow> bool" where
  "has_key k v t \<longleftrightarrow> v \<in> k ` set t"

definition optional_key :: "('r \<Rightarrow> 'k) \<Rightarrow> 'k option \<Rightarrow> 'r list \<Rightarrow> bool" where
  "optional_key k v t \<longleftrightarrow> (case v of None \<Rightarrow> True | Some x \<Rightarrow> has_key k x t)"

section \<open>The store and its actions\<close>

datatype commit_outcome = Committed | CommitApplied | CommitLost

record world =
  w_uuid :: "nat \<Rightarrow> nat list"
  w_fails :: "nat \<Rightarrow> bool"
  w_wall :: "nat \<Rightarrow> store_error + int"
  w_mono :: "nat \<Rightarrow> nat"
  w_hook :: "nat \<Rightarrow> fault_point \<Rightarrow> bool"
  w_commit :: "nat \<Rightarrow> commit_outcome"

text \<open>\<open>LeaseGuard\<close>: the instance lock it keeps alive, the domain it occupies; the number tells
  guards apart. \<open>Weak\<close> references to guards live in \<open>q_active\<close>; \<open>q_live\<close> are the guards some lease or
  reader still owns.\<close>

record lease_guard =
  gd_number :: nat
  gd_instance :: nat
  gd_domain :: string

record queue_runtime =
  q_active :: "(string \<times> lease_guard) list"
  q_live :: "nat list"
  q_ready_cursor :: "(int \<times> string) option"
  q_recovery_cursor :: string
  q_clock :: "(int \<times> nat) option"
  q_last_wall :: "int option"
  q_clock_changed :: bool

definition new_queue_runtime :: queue_runtime where
  "new_queue_runtime = \<lparr>q_active = [], q_live = [], q_ready_cursor = None, q_recovery_cursor = [], q_clock = None,
     q_last_wall = None, q_clock_changed = False\<rparr>"

record store =
  st_db :: database
  st_step :: nat
  st_instance :: nat
  st_queue :: queue_runtime

type_synonym 'a action = "store \<Rightarrow> (store_error + 'a) \<times> store"

definition return :: "'a \<Rightarrow> 'a action" where
  "return x s = (Ok x, s)"

definition throw :: "store_error \<Rightarrow> 'a action" where
  "throw e s = (Err e, s)"

definition andthen :: "'a action \<Rightarrow> ('a \<Rightarrow> 'b action) \<Rightarrow> 'b action" where
  "andthen m k s = (case m s of (Err e, s') \<Rightarrow> (Err e, s') | (Ok x, s') \<Rightarrow> k x s')"

definition ensure :: "bool \<Rightarrow> store_error \<Rightarrow> unit action" where
  "ensure ok e = (if ok then return () else throw e)"

definition lift_res :: "store_error + 'a \<Rightarrow> 'a action" where
  "lift_res r s = (r, s)"

definition tick :: "store \<Rightarrow> store" where
  "tick s = s\<lparr>st_step := st_step s + 1\<rparr>"

text \<open>A statement that reads, and one that writes.\<close>

definition query :: "world \<Rightarrow> (database \<Rightarrow> 'a) \<Rightarrow> 'a action" where
  "query w q s = (if w_fails w (st_step s) then (Err Database, tick s) else (Ok (q (st_db s)), tick s))"

definition exec :: "world \<Rightarrow> (database \<Rightarrow> store_error + database) \<Rightarrow> unit action" where
  "exec w f s =
     (if w_fails w (st_step s) then (Err Database, tick s)
      else case f (st_db s) of Err e \<Rightarrow> (Err e, tick s) | Ok d \<Rightarrow> (Ok (), (tick s)\<lparr>st_db := d\<rparr>))"

definition exec_ret :: "world \<Rightarrow> (database \<Rightarrow> store_error + 'a \<times> database) \<Rightarrow> 'a action" where
  "exec_ret w f s =
     (if w_fails w (st_step s) then (Err Database, tick s)
      else case f (st_db s) of Err e \<Rightarrow> (Err e, tick s) | Ok (n, d) \<Rightarrow> (Ok n, (tick s)\<lparr>st_db := d\<rparr>))"

definition read_clock :: "world \<Rightarrow> int action" where
  "read_clock w s = (now_ms (w_wall w (st_step s)), tick s)"

definition hit_fault :: "world \<Rightarrow> fault_point \<Rightarrow> unit action" where
  "hit_fault w p s = (hit (w_hook w (st_step s)) p, tick s)"

definition hex_digit :: "nat \<Rightarrow> char" where
  "hex_digit n = ''0123456789abcdef'' ! (n mod 16)"

text \<open>\<open>Uuid::new_v4().simple().to_string()\<close>.\<close>

definition uuid_simple :: "nat list \<Rightarrow> string" where
  "uuid_simple bs = concat (map (\<lambda>b. [hex_digit (b div 16), hex_digit b]) bs)"

definition new_uuid :: "world \<Rightarrow> string action" where
  "new_uuid w s = (Ok (uuid_simple (w_uuid w (st_step s))), tick s)"

fun for_each :: "('x \<Rightarrow> unit action) \<Rightarrow> 'x list \<Rightarrow> unit action" where
  "for_each f [] = return ()"
| "for_each f (x # xs) = andthen (f x) (\<lambda>_. for_each f xs)"

text \<open>How a transaction ends: the faults hit before the commit with the errors they become, the
  error a failed commit becomes, the faults hit after it.\<close>

record commit_rule =
  before_commit :: "(fault_point \<times> store_error) list"
  commit_error :: store_error
  after_commit :: "(fault_point \<times> store_error) list"

fun hit_all :: "world \<Rightarrow> (fault_point \<times> store_error) list \<Rightarrow> unit action" where
  "hit_all w [] s = (Ok (), s)"
| "hit_all w ((p, e) # ps) s = (if w_hook w (st_step s) p then (Err e, tick s) else hit_all w ps (tick s))"

definition commit_tx :: "world \<Rightarrow> commit_rule \<Rightarrow> database \<Rightarrow> 'a \<Rightarrow> 'a action" where
  "commit_tx w cr old x s =
     (case hit_all w (before_commit cr) s of
        (Err e, s1) \<Rightarrow> (Err e, s1\<lparr>st_db := old\<rparr>)
      | (Ok _, s1) \<Rightarrow>
         (case w_commit w (st_step s1) of
            CommitLost \<Rightarrow> (Err (commit_error cr), (tick s1)\<lparr>st_db := old\<rparr>)
          | CommitApplied \<Rightarrow> (Err (commit_error cr), tick s1)
          | Committed \<Rightarrow>
             (case hit_all w (after_commit cr) (tick s1) of
                (Err e, s2) \<Rightarrow> (Err e, s2) | (Ok _, s2) \<Rightarrow> (Ok x, s2))))"

text \<open>A transaction: the body says whether it reached its commit; a transaction that is dropped before
  is rolled back.\<close>

definition transact :: "world \<Rightarrow> commit_rule \<Rightarrow> ('a \<times> bool) action \<Rightarrow> 'a action" where
  "transact w cr body s =
     (case query w (\<lambda>_. ()) s of
        (Err e, s1) \<Rightarrow> (Err e, s1)
      | (Ok _, s1) \<Rightarrow>
         (case body s1 of
            (Err e, s2) \<Rightarrow> (Err e, s2\<lparr>st_db := st_db s\<rparr>)
          | (Ok (x, c), s2) \<Rightarrow> if c then commit_tx w cr (st_db s) x s2 else (Ok x, s2\<lparr>st_db := st_db s\<rparr>)))"

definition plain_commit :: commit_rule where
  "plain_commit = \<lparr>before_commit = [], commit_error = Database, after_commit = []\<rparr>"

definition queue_commit :: commit_rule where
  "queue_commit = \<lparr>before_commit = [(QueueBeforeCommit, Io OtherIo)], commit_error = QueueOutcomeUnknown,
     after_commit = [(QueueAfterCommit, QueueOutcomeUnknown)]\<rparr>"

definition accept_commit :: commit_rule where
  "accept_commit = \<lparr>before_commit = [(BeforeCommit, Io OtherIo), (Commit, OutcomeUnknown)],
     commit_error = OutcomeUnknown, after_commit = [(AfterCommit, OutcomeUnknown)]\<rparr>"

text \<open>A statement outside a transaction is committed by itself.\<close>

definition autocommit :: "world \<Rightarrow> 'a action \<Rightarrow> 'a action" where
  "autocommit w m s =
     (case m s of
        (Err e, s1) \<Rightarrow> (Err e, s1\<lparr>st_db := st_db s\<rparr>)
      | (Ok x, s1) \<Rightarrow> commit_tx w plain_commit (st_db s) x s1)"


section \<open>Inverting actions\<close>

lemma tick_simps [simp]:
  "st_db (tick s) = st_db s" "st_queue (tick s) = st_queue s" "st_instance (tick s) = st_instance s"
  "st_step (tick s) = st_step s + 1"
  by (simp_all add: tick_def)

lemma return_eq [tx_simps]: "return x s = (r, s') \<longleftrightarrow> r = Ok x \<and> s' = s"
  by (auto simp: return_def)

lemma throw_eq [tx_simps]: "throw e s = (r, s') \<longleftrightarrow> r = Err e \<and> s' = s"
  by (auto simp: throw_def)

lemma andthen_Ok [tx_simps]:
  "andthen m k s = (Ok y, s'') \<longleftrightarrow> (\<exists>x s'. m s = (Ok x, s') \<and> k x s' = (Ok y, s''))"
  by (auto simp: andthen_def split: prod.splits sum.splits)

lemma andthen_Err [tx_simps]:
  "andthen m k s = (Err e, s'') \<longleftrightarrow> m s = (Err e, s'') \<or> (\<exists>x s'. m s = (Ok x, s') \<and> k x s' = (Err e, s''))"
  by (auto simp: andthen_def split: prod.splits sum.splits)

lemma andthen_simps [simp]: "andthen (return x) k = k x" "andthen (throw e) k = throw e"
  by (auto simp: fun_eq_iff andthen_def return_def throw_def)

lemma ensure_Ok [tx_simps]: "ensure b e s = (Ok u, s') \<longleftrightarrow> b \<and> s' = s"
  by (auto simp: ensure_def tx_simps)

lemma ensure_Err [tx_simps]: "ensure b e s = (Err f, s') \<longleftrightarrow> \<not> b \<and> f = e \<and> s' = s"
  by (auto simp: ensure_def tx_simps)

lemma lift_res_eq [tx_simps]: "lift_res r s = (r', s') \<longleftrightarrow> r = r' \<and> s' = s"
  by (auto simp: lift_res_def)

lemma query_Ok [tx_simps]:
  "query w q s = (Ok x, s') \<longleftrightarrow> \<not> w_fails w (st_step s) \<and> x = q (st_db s) \<and> s' = tick s"
  by (auto simp: query_def)

lemma query_Err [tx_simps]:
  "query w q s = (Err e, s') \<longleftrightarrow> w_fails w (st_step s) \<and> e = Database \<and> s' = tick s"
  by (auto simp: query_def)

lemma exec_Ok [tx_simps]:
  "exec w f s = (Ok u, s') \<longleftrightarrow> \<not> w_fails w (st_step s) \<and> (\<exists>d. f (st_db s) = Ok d \<and> s' = (tick s)\<lparr>st_db := d\<rparr>)"
  by (auto simp: exec_def split: sum.splits)

lemma exec_ret_Ok [tx_simps]:
  "exec_ret w f s = (Ok n, s') \<longleftrightarrow>
     \<not> w_fails w (st_step s) \<and> (\<exists>d. f (st_db s) = Ok (n, d) \<and> s' = (tick s)\<lparr>st_db := d\<rparr>)"
  by (auto simp: exec_ret_def split: sum.splits prod.splits)

lemma read_clock_Ok [tx_simps]:
  "read_clock w s = (Ok v, s') \<longleftrightarrow> w_wall w (st_step s) = Ok v \<and> 0 \<le> v \<and> s' = tick s"
  by (auto simp: read_clock_def)

lemma hit_fault_Ok [tx_simps]: "hit_fault w p s = (Ok u, s') \<longleftrightarrow> \<not> w_hook w (st_step s) p \<and> s' = tick s"
  by (auto simp: hit_fault_def)

lemma hit_fault_Err [tx_simps]:
  "hit_fault w p s = (Err e, s') \<longleftrightarrow> w_hook w (st_step s) p \<and> e = Io OtherIo \<and> s' = tick s"
  by (auto simp: hit_fault_def)

lemma new_uuid_eq [tx_simps]:
  "new_uuid w s = (r, s') \<longleftrightarrow> r = Ok (uuid_simple (w_uuid w (st_step s))) \<and> s' = tick s"
  by (auto simp: new_uuid_def)

lemma if_action [tx_simps]: "(if b then m else m') s = (if b then m s else m' s)"
  by simp

text \<open>Actions that leave the database alone, and those that leave the rest of the store alone.\<close>

lemma query_db: "query w q s = (r, s') \<Longrightarrow> st_db s' = st_db s"
  by (auto simp: query_def split: if_splits)

lemma read_clock_db: "read_clock w s = (r, s') \<Longrightarrow> st_db s' = st_db s"
  by (auto simp: read_clock_def)

lemma hit_fault_db: "hit_fault w p s = (r, s') \<Longrightarrow> st_db s' = st_db s"
  by (auto simp: hit_fault_def)

lemma hit_all_db: "hit_all w ps s = (r, s') \<Longrightarrow> st_db s' = st_db s"
  by (induction w ps s rule: hit_all.induct) (auto split: if_splits)

lemma hit_all_Err: "hit_all w ps s = (Err e, s') \<Longrightarrow> e \<in> snd ` set ps"
  by (induction w ps s rule: hit_all.induct) (auto split: if_splits)

section \<open>Transactions are atomic\<close>

lemma commit_tx_cases:
  assumes "commit_tx w cr old x s = (r, s')"
  shows "(r = Ok x \<and> st_db s' = st_db s)
    \<or> (\<exists>e. r = Err e \<and> e \<in> snd ` set (before_commit cr) \<and> st_db s' = old)
    \<or> (\<exists>e. r = Err e \<and> (e = commit_error cr \<or> e \<in> snd ` set (after_commit cr)) \<and> (st_db s' = old \<or> st_db s' = st_db s))"
proof -
  obtain b s1 where h: "hit_all w (before_commit cr) s = (b, s1)" by fastforce
  show ?thesis
  proof (cases b)
    case (Inl e)
    with assms h hit_all_Err [of w "before_commit cr" s e s1] show ?thesis by (auto simp: commit_tx_def)
  next
    case (Inr u)
    obtain a s2 where h2: "hit_all w (after_commit cr) (tick s1) = (a, s2)" by fastforce
    show ?thesis
      using assms h h2 Inr hit_all_db [OF h] hit_all_db [OF h2] hit_all_Err [of w "after_commit cr" "tick s1" _ s2]
      by (auto simp: commit_tx_def split: commit_outcome.splits sum.splits)
  qed
qed

text \<open>The ways a transaction can end, in terms of the run of its body.\<close>

lemma transact_cases:
  assumes "transact w cr body s = (r, s')"
  obtains (not_begun) "r = Err Database" "st_db s' = st_db s"
  | (failed) e s2 where "body (tick s) = (Err e, s2)" "r = Err e" "st_db s' = st_db s"
  | (dropped) x s2 where "body (tick s) = (Ok (x, False), s2)" "r = Ok x" "st_db s' = st_db s"
  | (committed) x s2 where "body (tick s) = (Ok (x, True), s2)" "r = Ok x" "st_db s' = st_db s2"
  | (refused) x s2 e where "body (tick s) = (Ok (x, True), s2)" "r = Err e" "e \<in> snd ` set (before_commit cr)"
      "st_db s' = st_db s"
  | (unknown) x s2 e where "body (tick s) = (Ok (x, True), s2)" "r = Err e"
      "e = commit_error cr \<or> e \<in> snd ` set (after_commit cr)" "st_db s' = st_db s \<or> st_db s' = st_db s2"
proof (cases "w_fails w (st_step s)")
  case True
  with assms show thesis by (intro not_begun) (auto simp: transact_def query_def)
next
  case False
  obtain b s2 where b: "body (tick s) = (b, s2)" by fastforce
  show thesis
  proof (cases b)
    case (Inl e)
    with assms b False show thesis by (intro failed [of e s2]) (auto simp: transact_def query_def)
  next
    case (Inr y)
    obtain x c where y: "y = (x, c)" by fastforce
    show thesis
    proof (cases c)
      case False': False
      with assms b False Inr y show thesis by (intro dropped [of x s2]) (auto simp: transact_def query_def)
    next
      case True
      then have body: "body (tick s) = (Ok (x, True), s2)" using b Inr y by simp
      have "commit_tx w cr (st_db s) x s2 = (r, s')"
        using assms b False Inr y True by (auto simp: transact_def query_def)
      from commit_tx_cases [OF this] show thesis
        using committed [OF body] refused [OF body] unknown [OF body] by blast
    qed
  qed
qed

lemma transact_OkD:
  assumes "transact w cr body s = (Ok x, s')"
  shows "\<exists>c s2. body (tick s) = (Ok (x, c), s2) \<and> st_db s' = (if c then st_db s2 else st_db s)"
  using assms by (cases rule: transact_cases) auto

text \<open>An error that is not one of those a commit may report leaves the database as it was.\<close>

lemma transact_ErrD:
  assumes "transact w cr body s = (Err e, s')" "e \<noteq> commit_error cr" "e \<notin> snd ` set (after_commit cr)"
  shows "st_db s' = st_db s"
  using assms by (cases rule: transact_cases) auto

lemma autocommit_cases:
  assumes "autocommit w m s = (r, s')"
  obtains (failed) e s2 where "m s = (Err e, s2)" "r = Err e" "st_db s' = st_db s"
  | (committed) x s2 where "m s = (Ok x, s2)" "r = Ok x" "st_db s' = st_db s2"
  | (unknown) x s2 where "m s = (Ok x, s2)" "r = Err Database" "st_db s' = st_db s \<or> st_db s' = st_db s2"
proof -
  obtain b s2 where b: "m s = (b, s2)" by fastforce
  show thesis
  proof (cases b)
    case (Inl e)
    with assms b show thesis by (intro failed [of e s2]) (auto simp: autocommit_def)
  next
    case (Inr x)
    with assms b have "commit_tx w plain_commit (st_db s) x s2 = (r, s')" by (simp add: autocommit_def)
    from commit_tx_cases [OF this] show thesis
      using b Inr committed [of x s2] unknown [of x s2] by (auto simp: plain_commit_def)
  qed
qed

definition within :: "(database \<Rightarrow> database \<Rightarrow> bool) \<Rightarrow> 'a action \<Rightarrow> bool" where
  "within R m \<longleftrightarrow> (\<forall>s r s'. m s = (r, s') \<longrightarrow> R (st_db s) (st_db s'))"

definition within_from :: "(database \<Rightarrow> database \<Rightarrow> bool) \<Rightarrow> database \<Rightarrow> 'a action \<Rightarrow> bool" where
  "within_from R d m \<longleftrightarrow> (\<forall>s r s'. st_db s = d \<longrightarrow> m s = (r, s') \<longrightarrow> R d (st_db s'))"

lemma within_iff: "within R m \<longleftrightarrow> (\<forall>d. within_from R d m)"
  by (auto simp: within_def within_from_def)

lemma within_fromI: "(\<And>d. within_from R d m) \<Longrightarrow> within R m"
  by (simp add: within_iff)

lemma within_fromD: "within R m \<Longrightarrow> within_from R d m"
  by (simp add: within_iff)

text \<open>
  A relation between the database before and after. Where the successful run of a body stays
  within the relation, so does the transaction around it, however it ends; sequences and
  loops follow by transitivity.
\<close>

locale db_relation =
  fixes R :: "database \<Rightarrow> database \<Rightarrow> bool"
  assumes R_refl: "R d d"
    and R_trans: "R a b \<Longrightarrow> R b c \<Longrightarrow> R a c"
begin

lemma within_read:
  assumes "\<And>s. st_db (snd (m s)) = st_db s"
  shows "within R m"
  unfolding within_def
proof (intro allI impI)
  fix s r s'
  assume "m s = (r, s')"
  with assms [of s] show "R (st_db s) (st_db s')" by (simp add: R_refl)
qed

lemma within_reads [simp, intro]:
  "within R (return x)" "within R (throw e)" "within R (ensure b e)" "within R (lift_res v)" "within R (query w q)"
  "within R (read_clock w)" "within R (hit_fault w p)" "within R (new_uuid w)"
  by (rule within_read, simp add: return_def throw_def ensure_def lift_res_def query_def read_clock_def hit_fault_def
      new_uuid_def)+

lemma within_andthen [intro]:
  assumes "within R m" "\<And>x. within R (k x)"
  shows "within R (andthen m k)"
  unfolding within_def
proof (intro allI impI)
  fix s r s'
  assume a: "andthen m k s = (r, s')"
  obtain v s1 where m: "m s = (v, s1)" by fastforce
  then have "R (st_db s) (st_db s1)" using assms(1) by (auto simp: within_def)
  moreover have "R (st_db s1) (st_db s')"
    using a m assms(2) by (cases v) (auto simp: andthen_def within_def intro: R_refl)
  ultimately show "R (st_db s) (st_db s')" by (rule R_trans)
qed

lemma within_if [intro]: "within R m \<Longrightarrow> within R m' \<Longrightarrow> within R (if b then m else m')"
  by simp

lemma within_transact [intro]:
  assumes "\<And>s x c s'. body s = (Ok (x, c), s') \<Longrightarrow> R (st_db s) (st_db s')"
  shows "within R (transact w cr body)"
  unfolding within_def
proof (intro allI impI)
  fix s r s'
  assume t: "transact w cr body s = (r, s')"
  have "R (st_db s) (st_db s2)" if "body (tick s) = (Ok (x, c), s2)" for x c s2
    using assms [OF that] by simp
  with t show "R (st_db s) (st_db s')" by (cases rule: transact_cases) (metis R_refl)+
qed

lemma within_autocommit [intro]:
  assumes "\<And>s x s'. m s = (Ok x, s') \<Longrightarrow> R (st_db s) (st_db s')"
  shows "within R (autocommit w m)"
  unfolding within_def
proof (intro allI impI)
  fix s r s'
  assume "autocommit w m s = (r, s')"
  then show "R (st_db s) (st_db s')" by (cases rule: autocommit_cases) (metis R_refl assms)+
qed

lemma within_exec [intro]:
  assumes "\<And>d d'. f d = Ok d' \<Longrightarrow> R d d'"
  shows "within R (exec w f)"
  using assms by (auto simp: within_def exec_def R_refl split: if_splits sum.splits)

lemma within_exec_ret [intro]:
  assumes "\<And>d x d'. f d = Ok (x, d') \<Longrightarrow> R d d'"
  shows "within R (exec_ret w f)"
  using assms by (auto simp: within_def exec_ret_def R_refl split: if_splits sum.splits)

lemma within_body:
  assumes "within R body"
  shows "within R (transact w cr body)"
  using assms by (intro within_transact) (auto simp: within_def)

lemma within_single:
  assumes "within R m"
  shows "within R (autocommit w m)"
  using assms by (intro within_autocommit) (auto simp: within_def)

lemma within_for_each [intro]: "(\<And>x. x \<in> set xs \<Longrightarrow> within R (f x)) \<Longrightarrow> within R (for_each f xs)"
  by (induction xs) auto

lemmas within_rules = within_reads within_if within_andthen within_exec within_exec_ret within_body within_single
  within_for_each

text \<open>The same with what the action knows of the database it starts from.\<close>

lemma from_andthen:
  assumes "within_from R d m" "\<And>s x s'. st_db s = d \<Longrightarrow> m s = (Ok x, s') \<Longrightarrow> within_from R (st_db s') (k x)"
  shows "within_from R d (andthen m k)"
  unfolding within_from_def
proof (intro allI impI)
  fix s r s'
  assume s: "st_db s = d" "andthen m k s = (r, s')"
  obtain v s1 where m: "m s = (v, s1)" by fastforce
  have 1: "R d (st_db s1)" using assms(1) s m by (auto simp: within_from_def)
  show "R d (st_db s')"
  proof (cases v)
    case (Inl e)
    with s m 1 show ?thesis by (auto simp: andthen_def)
  next
    case (Inr x)
    then have "within_from R (st_db s1) (k x)" "k x s1 = (r, s')" using assms(2) s m by (auto simp: andthen_def)
    then have "R (st_db s1) (st_db s')" by (auto simp: within_from_def)
    with 1 show ?thesis by (rule R_trans)
  qed
qed

lemma from_query: "within_from R d (k (q d)) \<Longrightarrow> within_from R d (andthen (query w q) k)"
  by (rule from_andthen) (auto simp: tx_simps within_fromD)

lemma from_clock: "(\<And>x. within_from R d (k x)) \<Longrightarrow> within_from R d (andthen (read_clock w) k)"
  by (rule from_andthen) (auto simp: tx_simps within_fromD)

lemma from_ensure: "(b \<Longrightarrow> within_from R d (k ())) \<Longrightarrow> within_from R d (andthen (ensure b e) k)"
  by (rule from_andthen) (auto simp: tx_simps within_fromD)

lemma from_lift: "(\<And>x. v = Ok x \<Longrightarrow> within_from R d (k x)) \<Longrightarrow> within_from R d (andthen (lift_res v) k)"
  by (rule from_andthen) (auto simp: tx_simps within_fromD)

lemma from_uuid: "(\<And>x. within_from R d (k x)) \<Longrightarrow> within_from R d (andthen (new_uuid w) k)"
  by (rule from_andthen) (auto simp: tx_simps within_fromD)

lemma from_hit: "within_from R d (k ()) \<Longrightarrow> within_from R d (andthen (hit_fault w p) k)"
  by (rule from_andthen) (auto simp: tx_simps within_fromD)

lemma from_exec1: "(\<And>d'. f d = Ok d' \<Longrightarrow> R d d') \<Longrightarrow> within_from R d (exec w f)"
  by (auto simp: within_from_def exec_def R_refl split: if_splits sum.splits)

lemma from_exec:
  "(\<And>d'. f d = Ok d' \<Longrightarrow> R d d') \<Longrightarrow> (\<And>d'. f d = Ok d' \<Longrightarrow> within_from R d' (k ())) \<Longrightarrow> within_from R d (andthen (exec w f) k)"
  by (rule from_andthen, rule from_exec1) (auto simp: tx_simps)

lemma from_exec_ret:
  "(\<And>x d'. f d = Ok (x, d') \<Longrightarrow> R d d') \<Longrightarrow> (\<And>x d'. f d = Ok (x, d') \<Longrightarrow> within_from R d' (k x))
    \<Longrightarrow> within_from R d (andthen (exec_ret w f) k)"
  by (rule from_andthen) (auto simp: tx_simps within_from_def exec_ret_def R_refl split: if_splits sum.splits)

lemma from_if: "(b \<Longrightarrow> within_from R d m) \<Longrightarrow> (\<not> b \<Longrightarrow> within_from R d m') \<Longrightarrow> within_from R d (if b then m else m')"
  by simp

lemma from_return [simp]: "within_from R d (return x)" "within_from R d (throw e)"
  by (auto intro: within_fromD)

lemma from_transact:
  assumes "within_from R d body"
  shows "within_from R d (transact w cr body)"
  unfolding within_from_def
proof (intro allI impI)
  fix s r s'
  assume s: "st_db s = d" and t: "transact w cr body s = (r, s')"
  have "R d (st_db s2)" if "body (tick s) = (v, s2)" for v s2
    using assms [unfolded within_from_def, rule_format, OF _ that] s by simp
  with t s show "R d (st_db s')" by (cases rule: transact_cases) (metis R_refl)+
qed

lemma from_autocommit:
  assumes "within_from R d m"
  shows "within_from R d (autocommit w m)"
  unfolding within_from_def
proof (intro allI impI)
  fix s r s'
  assume s: "st_db s = d" and t: "autocommit w m s = (r, s')"
  have "R d (st_db s2)" if "m s = (v, s2)" for v s2
    using assms that s by (auto simp: within_from_def)
  with t s show "R d (st_db s')" by (cases rule: autocommit_cases) (metis R_refl)+
qed

lemmas from_rules = from_query from_clock from_ensure from_lift from_uuid from_hit from_exec from_exec_ret from_exec1 from_if
  from_transact from_autocommit

lemma for_each_within:
  assumes "for_each f xs s = (Ok u, s')"
    and "\<And>x s1 s2. x \<in> set xs \<Longrightarrow> f x s1 = (Ok (), s2) \<Longrightarrow> R (st_db s1) (st_db s2)"
  shows "R (st_db s) (st_db s')"
  using assms
proof (induction xs arbitrary: s)
  case (Cons x xs)
  then obtain s1 where "f x s = (Ok (), s1)" "for_each f xs s1 = (Ok u, s')" by (auto simp: tx_simps)
  then have "R (st_db s) (st_db s1)" "R (st_db s1) (st_db s')"
    using Cons.IH [of s1] Cons.prems(2) by auto
  then show ?case by (rule R_trans)
qed (auto simp: tx_simps intro: R_refl)

end

section \<open>Postconditions\<close>

text \<open>What holds of the result and the database when an action succeeds. A transaction is within a
  relation where its body establishes it on success: a body that fails is rolled back.\<close>

definition post :: "'a action \<Rightarrow> database \<Rightarrow> ('a \<Rightarrow> database \<Rightarrow> bool) \<Rightarrow> bool" where
  "post m d Q \<longleftrightarrow> (\<forall>s x s'. st_db s = d \<longrightarrow> m s = (Ok x, s') \<longrightarrow> Q x (st_db s'))"

lemma postD: "post m (st_db s) Q \<Longrightarrow> m s = (Ok x, s') \<Longrightarrow> Q x (st_db s')"
  by (simp add: post_def)

lemma postI: "(\<And>s x s'. st_db s = d \<Longrightarrow> m s = (Ok x, s') \<Longrightarrow> Q x (st_db s')) \<Longrightarrow> post m d Q"
  by (simp add: post_def)

lemma post_weaken: "post m d P \<Longrightarrow> (\<And>x d'. P x d' \<Longrightarrow> Q x d') \<Longrightarrow> post m d Q"
  by (fastforce simp: post_def)

lemma post_return: "Q x d \<Longrightarrow> post (return x) d Q"
  by (simp add: post_def tx_simps)

lemma post_throw: "post (throw e) d Q"
  by (simp add: post_def tx_simps)

lemma post_andthen: "post m d (\<lambda>x d'. post (k x) d' Q) \<Longrightarrow> post (andthen m k) d Q"
  by (rule postI) (auto simp: tx_simps dest: postD)

lemma post_query: "Q (q d) d \<Longrightarrow> post (query w q) d Q"
  by (auto simp: post_def tx_simps)

lemma post_exec: "(\<And>d'. f d = Ok d' \<Longrightarrow> Q () d') \<Longrightarrow> post (exec w f) d Q"
  by (auto simp: post_def tx_simps)

lemma post_exec_ret: "(\<And>x d'. f d = Ok (x, d') \<Longrightarrow> Q x d') \<Longrightarrow> post (exec_ret w f) d Q"
  by (auto simp: post_def tx_simps)

lemma post_clock: "(\<And>x. 0 \<le> x \<Longrightarrow> Q x d) \<Longrightarrow> post (read_clock w) d Q"
  by (auto simp: post_def tx_simps)

lemma post_uuid: "(\<And>n. Q (uuid_simple (w_uuid w n)) d) \<Longrightarrow> post (new_uuid w) d Q"
  by (auto simp: post_def tx_simps)

lemma post_hit: "Q () d \<Longrightarrow> post (hit_fault w p) d Q"
  by (auto simp: post_def tx_simps)

lemma post_ensure: "(b \<Longrightarrow> Q () d) \<Longrightarrow> post (ensure b e) d Q"
  by (auto simp: post_def tx_simps)

lemma post_lift: "(\<And>x. v = Ok x \<Longrightarrow> Q x d) \<Longrightarrow> post (lift_res v) d Q"
  by (auto simp: post_def tx_simps)

lemma post_if: "(b \<Longrightarrow> post m d Q) \<Longrightarrow> (\<not> b \<Longrightarrow> post m' d Q) \<Longrightarrow> post (if b then m else m') d Q"
  by simp

lemma post_prod: "(\<And>a b. x = (a, b) \<Longrightarrow> post (f a b) d Q) \<Longrightarrow> post (case x of (a, b) \<Rightarrow> f a b) d Q"
  by (cases x) simp

lemma post_for_each:
  assumes "I xs d" "\<And>x xs d. I (x # xs) d \<Longrightarrow> post (f x) d (\<lambda>_ d'. I xs d')" "\<And>d. I [] d \<Longrightarrow> Q () d"
  shows "post (for_each f xs) d Q"
  using assms(1)
proof (induction xs arbitrary: d)
  case Nil
  then show ?case by (auto intro: post_return assms(3))
next
  case (Cons x xs)
  have "post (f x) d (\<lambda>u d'. post (for_each f xs) d' Q)"
    by (rule post_weaken [OF assms(2) [OF Cons.prems]]) (rule Cons.IH)
  then show ?case by (auto intro: post_andthen)
qed

lemmas post_rules = post_return post_throw post_andthen post_query post_exec post_exec_ret post_clock post_uuid post_hit
  post_ensure post_lift post_if post_prod

lemma transact_post:
  assumes "\<And>d. R d d" "post body d (\<lambda>(x, c) d'. c \<longrightarrow> R d d')"
  shows "within_from R d (transact w cr body)"
  unfolding within_from_def
proof (intro allI impI)
  fix s r s'
  assume s: "st_db s = d" and t: "transact w cr body s = (r, s')"
  have b: "R d (st_db s2)" if "body (tick s) = (Ok (x, True), s2)" for x s2
    using assms(2) [unfolded post_def, rule_format, of "tick s" "(x, True)" s2] that s by simp
  from t show "R d (st_db s')"
    by (cases rule: transact_cases) (use s b assms(1) in auto)
qed

section \<open>Rows\<close>

lemma first_row_Some: "first_row p t = Some r \<Longrightarrow> r \<in> set t \<and> p r"
  by (induction t) (auto split: if_splits)

lemma first_row_None: "first_row p t = None \<longleftrightarrow> (\<forall>r\<in>set t. \<not> p r)"
  by (induction t) auto

lemma insert_row_Ok [simp]: "insert_row r ok t = Ok t' \<longleftrightarrow> ok \<and> t' = t @ [r]"
  by (auto simp: insert_row_def)

lemma update_rows_Ok [simp]:
  "update_rows p f ok t = Ok t' \<longleftrightarrow> (\<forall>r\<in>set t. p r \<longrightarrow> ok (f r)) \<and> t' = map (\<lambda>r. if p r then f r else r) t"
  by (auto simp: update_rows_def list_all_iff)

lemma unsigned_column_Ok [simp]: "unsigned_column v = Ok n \<longleftrightarrow> 0 \<le> v \<and> n = nat v"
  by (auto simp: unsigned_column_def)

text \<open>A table whose rows are told apart by a key: at most one row per key, and looking a key up finds
  exactly the row that has it. Insertions of fresh keys and updates that keep the key preserve it.\<close>

locale keyed_table =
  fixes key :: "'r \<Rightarrow> 'k" and keyed :: "'r list \<Rightarrow> bool"
  assumes keyed_iff: "keyed t \<longleftrightarrow> distinct (map key t)"
begin

lemma keyed_insert: "keyed t \<Longrightarrow> fresh_key key (key r) t \<Longrightarrow> keyed (t @ [r])"
  by (auto simp: keyed_iff fresh_key_def)

lemma keyed_update: "keyed t \<Longrightarrow> (\<And>r. r \<in> set t \<Longrightarrow> key (f r) = key r) \<Longrightarrow> keyed (map f t)"
  by (simp add: keyed_iff cong: map_cong)

lemma keyed_filter: "keyed t \<Longrightarrow> keyed (filter p t)"
  by (auto simp: keyed_iff intro: distinct_map_filter)

lemma keyed_same: "keyed t \<Longrightarrow> r \<in> set t \<Longrightarrow> r' \<in> set t \<Longrightarrow> key r = key r' \<Longrightarrow> r = r'"
  by (auto simp: keyed_iff distinct_map inj_on_def)

lemma keyed_first_row:
  assumes "keyed t" "r \<in> set t"
  shows "first_row (\<lambda>x. key x = key r) t = Some r"
proof (cases "first_row (\<lambda>x. key x = key r) t")
  case None
  with assms(2) show ?thesis unfolding first_row_None by blast
next
  case (Some r')
  with assms keyed_same [of t r' r] show ?thesis by (auto dest: first_row_Some)
qed

lemma keyed_set_update:
  assumes "keyed t" "r \<in> set t"
  shows "set (map (\<lambda>x. if key x = key r then f x else x) t) = insert (f r) {x \<in> set t. key x \<noteq> key r}"
proof -
  have "set t = insert r {x \<in> set t. key x \<noteq> key r}" using keyed_same [OF assms(1) _ assms(2)] assms(2) by blast
  then have "set (map (\<lambda>x. if key x = key r then f x else x) t)
      = (\<lambda>x. if key x = key r then f x else x) ` insert r {x \<in> set t. key x \<noteq> key r}" by simp
  also have "\<dots> = insert (f r) {x \<in> set t. key x \<noteq> key r}" by auto
  finally show ?thesis .
qed

lemma keyed_count:
  "keyed t \<Longrightarrow> length (filter (\<lambda>x. key x = k) t) = (if has_key key k t then 1 else 0)"
proof (induction t)
  case (Cons a t)
  then show ?case
    by (auto simp: keyed_iff has_key_def image_iff filter_empty_conv)
qed (simp add: has_key_def)

end

definition keyed_by :: "('r \<Rightarrow> 'k) \<Rightarrow> 'r list \<Rightarrow> bool" where
  "keyed_by k t \<longleftrightarrow> distinct (map k t)"

interpretation ac: keyed_table ac_id "keyed_by ac_id" by unfold_locales (simp add: keyed_by_def)
interpretation al: keyed_table ac_login "keyed_by ac_login" by unfold_locales (simp add: keyed_by_def)
interpretation cr: keyed_table cr_id "keyed_by cr_id" by unfold_locales (simp add: keyed_by_def)
interpretation cs: keyed_table cr_selector "keyed_by cr_selector" by unfold_locales (simp add: keyed_by_def)
interpretation ad: keyed_table ad_address "keyed_by ad_address" by unfold_locales (simp add: keyed_by_def)
interpretation mb: keyed_table mb_id "keyed_by mb_id" by unfold_locales (simp add: keyed_by_def)
interpretation bl: keyed_table bl_id "keyed_by bl_id" by unfold_locales (simp add: keyed_by_def)
interpretation ms: keyed_table ms_id "keyed_by ms_id" by unfold_locales (simp add: keyed_by_def)
interpretation mk: keyed_table ms_ingest_key "keyed_by ms_ingest_key" by unfold_locales (simp add: keyed_by_def)
interpretation de: keyed_table de_id "keyed_by de_id" by unfold_locales (simp add: keyed_by_def)
interpretation qm: keyed_table qm_message "keyed_by qm_message" by unfold_locales (simp add: keyed_by_def)
interpretation ql: keyed_table ql_delivery "keyed_by ql_delivery" by unfold_locales (simp add: keyed_by_def)

lemma next_rowid_fresh: "next_rowid (map k t) \<notin> k ` set t"
proof (cases "t = []")
  case False
  have "Max (k ` set t) + 1 \<notin> k ` set t"
    using Max_ge [of "k ` set t" "Max (k ` set t) + 1"] by auto
  with False show ?thesis by (simp add: next_rowid_def)
qed simp

lemma length_uuid_simple [simp]: "length (uuid_simple bs) = 2 * length bs"
  by (induction bs) (auto simp: uuid_simple_def)

section \<open>A world in which nothing fails\<close>

definition quiet_world :: world where
  "quiet_world = \<lparr>w_uuid = \<lambda>n. [n mod 256, n div 256 mod 256] @ replicate 14 0, w_fails = \<lambda>_. False, w_wall = \<lambda>n. Ok (int n + 1000),
     w_mono = \<lambda>n. n, w_hook = \<lambda>_ _. False, w_commit = \<lambda>_. Committed\<rparr>"

definition store_of :: "database \<Rightarrow> store" where
  "store_of d = \<lparr>st_db = d, st_step = 0, st_instance = 1, st_queue = new_queue_runtime\<rparr>"

end
