(* ===== verification/Schema.thy ===== *)
theory Schema
  imports Database
begin

text \<open>
  The constraints of \<open>crates/store/schema.sql\<close>: what a row has to satisfy (\<open>_ok\<close>, the \<open>CHECK\<close> clauses and
  the range of \<open>INTEGER\<close> columns), the insertions with their key and reference checks, the
  updates and the deletion the sources use. \<open>db_ok\<close> is what the schema promises of every reachable
  database: keys are unique, references resolve, rows satisfy their checks. Every statement keeps it.
\<close>

section \<open>Row constraints\<close>

definition account_ok :: "account_row \<Rightarrow> bool" where
  "account_ok a \<longleftrightarrow> 0 \<le> ac_quota a \<and> in_i64 (ac_quota a) \<and> 0 \<le> ac_used a \<and> in_i64 (ac_used a)
     \<and> 0 < ac_epoch a \<and> in_i64 (ac_epoch a)"

definition mailbox_ok :: "mailbox_row \<Rightarrow> bool" where
  "mailbox_ok m \<longleftrightarrow> 1 \<le> mb_uidvalidity m \<and> mb_uidvalidity m \<le> 4294967295
     \<and> 1 \<le> mb_uidnext m \<and> mb_uidnext m \<le> 4294967296 \<and> 0 \<le> mb_event_seq m \<and> in_i64 (mb_event_seq m)"

definition blob_ok :: "blob_row \<Rightarrow> bool" where
  "blob_ok b \<longleftrightarrow> length (bl_id b) = 32 \<and> 0 \<le> bl_size b \<and> in_i64 (bl_size b) \<and> length (bl_sha256 b) = 64"

definition message_ok :: "message_row \<Rightarrow> bool" where
  "message_ok m \<longleftrightarrow> length (ms_id m) = 32"

definition delivery_ok :: "delivery_row \<Rightarrow> bool" where
  "delivery_ok r \<longleftrightarrow> length (de_id r) = 32 \<and> 0 \<le> de_attempts r \<and> in_i64 (de_attempts r)
     \<and> 0 \<le> de_generation r \<and> in_i64 (de_generation r) \<and> in_i64 (de_next r) \<and> in_i64 (de_expires r)
     \<and> (case de_code r of None \<Rightarrow> True | Some c \<Rightarrow> 200 \<le> c \<and> c \<le> 599)
     \<and> (case de_diagnostic r of None \<Rightarrow> True | Some t \<Rightarrow> int (length t) \<le> 2048)
     \<and> (case de_note_error r of None \<Rightarrow> True | Some t \<Rightarrow> int (length t) \<le> 256)
     \<and> (de_token r = None \<longleftrightarrow> de_until r = None)
     \<and> (de_state r = StLeased \<longrightarrow> de_token r \<noteq> None)"

definition mailbox_message_ok :: "mailbox_message_row \<Rightarrow> bool" where
  "mailbox_message_ok m \<longleftrightarrow> 1 \<le> mm_uid m \<and> mm_uid m \<le> 4294967295"

definition mailbox_event_ok :: "mailbox_event_row \<Rightarrow> bool" where
  "mailbox_event_ok v \<longleftrightarrow> 0 < ev_seq v \<and> in_i64 (ev_seq v)
     \<and> (case ev_uid v of None \<Rightarrow> True | Some u \<Rightarrow> 1 \<le> u \<and> u \<le> 4294967295) \<and> int (length (ev_payload v)) \<le> 65536"

definition queue_message_ok :: "queue_message_row \<Rightarrow> bool" where
  "queue_message_ok q \<longleftrightarrow> 1 \<le> qm_age q \<and> qm_age q \<le> 604800"

definition admin_event_ok :: "admin_event_row \<Rightarrow> bool" where
  "admin_event_ok q \<longleftrightarrow> 1 \<le> length (qa_note q) \<and> length (qa_note q) \<le> 512"

section \<open>Insertions\<close>

definition insert_account :: "string \<Rightarrow> int \<Rightarrow> int \<Rightarrow> database \<Rightarrow> store_error + int \<times> database" where
  "insert_account login quota now d =
     (let i = next_rowid (map ac_id (accounts d));
          r = \<lparr>ac_id = i, ac_login = login, ac_status = AccountActive, ac_quota = quota, ac_used = 0,
               ac_epoch = 1, ac_created = now\<rparr>
      in map_sum id (\<lambda>t. (i, d\<lparr>accounts := t\<rparr>))
           (insert_row r (in_i64 i \<and> account_ok r \<and> fresh_key ac_login login (accounts d)) (accounts d)))"

definition insert_credential ::
  "int \<Rightarrow> string \<Rightarrow> string \<Rightarrow> string \<Rightarrow> cred_scope \<Rightarrow> int \<Rightarrow> database \<Rightarrow> store_error + int \<times> database" where
  "insert_credential account selector label phc scope now d =
     (let i = next_rowid (map cr_id (credentials d));
          r = \<lparr>cr_id = i, cr_account = account, cr_selector = selector, cr_label = label, cr_phc = phc,
               cr_scope = scope, cr_revoked = None, cr_last_used = None, cr_created = now\<rparr>
      in map_sum id (\<lambda>t. (i, d\<lparr>credentials := t\<rparr>))
           (insert_row r (in_i64 i \<and> fresh_key cr_selector selector (credentials d)
              \<and> has_key ac_id account (accounts d)) (credentials d)))"

definition insert_address :: "address_row \<Rightarrow> database \<Rightarrow> store_error + database" where
  "insert_address r d = map_sum id (\<lambda>t. d\<lparr>addresses := t\<rparr>)
     (insert_row r (fresh_key ad_address (ad_address r) (addresses d) \<and> has_key ac_id (ad_account r) (accounts d))
        (addresses d))"

definition insert_mailbox :: "int \<Rightarrow> string \<Rightarrow> int \<Rightarrow> database \<Rightarrow> store_error + database" where
  "insert_mailbox account name uidvalidity d =
     (let i = next_rowid (map mb_id (mailboxes d));
          r = \<lparr>mb_id = i, mb_account = account, mb_name = name, mb_uidvalidity = uidvalidity, mb_uidnext = 1,
               mb_event_seq = 0\<rparr>
      in map_sum id (\<lambda>t. d\<lparr>mailboxes := t\<rparr>)
           (insert_row r (in_i64 i \<and> mailbox_ok r \<and> has_key ac_id account (accounts d)
              \<and> fresh_key (\<lambda>m. (mb_account m, mb_name m)) (account, name) (mailboxes d)) (mailboxes d)))"

definition insert_subscription :: "int \<Rightarrow> string \<Rightarrow> database \<Rightarrow> store_error + database" where
  "insert_subscription account name d = map_sum id (\<lambda>t. d\<lparr>subscriptions := t\<rparr>)
     (insert_row \<lparr>su_account = account, su_name = name\<rparr>
        (has_key ac_id account (accounts d)
         \<and> fresh_key (\<lambda>u. (su_account u, su_name u)) (account, name) (subscriptions d)) (subscriptions d))"

definition insert_blob :: "blob_row \<Rightarrow> database \<Rightarrow> store_error + database" where
  "insert_blob r d = map_sum id (\<lambda>t. d\<lparr>blob_rows := t\<rparr>)
     (insert_row r (blob_ok r \<and> fresh_key bl_id (bl_id r) (blob_rows d)) (blob_rows d))"

definition insert_message :: "message_row \<Rightarrow> database \<Rightarrow> store_error + database" where
  "insert_message r d = map_sum id (\<lambda>t. d\<lparr>messages := t\<rparr>)
     (insert_row r (message_ok r \<and> fresh_key ms_id (ms_id r) (messages d)
        \<and> fresh_key ms_ingest_key (ms_ingest_key r) (messages d) \<and> has_key bl_id (ms_blob r) (blob_rows d)
        \<and> optional_key ac_id (ms_account r) (accounts d)) (messages d))"

text \<open>The columns an insertion into \<open>delivery\<close> leaves to their defaults.\<close>

definition new_delivery ::
  "string \<Rightarrow> string \<Rightarrow> string \<Rightarrow> route \<Rightarrow> string \<Rightarrow> delivery_state \<Rightarrow> int \<Rightarrow> int \<Rightarrow> delivery_row" where
  "new_delivery i m recipient rt dm st nxt expires =
     \<lparr>de_id = i, de_message = m, de_recipient = recipient, de_route = rt, de_domain = dm, de_state = st,
      de_attempts = 0, de_next = nxt, de_expires = expires, de_token = None, de_until = None,
      de_generation = 0, de_code = None, de_diagnostic = None, de_reason = None, de_possibly = False,
      de_closed = None, de_note = NotePending, de_note_error = None, de_note_due = 0\<rparr>"

definition insert_delivery :: "delivery_row \<Rightarrow> database \<Rightarrow> store_error + database" where
  "insert_delivery r d = map_sum id (\<lambda>t. d\<lparr>deliveries := t\<rparr>)
     (insert_row r (delivery_ok r \<and> fresh_key de_id (de_id r) (deliveries d)
        \<and> has_key ms_id (de_message r) (messages d)
        \<and> fresh_key (\<lambda>x. (de_message x, de_recipient x)) (de_message r, de_recipient r) (deliveries d)) (deliveries d))"

definition insert_mailbox_message :: "mailbox_message_row \<Rightarrow> database \<Rightarrow> store_error + database" where
  "insert_mailbox_message r d = map_sum id (\<lambda>t. d\<lparr>mailbox_messages := t\<rparr>)
     (insert_row r (mailbox_message_ok r \<and> has_key mb_id (mm_mailbox r) (mailboxes d)
        \<and> has_key ms_id (mm_message r) (messages d) \<and> optional_key de_id (mm_delivery r) (deliveries d)
        \<and> (mm_delivery r = None \<or> fresh_key mm_delivery (mm_delivery r) (mailbox_messages d))
        \<and> fresh_key (\<lambda>x. (mm_mailbox x, mm_uid x)) (mm_mailbox r, mm_uid r) (mailbox_messages d)) (mailbox_messages d))"

definition insert_mailbox_event :: "mailbox_event_row \<Rightarrow> database \<Rightarrow> store_error + database" where
  "insert_mailbox_event r d = map_sum id (\<lambda>t. d\<lparr>mailbox_events := t\<rparr>)
     (insert_row r (mailbox_event_ok r \<and> has_key mb_id (ev_mailbox r) (mailboxes d)
        \<and> fresh_key (\<lambda>x. (ev_mailbox x, ev_seq x)) (ev_mailbox r, ev_seq r) (mailbox_events d)) (mailbox_events d))"

definition insert_notification :: "notification_row \<Rightarrow> database \<Rightarrow> store_error + database" where
  "insert_notification r d = map_sum id (\<lambda>t. d\<lparr>notifications := t\<rparr>)
     (insert_row r (has_key de_id (no_delivery r) (deliveries d) \<and> has_key ms_id (no_report r) (messages d)
        \<and> fresh_key no_delivery (no_delivery r) (notifications d)) (notifications d))"

definition insert_queue_message :: "queue_message_row \<Rightarrow> database \<Rightarrow> store_error + database" where
  "insert_queue_message r d = map_sum id (\<lambda>t. d\<lparr>queue_messages := t\<rparr>)
     (insert_row r (queue_message_ok r \<and> has_key ms_id (qm_message r) (messages d)
        \<and> fresh_key qm_message (qm_message r) (queue_messages d)) (queue_messages d))"

definition insert_queue_lease :: "queue_lease_row \<Rightarrow> database \<Rightarrow> store_error + database" where
  "insert_queue_lease r d = map_sum id (\<lambda>t. d\<lparr>queue_leases := t\<rparr>)
     (insert_row r (has_key de_id (ql_delivery r) (deliveries d)
        \<and> fresh_key ql_delivery (ql_delivery r) (queue_leases d)) (queue_leases d))"

definition insert_admin_event ::
  "string \<Rightarrow> admin_action \<Rightarrow> delivery_state \<Rightarrow> delivery_state \<Rightarrow> string \<Rightarrow> bool \<Rightarrow> bool \<Rightarrow> int \<Rightarrow>
     database \<Rightarrow> store_error + database" where
  "insert_admin_event dl act old new note duplicate ext now d =
     (let i = next_rowid (map qa_id (admin_events d));
          r = \<lparr>qa_id = i, qa_delivery = dl, qa_action = act, qa_before = old, qa_after = new, qa_note = note,
               qa_duplicate = duplicate, qa_extend = ext, qa_created = now\<rparr>
      in map_sum id (\<lambda>t. d\<lparr>admin_events := t\<rparr>)
           (insert_row r (in_i64 i \<and> admin_event_ok r \<and> has_key de_id dl (deliveries d)) (admin_events d)))"

section \<open>Updates and deletions\<close>

definition update_accounts :: "(account_row \<Rightarrow> bool) \<Rightarrow> (account_row \<Rightarrow> account_row) \<Rightarrow> database \<Rightarrow> store_error + database" where
  "update_accounts p f d = map_sum id (\<lambda>t. d\<lparr>accounts := t\<rparr>) (update_rows p f account_ok (accounts d))"

definition update_credentials ::
  "(credential_row \<Rightarrow> bool) \<Rightarrow> (credential_row \<Rightarrow> credential_row) \<Rightarrow> database \<Rightarrow> store_error + database" where
  "update_credentials p f d = map_sum id (\<lambda>t. d\<lparr>credentials := t\<rparr>) (update_rows p f (\<lambda>_. True) (credentials d))"

definition update_addresses :: "(address_row \<Rightarrow> bool) \<Rightarrow> (address_row \<Rightarrow> address_row) \<Rightarrow> database \<Rightarrow> store_error + database" where
  "update_addresses p f d = map_sum id (\<lambda>t. d\<lparr>addresses := t\<rparr>) (update_rows p f (\<lambda>_. True) (addresses d))"

definition update_mailboxes :: "(mailbox_row \<Rightarrow> bool) \<Rightarrow> (mailbox_row \<Rightarrow> mailbox_row) \<Rightarrow> database \<Rightarrow> store_error + database" where
  "update_mailboxes p f d = map_sum id (\<lambda>t. d\<lparr>mailboxes := t\<rparr>) (update_rows p f mailbox_ok (mailboxes d))"

definition update_deliveries :: "(delivery_row \<Rightarrow> bool) \<Rightarrow> (delivery_row \<Rightarrow> delivery_row) \<Rightarrow> database \<Rightarrow> store_error + database" where
  "update_deliveries p f d = map_sum id (\<lambda>t. d\<lparr>deliveries := t\<rparr>) (update_rows p f delivery_ok (deliveries d))"

definition update_leases ::
  "(queue_lease_row \<Rightarrow> bool) \<Rightarrow> (queue_lease_row \<Rightarrow> queue_lease_row) \<Rightarrow> database \<Rightarrow> store_error + database" where
  "update_leases p f d = map_sum id (\<lambda>t. d\<lparr>queue_leases := t\<rparr>) (update_rows p f (\<lambda>_. True) (queue_leases d))"

definition delete_lease :: "string \<Rightarrow> database \<Rightarrow> store_error + database" where
  "delete_lease i d = Ok (d\<lparr>queue_leases := filter (\<lambda>q. ql_delivery q \<noteq> i) (queue_leases d)\<rparr>)"

section \<open>What the schema promises\<close>

definition keys_ok :: "database \<Rightarrow> bool" where
  "keys_ok d \<longleftrightarrow> keyed_by ac_id (accounts d) \<and> keyed_by ac_login (accounts d)
     \<and> keyed_by cr_id (credentials d) \<and> keyed_by cr_selector (credentials d)
     \<and> keyed_by ad_address (addresses d)
     \<and> keyed_by mb_id (mailboxes d) \<and> keyed_by (\<lambda>m. (mb_account m, mb_name m)) (mailboxes d)
     \<and> keyed_by (\<lambda>u. (su_account u, su_name u)) (subscriptions d)
     \<and> keyed_by bl_id (blob_rows d) \<and> keyed_by ms_id (messages d) \<and> keyed_by ms_ingest_key (messages d)
     \<and> keyed_by de_id (deliveries d) \<and> keyed_by (\<lambda>x. (de_message x, de_recipient x)) (deliveries d)
     \<and> keyed_by (\<lambda>x. (mm_mailbox x, mm_uid x)) (mailbox_messages d)
     \<and> keyed_by mm_delivery (filter (\<lambda>x. mm_delivery x \<noteq> None) (mailbox_messages d))
     \<and> keyed_by (\<lambda>x. (ev_mailbox x, ev_seq x)) (mailbox_events d)
     \<and> keyed_by no_delivery (notifications d) \<and> keyed_by qm_message (queue_messages d)
     \<and> keyed_by ql_delivery (queue_leases d) \<and> keyed_by qa_id (admin_events d)"

definition refs_ok :: "database \<Rightarrow> bool" where
  "refs_ok d \<longleftrightarrow>
     list_all (\<lambda>c. has_key ac_id (cr_account c) (accounts d)) (credentials d)
   \<and> list_all (\<lambda>a. has_key ac_id (ad_account a) (accounts d)) (addresses d)
   \<and> list_all (\<lambda>m. has_key ac_id (mb_account m) (accounts d)) (mailboxes d)
   \<and> list_all (\<lambda>u. has_key ac_id (su_account u) (accounts d)) (subscriptions d)
   \<and> list_all (\<lambda>m. has_key bl_id (ms_blob m) (blob_rows d) \<and> optional_key ac_id (ms_account m) (accounts d)) (messages d)
   \<and> list_all (\<lambda>r. has_key ms_id (de_message r) (messages d)) (deliveries d)
   \<and> list_all (\<lambda>m. has_key mb_id (mm_mailbox m) (mailboxes d) \<and> has_key ms_id (mm_message m) (messages d)
       \<and> optional_key de_id (mm_delivery m) (deliveries d)) (mailbox_messages d)
   \<and> list_all (\<lambda>v. has_key mb_id (ev_mailbox v) (mailboxes d)) (mailbox_events d)
   \<and> list_all (\<lambda>n. has_key de_id (no_delivery n) (deliveries d) \<and> has_key ms_id (no_report n) (messages d)) (notifications d)
   \<and> list_all (\<lambda>q. has_key ms_id (qm_message q) (messages d)) (queue_messages d)
   \<and> list_all (\<lambda>q. has_key de_id (ql_delivery q) (deliveries d)) (queue_leases d)
   \<and> list_all (\<lambda>q. has_key de_id (qa_delivery q) (deliveries d)) (admin_events d)"

definition rows_ok :: "database \<Rightarrow> bool" where
  "rows_ok d \<longleftrightarrow> list_all account_ok (accounts d) \<and> list_all mailbox_ok (mailboxes d) \<and> list_all blob_ok (blob_rows d)
     \<and> list_all message_ok (messages d) \<and> list_all delivery_ok (deliveries d)
     \<and> list_all mailbox_message_ok (mailbox_messages d) \<and> list_all mailbox_event_ok (mailbox_events d)
     \<and> list_all queue_message_ok (queue_messages d) \<and> list_all admin_event_ok (admin_events d)"

definition db_ok :: "database \<Rightarrow> bool" where
  "db_ok d \<longleftrightarrow> keys_ok d \<and> refs_ok d \<and> rows_ok d"

text \<open>The references, one by one.\<close>

lemma refs_okD:
  assumes "db_ok d"
  shows "c \<in> set (credentials d) \<Longrightarrow> cr_account c \<in> ac_id ` set (accounts d)"
    "a \<in> set (addresses d) \<Longrightarrow> ad_account a \<in> ac_id ` set (accounts d)"
    "b \<in> set (mailboxes d) \<Longrightarrow> mb_account b \<in> ac_id ` set (accounts d)"
    "m \<in> set (messages d) \<Longrightarrow> ms_blob m \<in> bl_id ` set (blob_rows d)"
    "r \<in> set (deliveries d) \<Longrightarrow> de_message r \<in> ms_id ` set (messages d)"
    "x \<in> set (mailbox_messages d) \<Longrightarrow> mm_mailbox x \<in> mb_id ` set (mailboxes d)"
    "x \<in> set (mailbox_messages d) \<Longrightarrow> mm_message x \<in> ms_id ` set (messages d)"
    "x \<in> set (mailbox_messages d) \<Longrightarrow> mm_delivery x = Some i \<Longrightarrow> i \<in> de_id ` set (deliveries d)"
    "v \<in> set (mailbox_events d) \<Longrightarrow> ev_mailbox v \<in> mb_id ` set (mailboxes d)"
    "n \<in> set (notifications d) \<Longrightarrow> no_delivery n \<in> de_id ` set (deliveries d)"
    "q \<in> set (queue_messages d) \<Longrightarrow> qm_message q \<in> ms_id ` set (messages d)"
    "l \<in> set (queue_leases d) \<Longrightarrow> ql_delivery l \<in> de_id ` set (deliveries d)"
  using assms unfolding db_ok_def refs_ok_def has_key_def optional_key_def list_all_iff by (force simp del: image_iff)+

lemma empty_database_ok: "db_ok empty_database"
  by (simp add: db_ok_def keys_ok_def refs_ok_def rows_ok_def empty_database_def keyed_by_def)

subsection \<open>Keys and references under statements\<close>

lemma keyed_by_snoc [simp]: "keyed_by k (t @ [r]) \<longleftrightarrow> keyed_by k t \<and> fresh_key k (k r) t"
  by (auto simp: keyed_by_def fresh_key_def)

lemma keyed_by_Nil [simp]: "keyed_by k []"
  by (simp add: keyed_by_def)

lemma keyed_by_map [simp]:
  "(\<And>r. k (f r) = k r) \<Longrightarrow> keyed_by k (map (\<lambda>r. if p r then f r else r) t) = keyed_by k t"
proof -
  assume "\<And>r. k (f r) = k r"
  then have "map k (map (\<lambda>r. if p r then f r else r) t) = map k t" by simp
  then show ?thesis by (simp only: keyed_by_def)
qed

lemma keyed_by_filter [simp]: "keyed_by k t \<Longrightarrow> keyed_by k (filter p t)"
  by (auto simp: keyed_by_def intro: distinct_map_filter)

lemma has_key_snoc [simp]: "has_key k v (t @ [r]) \<longleftrightarrow> has_key k v t \<or> v = k r"
  by (auto simp: has_key_def)

lemma has_key_map [simp]:
  "(\<And>r. k (f r) = k r) \<Longrightarrow> has_key k v (map (\<lambda>r. if p r then f r else r) t) = has_key k v t"
proof -
  assume same: "\<And>r. k (f r) = k r"
  have "(\<lambda>r. k (if p r then f r else r)) ` set t = k ` set t" by (rule image_cong) (simp_all add: same)
  then have "k ` (\<lambda>r. if p r then f r else r) ` set t = k ` set t" unfolding image_image .
  then show ?thesis by (simp only: has_key_def set_map)
qed

lemma optional_key_snoc: "optional_key k v t \<Longrightarrow> optional_key k v (t @ [r])"
  by (auto simp: optional_key_def split: option.splits)

lemma optional_key_map [simp]:
  "(\<And>r. k (f r) = k r) \<Longrightarrow> optional_key k v (map (\<lambda>r. if p r then f r else r) t) = optional_key k v t"
  by (simp add: optional_key_def split: option.splits)

lemma list_all_map_if:
  "list_all P t \<Longrightarrow> (\<And>r. r \<in> set t \<Longrightarrow> p r \<Longrightarrow> P r \<Longrightarrow> P (f r)) \<Longrightarrow> list_all P (map (\<lambda>r. if p r then f r else r) t)"
  by (auto simp: list_all_iff)

lemma list_all_weaken: "list_all P t \<Longrightarrow> (\<And>r. P r \<Longrightarrow> Q r) \<Longrightarrow> list_all Q t"
  by (auto simp: list_all_iff)

lemma next_rowid_fresh_key [simp]: "fresh_key k (next_rowid (map k t)) t"
  using next_rowid_fresh [of k t] by (simp add: fresh_key_def)

subsection \<open>Every statement keeps the schema\<close>

lemmas db_ok_defs = db_ok_def keys_ok_def refs_ok_def rows_ok_def

lemma list_all_filtered [simp]: "list_all P t \<Longrightarrow> list_all P (filter q t)"
  by (auto simp: list_all_iff)

lemma fresh_key_filter [simp]: "fresh_key k v t \<Longrightarrow> fresh_key k v (filter p t)"
  by (auto simp: fresh_key_def)

lemma insert_account_ok: "insert_account login quota now d = Ok (i, d') \<Longrightarrow> db_ok d \<Longrightarrow> db_ok d'"
  by (auto simp: insert_account_def Let_def db_ok_defs res_simps elim!: list_all_weaken intro: optional_key_snoc)

lemma insert_credential_ok: "insert_credential a sel lab phc sc now d = Ok (i, d') \<Longrightarrow> db_ok d \<Longrightarrow> db_ok d'"
  by (auto simp: insert_credential_def Let_def db_ok_defs res_simps elim!: list_all_weaken intro: optional_key_snoc)

lemma insert_address_ok: "insert_address r d = Ok d' \<Longrightarrow> db_ok d \<Longrightarrow> db_ok d'"
  by (auto simp: insert_address_def Let_def db_ok_defs res_simps elim!: list_all_weaken intro: optional_key_snoc)

lemma insert_mailbox_ok: "insert_mailbox a n v d = Ok d' \<Longrightarrow> db_ok d \<Longrightarrow> db_ok d'"
  by (auto simp: insert_mailbox_def Let_def db_ok_defs res_simps elim!: list_all_weaken intro: optional_key_snoc)

lemma insert_subscription_ok: "insert_subscription a n d = Ok d' \<Longrightarrow> db_ok d \<Longrightarrow> db_ok d'"
  by (auto simp: insert_subscription_def Let_def db_ok_defs res_simps elim!: list_all_weaken intro: optional_key_snoc)

lemma insert_blob_ok: "insert_blob r d = Ok d' \<Longrightarrow> db_ok d \<Longrightarrow> db_ok d'"
  by (auto simp: insert_blob_def Let_def db_ok_defs res_simps elim!: list_all_weaken intro: optional_key_snoc)

lemma insert_message_ok: "insert_message r d = Ok d' \<Longrightarrow> db_ok d \<Longrightarrow> db_ok d'"
  by (auto simp: insert_message_def Let_def db_ok_defs res_simps elim!: list_all_weaken intro: optional_key_snoc)

lemma insert_delivery_ok: "insert_delivery r d = Ok d' \<Longrightarrow> db_ok d \<Longrightarrow> db_ok d'"
  by (auto simp: insert_delivery_def Let_def db_ok_defs res_simps elim!: list_all_weaken intro: optional_key_snoc)

lemma insert_mailbox_message_ok: "insert_mailbox_message r d = Ok d' \<Longrightarrow> db_ok d \<Longrightarrow> db_ok d'"
  by (auto simp: insert_mailbox_message_def Let_def db_ok_defs res_simps elim!: list_all_weaken intro: optional_key_snoc)

lemma insert_mailbox_event_ok: "insert_mailbox_event r d = Ok d' \<Longrightarrow> db_ok d \<Longrightarrow> db_ok d'"
  by (auto simp: insert_mailbox_event_def Let_def db_ok_defs res_simps elim!: list_all_weaken intro: optional_key_snoc)

lemma insert_notification_ok: "insert_notification r d = Ok d' \<Longrightarrow> db_ok d \<Longrightarrow> db_ok d'"
  by (auto simp: insert_notification_def Let_def db_ok_defs res_simps elim!: list_all_weaken intro: optional_key_snoc)

lemma insert_queue_message_ok: "insert_queue_message r d = Ok d' \<Longrightarrow> db_ok d \<Longrightarrow> db_ok d'"
  by (auto simp: insert_queue_message_def Let_def db_ok_defs res_simps elim!: list_all_weaken intro: optional_key_snoc)

lemma insert_queue_lease_ok: "insert_queue_lease r d = Ok d' \<Longrightarrow> db_ok d \<Longrightarrow> db_ok d'"
  by (auto simp: insert_queue_lease_def Let_def db_ok_defs res_simps elim!: list_all_weaken intro: optional_key_snoc)

lemma insert_admin_event_ok: "insert_admin_event i act old new note dup ex now d = Ok d' \<Longrightarrow> db_ok d \<Longrightarrow> db_ok d'"
  by (auto simp: insert_admin_event_def Let_def db_ok_defs res_simps elim!: list_all_weaken intro: optional_key_snoc)

lemma update_accounts_ok:
  assumes "update_accounts p f d = Ok d'" "db_ok d" "\<And>r. ac_id (f r) = ac_id r" "\<And>r. ac_login (f r) = ac_login r"
  shows "db_ok d'"
  using assms by (auto simp: update_accounts_def db_ok_defs res_simps intro!: list_all_map_if)

lemma update_credentials_ok:
  assumes "update_credentials p f d = Ok d'" "db_ok d" "\<And>r. cr_id (f r) = cr_id r" "\<And>r. cr_selector (f r) = cr_selector r" "\<And>r. cr_account (f r) = cr_account r"
  shows "db_ok d'"
  using assms by (auto simp: update_credentials_def db_ok_defs res_simps intro!: list_all_map_if)

lemma update_addresses_ok:
  assumes "update_addresses p f d = Ok d'" "db_ok d" "\<And>r. ad_address (f r) = ad_address r" "\<And>r. ad_account (f r) = ad_account r"
  shows "db_ok d'"
  using assms by (auto simp: update_addresses_def db_ok_defs res_simps intro!: list_all_map_if)

lemma update_mailboxes_ok:
  assumes "update_mailboxes p f d = Ok d'" "db_ok d" "\<And>r. mb_id (f r) = mb_id r" "\<And>r. mb_account (f r) = mb_account r" "\<And>r. mb_name (f r) = mb_name r"
  shows "db_ok d'"
  using assms by (auto simp: update_mailboxes_def db_ok_defs res_simps intro!: list_all_map_if)

lemma update_deliveries_ok:
  assumes "update_deliveries p f d = Ok d'" "db_ok d" "\<And>r. de_id (f r) = de_id r" "\<And>r. de_message (f r) = de_message r" "\<And>r. de_recipient (f r) = de_recipient r"
  shows "db_ok d'"
  using assms by (auto simp: update_deliveries_def db_ok_defs res_simps intro!: list_all_map_if)

lemma update_leases_ok:
  assumes "update_leases p f d = Ok d'" "db_ok d" "\<And>r. ql_delivery (f r) = ql_delivery r"
  shows "db_ok d'"
  using assms by (auto simp: update_leases_def db_ok_defs res_simps intro!: list_all_map_if)

lemma delete_lease_ok: "delete_lease i d = Ok d' \<Longrightarrow> db_ok d \<Longrightarrow> db_ok d'"
  by (simp add: delete_lease_def db_ok_defs) (elim conjE, hypsubst, simp)

lemmas inserts_ok = insert_account_ok insert_credential_ok insert_address_ok insert_mailbox_ok insert_subscription_ok
  insert_blob_ok insert_message_ok insert_delivery_ok insert_mailbox_message_ok insert_mailbox_event_ok
  insert_notification_ok insert_queue_message_ok insert_queue_lease_ok insert_admin_event_ok

end
