(* ===== verification/Identity.thy ===== *)
theory Identity
  imports Schema Staging Address
begin

text \<open>
  Accounts, credentials and the right to send, \<open>crates/store/src/identity.rs\<close>. A \<open>Principal\<close> is what a
  session keeps after authentication; \<open>current\<close> decides whether it is still valid, \<open>may_send\<close>
  whether it may use an address. The operations that take rights away raise the account's
  epoch. \<open>authority_le\<close> is the order in which authority can only shrink: every operation of the
  store stays within it.
\<close>

section \<open>Model\<close>

record principal =
  pn_account :: int
  pn_credential :: int
  pn_epoch :: int
  pn_scope :: cred_scope

record credential_record =
  rec_principal :: principal
  rec_phc :: string

record credential_summary =
  sum_id :: int
  sum_selector :: string
  sum_label :: string
  sum_scope :: cred_scope
  sum_revoked :: "int option"
  sum_last_used :: "int option"

record submission_identity =
  si_principal :: principal
  si_author :: address

text \<open>The row of the join of a credential with its account that the query of \<open>current\<close> asks for.\<close>

definition current_row :: "principal \<Rightarrow> credential_row \<Rightarrow> account_row \<Rightarrow> bool" where
  "current_row p c a \<longleftrightarrow> ac_id a = cr_account c \<and> cr_id c = pn_credential p \<and> ac_id a = pn_account p
     \<and> ac_epoch a = pn_epoch p \<and> ac_status a = AccountActive \<and> cr_revoked c = None \<and> cr_scope c = pn_scope p"

definition current_db :: "principal \<Rightarrow> database \<Rightarrow> bool" where
  "current_db p d \<longleftrightarrow> list_ex (\<lambda>c. list_ex (current_row p c) (accounts d)) (credentials d)"

definition current :: "world \<Rightarrow> principal \<Rightarrow> bool action" where
  "current w p = query w (current_db p)"

definition send_enabled_db :: "int \<Rightarrow> string \<Rightarrow> database \<Rightarrow> bool" where
  "send_enabled_db account adr d \<longleftrightarrow>
     list_ex (\<lambda>r. ad_account r = account \<and> ad_address r = adr \<and> ad_send r) (addresses d)"

definition may_send :: "world \<Rightarrow> principal \<Rightarrow> address \<Rightarrow> bool action" where
  "may_send w p adr =
     (if pn_scope p \<noteq> ScopeMail then return False
      else andthen (current w p) (\<lambda>ok.
        if \<not> ok then return False else query w (send_enabled_db (pn_account p) (local_key adr))))"

text \<open>The credentials joined with the account that owns them, in the order of the credentials.\<close>

definition owned_credentials :: "database \<Rightarrow> (credential_row \<times> account_row) list" where
  "owned_credentials d =
     concat (map (\<lambda>c. map (Pair c) (filter (\<lambda>a. ac_id a = cr_account c) (accounts d))) (credentials d))"

definition lookup_db :: "string \<Rightarrow> string \<Rightarrow> database \<Rightarrow> credential_record option" where
  "lookup_db login selector d =
     map_option (\<lambda>(c, a). \<lparr>rec_principal = \<lparr>pn_account = ac_id a, pn_credential = cr_id c, pn_epoch = ac_epoch a,
         pn_scope = cr_scope c\<rparr>, rec_phc = take 513 (cr_phc c)\<rparr>)
       (first_row (\<lambda>(c, a). ac_login a = login \<and> cr_selector c = selector \<and> ac_status a = AccountActive
          \<and> cr_revoked c = None) (owned_credentials d))"

definition credential_lookup :: "world \<Rightarrow> address \<Rightarrow> string \<Rightarrow> credential_record option action" where
  "credential_lookup w login selector =
     (if \<not> valid_id selector then return None else query w (lookup_db (local_key login) selector))"

definition touch_credential :: "int \<Rightarrow> int \<Rightarrow> database \<Rightarrow> store_error + database" where
  "touch_credential i now = update_credentials (\<lambda>c. cr_id c = i) (\<lambda>c. c\<lparr>cr_last_used := Some now\<rparr>)"

definition finish_authentication :: "world \<Rightarrow> principal \<Rightarrow> unit action" where
  "finish_authentication w p =
     andthen (read_clock w) (\<lambda>now.
     transact w plain_commit
       (andthen (current w p) (\<lambda>ok.
        andthen (ensure ok PermissionDenied) (\<lambda>_.
        andthen (exec w (touch_credential (pn_credential p) now)) (\<lambda>_. return ((), True))))))"

definition principal_current :: "world \<Rightarrow> principal \<Rightarrow> bool action" where
  "principal_current w p = current w p"

definition authorize_sender :: "world \<Rightarrow> principal \<Rightarrow> address \<Rightarrow> bool action" where
  "authorize_sender w p adr = may_send w p adr"

text \<open>\<open>char::is_control\<close> on UTF-8 text: a C0 control, DEL, or one of U+0080 to U+009F.\<close>

fun has_control_char :: "bytes \<Rightarrow> bool" where
  "has_control_char [] = False"
| "has_control_char [c] = is_ascii_control c"
| "has_control_char (c # c' # s) =
     (is_ascii_control c \<or> (code c = 194 \<and> 128 \<le> code c' \<and> code c' \<le> 159) \<or> has_control_char (c' # s))"

definition scope_of :: "string \<Rightarrow> cred_scope option" where
  "scope_of s = (if s = ''mail'' then Some ScopeMail else if s = ''read_only'' then Some ScopeReadOnly else None)"

definition active_account :: "string \<Rightarrow> database \<Rightarrow> int option" where
  "active_account login d =
     map_option ac_id (first_row (\<lambda>a. ac_login a = login \<and> ac_status a = AccountActive) (accounts d))"

definition account_named :: "string \<Rightarrow> database \<Rightarrow> int option" where
  "account_named login d = map_option ac_id (first_row (\<lambda>a. ac_login a = login) (accounts d))"

definition create_credential :: "world \<Rightarrow> address \<Rightarrow> string \<Rightarrow> string \<Rightarrow> string \<Rightarrow> string \<Rightarrow> int action" where
  "create_credential w login selector label scope phc =
     (if \<not> valid_id selector \<or> label = [] \<or> length label > 80 \<or> has_control_char label \<or> scope_of scope = None
        \<or> length phc > 512 \<or> \<not> prefix ''$argon2id$v=19$'' phc
      then throw InvalidInput
      else andthen (query w (active_account (local_key login))) (\<lambda>account.
           andthen (lift_res (ok_or account NotFound)) (\<lambda>account.
           andthen (read_clock w) (\<lambda>now.
           autocommit w (exec_ret w (insert_credential account selector label phc (the (scope_of scope)) now))))))"

definition credentials_of :: "string \<Rightarrow> int \<Rightarrow> nat \<Rightarrow> database \<Rightarrow> credential_summary list" where
  "credentials_of login after_id lim d =
     map (\<lambda>(c, a). \<lparr>sum_id = cr_id c, sum_selector = cr_selector c, sum_label = cr_label c, sum_scope = cr_scope c,
        sum_revoked = cr_revoked c, sum_last_used = cr_last_used c\<rparr>)
       (take lim (sort_key (cr_id \<circ> fst) (filter (\<lambda>(c, a). ac_login a = login \<and> cr_id c > after_id) (owned_credentials d))))"

definition list_credentials :: "world \<Rightarrow> address \<Rightarrow> int \<Rightarrow> nat \<Rightarrow> credential_summary list action" where
  "list_credentials w login after_id lim =
     (if after_id < 0 \<or> \<not> (1 \<le> lim \<and> lim \<le> 100) then throw InvalidInput
      else query w (credentials_of (local_key login) after_id lim))"

definition revoke_rows :: "(credential_row \<Rightarrow> bool) \<Rightarrow> int \<Rightarrow> database \<Rightarrow> store_error + database" where
  "revoke_rows p now =
     update_credentials p (\<lambda>c. c\<lparr>cr_revoked := (case cr_revoked c of None \<Rightarrow> Some now | Some t \<Rightarrow> Some t)\<rparr>)"

definition bump_epoch :: "int \<Rightarrow> database \<Rightarrow> store_error + database" where
  "bump_epoch account = update_accounts (\<lambda>a. ac_id a = account) (\<lambda>a. a\<lparr>ac_epoch := ac_epoch a + 1\<rparr>)"

definition disable_rows :: "int \<Rightarrow> database \<Rightarrow> store_error + database" where
  "disable_rows account = update_accounts (\<lambda>a. ac_id a = account)
     (\<lambda>a. a\<lparr>ac_status := AccountDisabled, ac_epoch := ac_epoch a + 1\<rparr>)"

definition credential_owner :: "string \<Rightarrow> database \<Rightarrow> int option" where
  "credential_owner selector d = map_option cr_account (first_row (\<lambda>c. cr_selector c = selector) (credentials d))"

definition revoke_credential :: "world \<Rightarrow> string \<Rightarrow> int action" where
  "revoke_credential w selector =
     (if \<not> valid_id selector then throw InvalidInput
      else andthen (read_clock w) (\<lambda>now.
        transact w plain_commit
          (andthen (query w (credential_owner selector)) (\<lambda>account.
           andthen (lift_res (ok_or account NotFound)) (\<lambda>account.
           andthen (exec w (revoke_rows (\<lambda>c. cr_selector c = selector) now)) (\<lambda>_.
           andthen (exec w (bump_epoch account)) (\<lambda>_. return (account, True))))))))"

definition disable_account :: "world \<Rightarrow> address \<Rightarrow> int action" where
  "disable_account w login =
     andthen (read_clock w) (\<lambda>now.
     transact w plain_commit
       (andthen (query w (account_named (local_key login))) (\<lambda>account.
        andthen (lift_res (ok_or account NotFound)) (\<lambda>account.
        andthen (exec w (disable_rows account)) (\<lambda>_.
        andthen (exec w (revoke_rows (\<lambda>c. cr_account c = account) now)) (\<lambda>_. return (account, True)))))))"

definition address_owner :: "string \<Rightarrow> database \<Rightarrow> int option" where
  "address_owner adr d = map_option ad_account (first_row (\<lambda>r. ad_address r = adr) (addresses d))"

text \<open>\<open>INSERT \<dots> ON CONFLICT(address) DO UPDATE SET send_enabled\<close>.\<close>

definition upsert_send_as :: "string \<Rightarrow> int \<Rightarrow> bool \<Rightarrow> database \<Rightarrow> store_error + database" where
  "upsert_send_as adr account enabled d =
     (if has_key ad_address adr (addresses d)
      then update_addresses (\<lambda>r. ad_address r = adr) (\<lambda>r. r\<lparr>ad_send := enabled\<rparr>) d
      else insert_address \<lparr>ad_address = adr, ad_account = account, ad_receive = False, ad_send = enabled\<rparr> d)"

definition set_send_as :: "world \<Rightarrow> address \<Rightarrow> address \<Rightarrow> bool \<Rightarrow> int action" where
  "set_send_as w login adr enabled =
     transact w plain_commit
       (andthen (query w (active_account (local_key login))) (\<lambda>account.
        andthen (lift_res (ok_or account NotFound)) (\<lambda>account.
        andthen (query w (address_owner (local_key adr))) (\<lambda>owner.
        andthen (ensure (owner = None \<or> owner = Some account) PermissionDenied) (\<lambda>_.
        andthen (exec w (upsert_send_as (local_key adr) account enabled)) (\<lambda>_.
        andthen (exec w (bump_epoch account)) (\<lambda>_. return (account, True))))))))"

section \<open>Authority only shrinks\<close>

definition rows_le :: "('r \<Rightarrow> 'r \<Rightarrow> bool) \<Rightarrow> 'r list \<Rightarrow> 'r list \<Rightarrow> bool" where
  "rows_le le t t' \<longleftrightarrow> (\<forall>r\<in>set t. \<exists>r'\<in>set t'. le r r')"

definition account_le :: "account_row \<Rightarrow> account_row \<Rightarrow> bool" where
  "account_le a a' \<longleftrightarrow> ac_id a' = ac_id a \<and> ac_login a' = ac_login a \<and> ac_epoch a \<le> ac_epoch a'
     \<and> (ac_status a = AccountDisabled \<longrightarrow> ac_status a' = AccountDisabled)"

definition credential_le :: "credential_row \<Rightarrow> credential_row \<Rightarrow> bool" where
  "credential_le c c' \<longleftrightarrow> cr_id c' = cr_id c \<and> cr_account c' = cr_account c \<and> cr_selector c' = cr_selector c
     \<and> cr_scope c' = cr_scope c \<and> cr_phc c' = cr_phc c \<and> (cr_revoked c \<noteq> None \<longrightarrow> cr_revoked c' = cr_revoked c)"

definition address_le :: "address_row \<Rightarrow> address_row \<Rightarrow> bool" where
  "address_le r r' \<longleftrightarrow> ad_address r' = ad_address r \<and> ad_account r' = ad_account r \<and> ad_receive r' = ad_receive r"

definition authority_le :: "database \<Rightarrow> database \<Rightarrow> bool" where
  "authority_le d d' \<longleftrightarrow> (db_ok d \<longrightarrow> db_ok d' \<and> rows_le account_le (accounts d) (accounts d')
     \<and> rows_le credential_le (credentials d) (credentials d') \<and> rows_le address_le (addresses d) (addresses d'))"

lemma rows_le_refl: "(\<And>r. le r r) \<Longrightarrow> rows_le le t t"
  by (auto simp: rows_le_def)

lemma rows_le_trans: "rows_le le a b \<Longrightarrow> rows_le le b c \<Longrightarrow> (\<And>x y z. le x y \<Longrightarrow> le y z \<Longrightarrow> le x z) \<Longrightarrow> rows_le le a c"
  unfolding rows_le_def by meson

lemma rows_le_snoc: "(\<And>r. le r r) \<Longrightarrow> rows_le le t (t @ [r])"
  by (auto simp: rows_le_def)

lemma rows_le_map:
  "(\<And>r. le r r) \<Longrightarrow> (\<And>r. p r \<Longrightarrow> le r (f r)) \<Longrightarrow> rows_le le t (map (\<lambda>r. if p r then f r else r) t)"
proof -
  assume le: "\<And>r. le r r" "\<And>r. p r \<Longrightarrow> le r (f r)"
  then have "le r (if p r then f r else r)" for r by simp
  then show ?thesis unfolding rows_le_def set_map by blast
qed

lemma row_le_refl [simp]: "account_le a a" "credential_le c c" "address_le r r"
  by (auto simp: account_le_def credential_le_def address_le_def)

lemma account_le_trans: "account_le x y \<Longrightarrow> account_le y z \<Longrightarrow> account_le x z"
  by (auto simp: account_le_def)

lemma credential_le_trans: "credential_le x y \<Longrightarrow> credential_le y z \<Longrightarrow> credential_le x z"
  by (auto simp: credential_le_def)

lemma address_le_trans: "address_le x y \<Longrightarrow> address_le y z \<Longrightarrow> address_le x z"
  by (auto simp: address_le_def)

interpretation authority: db_relation authority_le
proof
  show "authority_le d d" for d by (simp add: authority_le_def rows_le_refl)
  show "authority_le a b \<Longrightarrow> authority_le b c \<Longrightarrow> authority_le a c" for a b c
    unfolding authority_le_def
    by (meson rows_le_trans account_le_trans credential_le_trans address_le_trans)
qed

lemma authority_unchanged:
  assumes "db_ok d \<Longrightarrow> db_ok d'" "accounts d' = accounts d" "credentials d' = credentials d" "addresses d' = addresses d"
  shows "authority_le d d'"
  using assms by (simp add: authority_le_def rows_le_refl)

lemma authority_accounts:
  assumes "update_accounts p f d = Ok d'" "\<And>a. ac_id (f a) = ac_id a" "\<And>a. ac_login (f a) = ac_login a"
    "\<And>a. account_le a (f a)"
  shows "authority_le d d'"
  using assms(1) update_accounts_ok [OF assms(1) _ assms(2,3)] assms(4)
  by (auto simp: authority_le_def update_accounts_def res_simps intro!: rows_le_refl rows_le_map)

lemma authority_credentials:
  assumes "update_credentials p f d = Ok d'" "\<And>c. credential_le c (f c)"
  shows "authority_le d d'"
proof -
  have f: "cr_id (f c) = cr_id c" "cr_selector (f c) = cr_selector c" "cr_account (f c) = cr_account c" for c
    using assms(2) by (auto simp: credential_le_def)
  show ?thesis
    using assms(1) update_credentials_ok [OF assms(1) _ f] assms(2)
    by (auto simp: authority_le_def update_credentials_def res_simps intro!: rows_le_refl rows_le_map)
qed

lemma authority_statements:
  "bump_epoch i d = Ok d' \<Longrightarrow> authority_le d d'"
  "disable_rows i d = Ok d' \<Longrightarrow> authority_le d d'"
  "revoke_rows q now d = Ok d' \<Longrightarrow> authority_le d d'"
  "touch_credential i now d = Ok d' \<Longrightarrow> authority_le d d'"
  unfolding bump_epoch_def disable_rows_def revoke_rows_def touch_credential_def
  by (auto elim!: authority_accounts authority_credentials simp: account_le_def credential_le_def split: option.splits)

lemma authority_send_as: "upsert_send_as adr i on d = Ok d' \<Longrightarrow> authority_le d d'"
proof (cases "has_key ad_address adr (addresses d)")
  case True
  assume "upsert_send_as adr i on d = Ok d'"
  with True have u: "update_addresses (\<lambda>r. ad_address r = adr) (\<lambda>r. r\<lparr>ad_send := on\<rparr>) d = Ok d'"
    by (simp add: upsert_send_as_def)
  from update_addresses_ok [OF this] u show ?thesis
    by (auto simp: authority_le_def update_addresses_def res_simps intro!: rows_le_refl rows_le_map) (simp add: address_le_def)
next
  case False
  assume "upsert_send_as adr i on d = Ok d'"
  with False have u: "insert_address \<lparr>ad_address = adr, ad_account = i, ad_receive = False, ad_send = on\<rparr> d = Ok d'"
    by (simp add: upsert_send_as_def)
  from insert_address_ok [OF this] u show ?thesis
    by (auto simp: authority_le_def insert_address_def res_simps intro!: rows_le_refl rows_le_snoc)
qed

lemma authority_insert_credential: "insert_credential a sel lab phc sc now d = Ok (i, d') \<Longrightarrow> authority_le d d'"
  using insert_credential_ok [of a sel lab phc sc now d i d']
  by (auto simp: authority_le_def insert_credential_def Let_def res_simps intro!: rows_le_refl rows_le_snoc)

text \<open>Every operation of this component, however it ends.\<close>

lemma identity_operations_authority:
  "within authority_le (finish_authentication w p)"
  "within authority_le (create_credential w login sel lab sc phc)"
  "within authority_le (revoke_credential w sel)"
  "within authority_le (disable_account w login)"
  "within authority_le (set_send_as w login adr on)"
  unfolding finish_authentication_def create_credential_def revoke_credential_def disable_account_def set_send_as_def
    current_def
  by (auto intro!: authority.within_rules dest: authority_statements authority_send_as authority_insert_credential)

section \<open>Withdrawn rights\<close>

lemma current_db_iff: "current_db p d \<longleftrightarrow> (\<exists>c\<in>set (credentials d). \<exists>a\<in>set (accounts d). current_row p c a)"
  by (simp add: current_db_def list_ex_iff)

text \<open>A principal the store could have issued: its credential exists and its epoch has been reached.\<close>

definition issued :: "principal \<Rightarrow> database \<Rightarrow> bool" where
  "issued p d \<longleftrightarrow> (\<exists>c\<in>set (credentials d). \<exists>a\<in>set (accounts d). ac_id a = cr_account c \<and> cr_id c = pn_credential p
     \<and> ac_id a = pn_account p \<and> cr_scope c = pn_scope p \<and> pn_epoch p \<le> ac_epoch a)"

lemma current_issued: "current_db p d \<Longrightarrow> issued p d"
  unfolding current_db_iff issued_def by (elim bexE, intro bexI) (auto simp: current_row_def)

lemma issued_mono:
  assumes "authority_le d d'" "db_ok d" "issued p d"
  shows "issued p d'"
proof -
  from assms(3) obtain c a where ca: "c \<in> set (credentials d)" "a \<in> set (accounts d)" "ac_id a = cr_account c"
    "cr_id c = pn_credential p" "ac_id a = pn_account p" "cr_scope c = pn_scope p" "pn_epoch p \<le> ac_epoch a"
    unfolding issued_def by blast
  obtain c' where "c' \<in> set (credentials d')" "credential_le c c'" using assms(1,2) ca(1)
    by (auto simp: authority_le_def rows_le_def)
  moreover obtain a' where "a' \<in> set (accounts d')" "account_le a a'" using assms(1,2) ca(2)
    by (auto simp: authority_le_def rows_le_def)
  ultimately show ?thesis unfolding issued_def using ca
    by (intro bexI [of _ c'] bexI [of _ a']) (auto simp: credential_le_def account_le_def)
qed

text \<open>A principal that is not current does not become current again.\<close>

lemma no_resurrection:
  assumes le: "authority_le d d'" and ok: "db_ok d" and i: "issued p d" and now: "current_db p d'"
  shows "current_db p d"
proof -
  from i obtain c a where ca: "c \<in> set (credentials d)" "a \<in> set (accounts d)" "ac_id a = cr_account c"
    "cr_id c = pn_credential p" "ac_id a = pn_account p" "cr_scope c = pn_scope p" "pn_epoch p \<le> ac_epoch a"
    unfolding issued_def by blast
  from now obtain c' a' where ca': "c' \<in> set (credentials d')" "a' \<in> set (accounts d')" "current_row p c' a'"
    unfolding current_db_iff by blast
  from le ok have ok': "db_ok d'" by (simp add: authority_le_def)
  obtain c'' where c'': "c'' \<in> set (credentials d')" "credential_le c c''" using le ok ca(1)
    by (auto simp: authority_le_def rows_le_def)
  obtain a'' where a'': "a'' \<in> set (accounts d')" "account_le a a''" using le ok ca(2)
    by (auto simp: authority_le_def rows_le_def)
  have "c'' = c'" using ok' c'' ca' ca by (intro cr.keyed_same [of "credentials d'"])
    (auto simp: db_ok_def keys_ok_def credential_le_def current_row_def)
  moreover have "a'' = a'" using ok' a'' ca' ca by (intro ac.keyed_same [of "accounts d'"])
    (auto simp: db_ok_def keys_ok_def account_le_def current_row_def)
  moreover have "ac_status a = AccountActive"
    using a'' \<open>a'' = a'\<close> ca'(3) by (cases "ac_status a") (auto simp: account_le_def current_row_def)
  ultimately have "current_row p c a"
    using ca ca'(3) a''(2) c''(2) by (auto simp: account_le_def credential_le_def current_row_def)
  with ca show ?thesis unfolding current_db_iff by blast
qed

text \<open>What an operation that raises the epoch of one account leaves behind.\<close>

definition rotated :: "int \<Rightarrow> database \<Rightarrow> database \<Rightarrow> bool" where
  "rotated i d d' \<longleftrightarrow>
     (\<forall>a'\<in>set (accounts d'). ac_id a' = i \<longrightarrow> (\<exists>a\<in>set (accounts d). ac_id a = i \<and> ac_epoch a' = ac_epoch a + 1))
   \<and> (\<forall>a. ac_id a \<noteq> i \<longrightarrow> a \<in> set (accounts d') \<longleftrightarrow> a \<in> set (accounts d))
   \<and> (\<forall>c. cr_account c \<noteq> i \<longrightarrow> c \<in> set (credentials d') \<longleftrightarrow> c \<in> set (credentials d))"

lemma rotated_withdraws:
  assumes "rotated i d d'" "db_ok d" "pn_account p = i" "current_db p d"
  shows "\<not> current_db p d'"
proof
  assume "current_db p d'"
  then obtain c' a' where "a' \<in> set (accounts d')" "current_row p c' a'" unfolding current_db_iff by blast
  with assms(1,3) obtain a2 where a2: "a2 \<in> set (accounts d)" "ac_id a2 = i" "pn_epoch p = ac_epoch a2 + 1"
    by (auto simp: rotated_def current_row_def)
  from assms(4) obtain c a where a: "a \<in> set (accounts d)" "current_row p c a" unfolding current_db_iff by blast
  with a2 assms(2,3) have "a = a2" by (intro ac.keyed_same [of "accounts d"]) (auto simp: db_ok_def keys_ok_def current_row_def)
  with a a2 show False by (simp add: current_row_def)
qed

lemma rotated_others:
  assumes "rotated i d d'" "pn_account p \<noteq> i"
  shows "current_db p d' \<longleftrightarrow> current_db p d"
proof -
  have "c \<in> set (credentials d') \<longleftrightarrow> c \<in> set (credentials d)" "a \<in> set (accounts d') \<longleftrightarrow> a \<in> set (accounts d)"
    if "current_row p c a" for c a
    using that assms by (auto simp: rotated_def current_row_def)
  then show ?thesis unfolding current_db_iff by blast
qed

lemma in_map_if_other: "\<not> p r \<Longrightarrow> (\<And>x. x \<in> set t \<Longrightarrow> p x \<Longrightarrow> p (f x)) \<Longrightarrow> r \<in> set (map (\<lambda>x. if p x then f x else x) t) \<longleftrightarrow> r \<in> set t"
  by auto

lemma rotated_epoch:
  assumes "update_accounts (\<lambda>a. ac_id a = i) f d = Ok d'" "\<And>a. ac_id (f a) = ac_id a" "\<And>a. ac_epoch (f a) = ac_epoch a + 1"
  shows "rotated i d d'"
  using assms by (auto simp: rotated_def update_accounts_def res_simps in_map_if_other split: if_splits)

lemma rotated_credentials:
  assumes "update_credentials p f d = Ok d'" "\<And>c. c \<in> set (credentials d) \<Longrightarrow> p c \<Longrightarrow> cr_account c = i"
    "\<And>c. cr_account (f c) = cr_account c"
  shows "accounts d' = accounts d" "cr_account c \<noteq> i \<Longrightarrow> c \<in> set (credentials d') \<longleftrightarrow> c \<in> set (credentials d)"
  using assms by (auto simp: update_credentials_def res_simps)

lemma revoke_rotates:
  assumes "credential_owner sel d = Some i" "revoke_rows (\<lambda>c. cr_selector c = sel) now d = Ok d1" "bump_epoch i d1 = Ok d2"
    "db_ok d"
  shows "rotated i d d2"
proof -
  from assms(1) obtain c where c: "c \<in> set (credentials d)" "cr_selector c = sel" "cr_account c = i"
    by (auto simp: credential_owner_def dest: first_row_Some)
  have own: "cr_account x = i" if "x \<in> set (credentials d)" "cr_selector x = sel" for x
    using cs.keyed_same [of "credentials d" x c] that c assms(4) by (auto simp: db_ok_def keys_ok_def)
  note r = rotated_credentials [OF assms(2) [unfolded revoke_rows_def] own, simplified]
  have "rotated i d1 d2" using assms(3) unfolding bump_epoch_def by (rule rotated_epoch) auto
  with r show ?thesis
    using assms(3) by (auto simp: rotated_def bump_epoch_def update_accounts_def res_simps)
qed

lemma disable_rotates:
  assumes "disable_rows i d = Ok d1" "revoke_rows (\<lambda>c. cr_account c = i) now d1 = Ok d2"
  shows "rotated i d d2"
proof -
  note r = rotated_credentials [OF assms(2) [unfolded revoke_rows_def], of i, simplified]
  have "rotated i d d1" using assms(1) unfolding disable_rows_def by (rule rotated_epoch) auto
  with r show ?thesis by (auto simp: rotated_def)
qed

lemma send_as_rotates:
  assumes "upsert_send_as adr i on d = Ok d1" "bump_epoch i d1 = Ok d2"
  shows "rotated i d d2"
proof -
  have "accounts d1 = accounts d" "credentials d1 = credentials d"
    using assms(1) by (auto simp: upsert_send_as_def update_addresses_def insert_address_def res_simps split: if_splits)
  moreover have "rotated i d1 d2" using assms(2) unfolding bump_epoch_def by (rule rotated_epoch) auto
  ultimately show ?thesis by (simp add: rotated_def)
qed

text \<open>The successful runs of the operations that withdraw rights.\<close>

lemma revoke_credential_Ok:
  assumes "revoke_credential w sel s = (Ok i, s')"
  obtains d1 now where "credential_owner sel (st_db s) = Some i"
    "revoke_rows (\<lambda>c. cr_selector c = sel) now (st_db s) = Ok d1" "bump_epoch i d1 = Ok (st_db s')"
  using assms that unfolding revoke_credential_def
  by (auto simp: tx_simps res_simps split: if_splits dest!: transact_OkD)

lemma disable_account_Ok:
  assumes "disable_account w login s = (Ok i, s')"
  obtains d1 now where "account_named (local_key login) (st_db s) = Some i" "disable_rows i (st_db s) = Ok d1"
    "revoke_rows (\<lambda>c. cr_account c = i) now d1 = Ok (st_db s')"
  using assms that unfolding disable_account_def
  by (auto simp: tx_simps res_simps split: if_splits dest!: transact_OkD)

lemma set_send_as_Ok:
  assumes "set_send_as w login adr on s = (Ok i, s')"
  obtains d1 where "active_account (local_key login) (st_db s) = Some i"
    "address_owner (local_key adr) (st_db s) = None \<or> address_owner (local_key adr) (st_db s) = Some i"
    "upsert_send_as (local_key adr) i on (st_db s) = Ok d1" "bump_epoch i d1 = Ok (st_db s')"
  using assms that unfolding set_send_as_def
  by (auto simp: tx_simps res_simps split: if_splits dest!: transact_OkD)

section \<open>Correctness\<close>

definition sample_selector :: string where
  "sample_selector = replicate 32 CHR ''a''"

definition sample_identity_db :: database where
  "sample_identity_db = empty_database\<lparr>
     accounts := [\<lparr>ac_id = 1, ac_login = ''a@b.c'', ac_status = AccountActive, ac_quota = 100, ac_used = 0, ac_epoch = 1, ac_created = 0\<rparr>],
     credentials := [\<lparr>cr_id = 7, cr_account = 1, cr_selector = sample_selector, cr_label = ''x'', cr_phc = ''p'', cr_scope = ScopeMail,
       cr_revoked = None, cr_last_used = None, cr_created = 0\<rparr>]\<rparr>"

definition sample_principal :: principal where
  "sample_principal = \<lparr>pn_account = 1, pn_credential = 7, pn_epoch = 1, pn_scope = ScopeMail\<rparr>"

text \<open>Property C28. When a credential is revoked, an account disabled or a right to send changed, every
  principal of that account that was valid before is invalid afterwards, and the validity of every
  other account's principals does not change.\<close>

theorem withdrawal_effective:
  assumes "revoke_credential w sel s = (Ok i, s') \<or> disable_account w login s = (Ok i, s')
    \<or> set_send_as w login adr on s = (Ok i, s')" "db_ok (st_db s)"
  shows "(\<forall>p. pn_account p = i \<and> current_db p (st_db s) \<longrightarrow> \<not> current_db p (st_db s'))
    \<and> (\<forall>p. pn_account p \<noteq> i \<longrightarrow> current_db p (st_db s') = current_db p (st_db s))"
proof -
  have "rotated i (st_db s) (st_db s')"
    using assms revoke_rotates disable_rotates send_as_rotates
    by (elim disjE revoke_credential_Ok disable_account_Ok set_send_as_Ok) blast+
  with assms(2) rotated_withdraws rotated_others show ?thesis by blast
qed

lemma sample_revocation:
  "fst (revoke_credential quiet_world sample_selector (store_of sample_identity_db)) = Ok 1"
  by code_simp

lemma sample_identity_ok: "db_ok sample_identity_db" 
  by (simp add: db_ok_def keys_ok_def refs_ok_def rows_ok_def sample_identity_db_def empty_database_def keyed_by_def has_key_def
    account_ok_def in_i64_def i64_min_def i64_max_def)

theorem withdrawal_effective_witness:
  "current_db sample_principal sample_identity_db
   \<and> \<not> current_db sample_principal (st_db (snd (revoke_credential quiet_world sample_selector (store_of sample_identity_db))))"
proof -
  have a: "revoke_credential quiet_world sample_selector (store_of sample_identity_db)
      = (Ok 1, snd (revoke_credential quiet_world sample_selector (store_of sample_identity_db)))"
    using sample_revocation by (metis prod.collapse)
  have c: "current_db sample_principal sample_identity_db"
    by (simp add: current_db_iff sample_identity_db_def empty_database_def sample_principal_def current_row_def)
  show ?thesis
    using withdrawal_effective [OF disjI1 [OF a]] c sample_identity_ok by (simp add: store_of_def sample_principal_def)
qed

end
