(* ===== verification/Local_Delivery.thy ===== *)
theory Local_Delivery
  imports Identity
begin

text \<open>
  Delivery into a local mailbox, \<open>crates/store/src/local_delivery.rs\<close>, and the database counts of
  \<open>check_integrity\<close> in \<open>crates/store/src/lib.rs\<close>. \<open>mail_inv\<close> says that the database satisfies its
  schema, that the three counts are zero and that no account exceeds its quota; a delivery keeps
  it and appends one message to one mailbox.
\<close>

section \<open>Model\<close>

record target =
  tg_account :: int
  tg_mailbox :: int
  tg_uid :: nat
  tg_event :: int

definition inbox_name :: string where
  "inbox_name = ''INBOX''"

definition target_rows :: "string \<Rightarrow> database \<Rightarrow> (account_row \<times> mailbox_row) list" where
  "target_rows recipient d =
     [(u, m). a \<leftarrow> addresses d, u \<leftarrow> accounts d, m \<leftarrow> mailboxes d,
        ac_id u = ad_account a \<and> mb_account m = ac_id u \<and> mb_name m = inbox_name
        \<and> ad_address a = recipient \<and> ad_receive a \<and> ac_status u = AccountActive]"

definition target_of :: "account_row \<Rightarrow> mailbox_row \<Rightarrow> nat \<Rightarrow> store_error + target" where
  "target_of u m msize =
     rbind (unsigned_column (mb_uidnext m)) (\<lambda>uid.
     rbind (unsigned_column (ac_quota u)) (\<lambda>quota.
     rbind (unsigned_column (ac_used u)) (\<lambda>used.
       if uid > u32_max \<or> mb_event_seq m = i64_max then Err UidExhausted
       else if (case checked_add_u64 used msize of None \<Rightarrow> True | Some n \<Rightarrow> n > quota \<or> int n > i64_max) then Err Quota
       else Ok \<lparr>tg_account = ac_id u, tg_mailbox = mb_id m, tg_uid = uid, tg_event = mb_event_seq m\<rparr>)))"

text \<open>The same with the comparisons made on integers, for evaluation.\<close>

lemma target_of_code [code]:
  "target_of u m msize =
     (if mb_uidnext m < 0 \<or> ac_quota u < 0 \<or> ac_used u < 0 then Err Database
      else if mb_uidnext m > 4294967295 \<or> mb_event_seq m = i64_max then Err UidExhausted
      else if ac_used u + int msize > 18446744073709551615 \<or> ac_used u + int msize > ac_quota u \<or> ac_used u + int msize > i64_max
      then Err Quota
      else Ok \<lparr>tg_account = ac_id u, tg_mailbox = mb_id m, tg_uid = nat (mb_uidnext m), tg_event = mb_event_seq m\<rparr>)"
  by (auto simp: target_of_def unsigned_column_def checked_add_u64_def u32_max_def u64_max_def)

definition find_target :: "world \<Rightarrow> string \<Rightarrow> nat \<Rightarrow> target action" where
  "find_target w recipient msize =
     andthen (query w (target_rows recipient)) (\<lambda>rows.
       case rows of
         [] \<Rightarrow> throw RecipientUnavailable
       | (u, m) # _ \<Rightarrow> lift_res (target_of u m msize))"

definition preflight :: "world \<Rightarrow> string \<Rightarrow> nat \<Rightarrow> unit action" where
  "preflight w recipient msize = andthen (find_target w recipient msize) (\<lambda>_. return ())"

definition advance_mailbox :: "int \<Rightarrow> database \<Rightarrow> store_error + database" where
  "advance_mailbox i = update_mailboxes (\<lambda>m. mb_id m = i)
     (\<lambda>m. m\<lparr>mb_uidnext := mb_uidnext m + 1, mb_event_seq := mb_event_seq m + 1\<rparr>)"

definition charge_account :: "int \<Rightarrow> nat \<Rightarrow> database \<Rightarrow> store_error + database" where
  "charge_account i msize = update_accounts (\<lambda>a. ac_id a = i) (\<lambda>a. a\<lparr>ac_used := ac_used a + int msize\<rparr>)"

definition deliver :: "world \<Rightarrow> string \<Rightarrow> string \<Rightarrow> nat \<Rightarrow> int \<Rightarrow> unit action" where
  "deliver w recipient msg msize now =
     andthen (find_target w recipient msize) (\<lambda>t.
     andthen (new_uuid w) (\<lambda>dl.
     andthen (lift_res (ok_or (map_option snd (rsplit_once (CHR ''@'') recipient)) InvalidInput)) (\<lambda>dm.
     andthen (exec w (insert_delivery (new_delivery dl msg recipient RouteLocal dm StDelivered now now))) (\<lambda>_.
     andthen (exec w (insert_mailbox_message
       \<lparr>mm_mailbox = tg_mailbox t, mm_uid = int (tg_uid t), mm_message = msg, mm_delivery = Some dl, mm_internaldate = now\<rparr>)) (\<lambda>_.
     andthen (exec w (advance_mailbox (tg_mailbox t))) (\<lambda>_.
     andthen (exec w (insert_mailbox_event
       \<lparr>ev_mailbox = tg_mailbox t, ev_seq = tg_event t + 1, ev_kind = EventAppend, ev_uid = Some (int (tg_uid t)),
        ev_payload = ''{}'', ev_created = now\<rparr>)) (\<lambda>_.
     exec w (charge_account (tg_account t) msize))))))))"

section \<open>Integrity\<close>

definition stored_bytes :: "int \<Rightarrow> database \<Rightarrow> int" where
  "stored_bytes i d =
     (\<Sum>box\<leftarrow>filter (\<lambda>x. mb_account x = i) (mailboxes d).
      \<Sum>mm\<leftarrow>filter (\<lambda>x. mm_mailbox x = mb_id box) (mailbox_messages d).
      \<Sum>m\<leftarrow>filter (\<lambda>x. ms_id x = mm_message mm) (messages d).
      \<Sum>b\<leftarrow>filter (\<lambda>x. bl_id x = ms_blob m) (blob_rows d). bl_size b)"

definition quota_mismatches :: "database \<Rightarrow> nat" where
  "quota_mismatches d = length (filter (\<lambda>a. ac_used a \<noteq> stored_bytes (ac_id a) d) (accounts d))"

definition max_of :: "int list \<Rightarrow> int" where
  "max_of xs = (if xs = [] then 0 else Max (set xs))"

definition uid_mismatches :: "database \<Rightarrow> nat" where
  "uid_mismatches d = length (filter (\<lambda>box.
       mb_uidnext box \<le> max_of (map mm_uid (filter (\<lambda>x. mm_mailbox x = mb_id box) (mailbox_messages d)))
     \<or> mb_event_seq box < max_of (map ev_seq (filter (\<lambda>x. ev_mailbox x = mb_id box) (mailbox_events d)))) (mailboxes d))"

definition delivery_mismatches :: "database \<Rightarrow> nat" where
  "delivery_mismatches d = length (filter (\<lambda>(mm, r).
       de_message r \<noteq> mm_message mm \<or> de_route r \<noteq> RouteLocal \<or> de_state r \<noteq> StDelivered)
     [(mm, r). mm \<leftarrow> mailbox_messages d, r \<leftarrow> deliveries d, mm_delivery mm = Some (de_id r)])"

definition quota_kept :: "database \<Rightarrow> bool" where
  "quota_kept d \<longleftrightarrow> list_all (\<lambda>a. ac_used a \<le> ac_quota a) (accounts d)"

definition mail_inv :: "database \<Rightarrow> bool" where
  "mail_inv d \<longleftrightarrow> db_ok d \<and> quota_mismatches d = 0 \<and> uid_mismatches d = 0 \<and> delivery_mismatches d = 0 \<and> quota_kept d"

subsection \<open>Counts that are zero\<close>

lemma quota_mismatches_0: "quota_mismatches d = 0 \<longleftrightarrow> (\<forall>a\<in>set (accounts d). ac_used a = stored_bytes (ac_id a) d)"
  by (auto simp: quota_mismatches_def filter_empty_conv)

lemma max_of_less: "n \<le> max_of xs \<longleftrightarrow> (xs = [] \<and> n \<le> 0) \<or> (\<exists>x\<in>set xs. n \<le> x)"
  by (auto simp: max_of_def Max_ge_iff)

lemma less_max_of: "n < max_of xs \<longleftrightarrow> (xs = [] \<and> n < 0) \<or> (\<exists>x\<in>set xs. n < x)"
  by (auto simp: max_of_def Max_gr_iff)

definition box_counters :: "database \<Rightarrow> mailbox_row \<Rightarrow> bool" where
  "box_counters d box \<longleftrightarrow> (\<forall>x\<in>set (mailbox_messages d). mm_mailbox x = mb_id box \<longrightarrow> mm_uid x < mb_uidnext box)
     \<and> (\<forall>x\<in>set (mailbox_events d). ev_mailbox x = mb_id box \<longrightarrow> ev_seq x \<le> mb_event_seq box)"

lemma uid_mismatches_0:
  assumes "rows_ok d"
  shows "uid_mismatches d = 0 \<longleftrightarrow> (\<forall>box\<in>set (mailboxes d). box_counters d box)"
proof -
  have "0 < mb_uidnext box" "0 \<le> mb_event_seq box" if "box \<in> set (mailboxes d)" for box
    using assms that by (auto simp: rows_ok_def list_all_iff mailbox_ok_def)
  then show ?thesis
    unfolding uid_mismatches_def box_counters_def length_0_conv filter_empty_conv max_of_less less_max_of
    by (auto simp: not_le not_less)
qed

lemma delivery_mismatches_0:
  "delivery_mismatches d = 0 \<longleftrightarrow> (\<forall>mm\<in>set (mailbox_messages d). \<forall>r\<in>set (deliveries d). mm_delivery mm = Some (de_id r)
     \<longrightarrow> de_message r = mm_message mm \<and> de_route r = RouteLocal \<and> de_state r = StDelivered)"
  unfolding delivery_mismatches_def length_0_conv filter_empty_conv by auto

subsection \<open>Stored bytes\<close>

definition message_bytes :: "string \<Rightarrow> database \<Rightarrow> int" where
  "message_bytes i d = (\<Sum>m\<leftarrow>filter (\<lambda>x. ms_id x = i) (messages d). \<Sum>b\<leftarrow>filter (\<lambda>x. bl_id x = ms_blob m) (blob_rows d). bl_size b)"

definition boxes_of :: "int \<Rightarrow> int \<Rightarrow> database \<Rightarrow> nat" where
  "boxes_of i k d = length (filter (\<lambda>x. mb_account x = i \<and> mb_id x = k) (mailboxes d))"

lemma sum_list_swap_filter:
  "(\<Sum>x\<leftarrow>xs. \<Sum>y\<leftarrow>filter (P x) ys. f y) = (\<Sum>y\<leftarrow>ys. of_nat (length (filter (\<lambda>x. P x y) xs)) * (f y :: int))"
proof (induction xs)
  case Nil
  then show ?case by simp
next
  case (Cons x xs)
  have "(\<Sum>y\<leftarrow>filter (P x) ys. f y) = (\<Sum>y\<leftarrow>ys. if P x y then f y else 0)"
    by (induction ys) auto
  then have "(\<Sum>x\<leftarrow>x # xs. \<Sum>y\<leftarrow>filter (P x) ys. f y)
      = (\<Sum>y\<leftarrow>ys. (if P x y then f y else 0) + of_nat (length (filter (\<lambda>x. P x y) xs)) * f y)"
    using Cons.IH by (simp add: sum_list_addf)
  also have "\<dots> = (\<Sum>y\<leftarrow>ys. of_nat (length (filter (\<lambda>x. P x y) (x # xs))) * f y)"
    by (intro arg_cong [where f = sum_list] map_cong) (auto simp: distrib_right)
  finally show ?case .
qed

lemma stored_bytes_sum:
  "stored_bytes i d = (\<Sum>mm\<leftarrow>mailbox_messages d. int (boxes_of i (mm_mailbox mm) d) * message_bytes (mm_message mm) d)"
proof -
  have "stored_bytes i d = (\<Sum>mm\<leftarrow>mailbox_messages d.
      int (length (filter (\<lambda>box. mm_mailbox mm = mb_id box) (filter (\<lambda>x. mb_account x = i) (mailboxes d)))) * message_bytes (mm_message mm) d)"
    unfolding stored_bytes_def message_bytes_def [symmetric] by (rule sum_list_swap_filter)
  then show ?thesis unfolding boxes_of_def by (simp add: eq_commute conj_commute)
qed

lemma message_bytes_frame:
  "messages d' = messages d \<Longrightarrow> blob_rows d' = blob_rows d \<Longrightarrow> message_bytes i d' = message_bytes i d"
  by (simp add: message_bytes_def)

lemma boxes_of_frame: "mailboxes d' = mailboxes d \<Longrightarrow> boxes_of i k d' = boxes_of i k d"
  by (simp add: boxes_of_def)

lemma boxes_of_update:
  assumes "mailboxes d' = map (\<lambda>m. if p m then f m else m) (mailboxes d)" "\<And>m. mb_id (f m) = mb_id m" "\<And>m. mb_account (f m) = mb_account m"
  shows "boxes_of i k d' = boxes_of i k d"
proof -
  have "(\<lambda>x. mb_account x = i \<and> mb_id x = k) \<circ> (\<lambda>m. if p m then f m else m) = (\<lambda>x. mb_account x = i \<and> mb_id x = k)"
    using assms(2,3) by (auto simp: fun_eq_iff)
  then show ?thesis by (simp add: boxes_of_def assms(1) filter_map)
qed

lemma boxes_of_unique:
  assumes "keyed_by mb_id (mailboxes d)" "box \<in> set (mailboxes d)"
  shows "boxes_of i (mb_id box) d = (if mb_account box = i then 1 else 0)"
proof -
  have "filter (\<lambda>x. mb_account x = i \<and> mb_id x = mb_id box) (mailboxes d)
      = filter (\<lambda>x. mb_account x = i) (filter (\<lambda>x. mb_id x = mb_id box) (mailboxes d))" by (simp add: conj_commute)
  moreover have "length (filter (\<lambda>x. mb_id x = mb_id box) (mailboxes d)) = 1"
    using mb.keyed_count [OF assms(1), of "mb_id box"] assms(2) by (auto simp: has_key_def)
  then obtain y where y: "filter (\<lambda>x. mb_id x = mb_id box) (mailboxes d) = [y]" by (auto simp: length_Suc_conv)
  moreover have "y = box"
  proof -
    have "box \<in> set (filter (\<lambda>x. mb_id x = mb_id box) (mailboxes d))" using assms(2) by simp
    then show ?thesis unfolding y by simp
  qed
  ultimately show ?thesis by (simp add: boxes_of_def)
qed

text \<open>New messages and blobs that no mailbox refers to do not count.\<close>

lemma message_bytes_insert:
  assumes "insert_blob b d = Ok d1" "insert_message m d1 = Ok d2" "ms_blob m = bl_id b" "db_ok d"
  shows "message_bytes i d2 = (if i = ms_id m then bl_size b else message_bytes i d)"
proof -
  from assms(1) have d1: "d1 = d\<lparr>blob_rows := blob_rows d @ [b]\<rparr>" "bl_id b \<notin> bl_id ` set (blob_rows d)"
    by (auto simp: insert_blob_def res_simps fresh_key_def)
  from assms(2) d1 have d2: "messages d2 = messages d @ [m]" "blob_rows d2 = blob_rows d @ [b]" "ms_id m \<notin> ms_id ` set (messages d)"
    by (auto simp: insert_message_def res_simps fresh_key_def)
  have "bl_id b \<noteq> ms_blob x" if "x \<in> set (messages d)" for x
    using refs_okD(4) [OF assms(4) that] d1(2) by auto
  then have "(\<Sum>x\<leftarrow>filter (\<lambda>x. ms_id x = i) (messages d). \<Sum>y\<leftarrow>filter (\<lambda>y. bl_id y = ms_blob x) (blob_rows d @ [b]). bl_size y) = message_bytes i d"
    unfolding message_bytes_def by (intro arg_cong [where f = sum_list] map_cong) auto
  moreover have "filter (\<lambda>x. ms_id x = ms_id m) (messages d) = []" using d2(3) unfolding filter_empty_conv by (metis imageI)
  moreover have "filter (\<lambda>y. bl_id y = bl_id b) (blob_rows d) = []" using d1(2) unfolding filter_empty_conv by (metis imageI)
  ultimately show ?thesis using assms(3) by (auto simp: message_bytes_def d2)
qed

lemma stored_bytes_insert_message:
  assumes "insert_blob b d = Ok d1" "insert_message m d1 = Ok d2" "ms_blob m = bl_id b" "db_ok d"
  shows "stored_bytes i d2 = stored_bytes i d"
proof -
  have same: "mailbox_messages d2 = mailbox_messages d" "mailboxes d2 = mailboxes d"
    using assms by (auto simp: insert_blob_def insert_message_def res_simps)
  have "mm_message x \<noteq> ms_id m" if "x \<in> set (mailbox_messages d)" for x
    using assms(1,2) refs_okD(7) [OF assms(4) that] by (auto simp: insert_message_def insert_blob_def res_simps fresh_key_def)
  then show ?thesis
    unfolding stored_bytes_sum same message_bytes_insert [OF assms] boxes_of_frame [OF same(2)]
    by (intro arg_cong [where f = sum_list] map_cong) auto
qed

subsection \<open>What a delivery does\<close>

text \<open>The mailbox and account a recipient resolves to.\<close>

definition resolves :: "database \<Rightarrow> string \<Rightarrow> account_row \<Rightarrow> mailbox_row \<Rightarrow> bool" where
  "resolves d recipient u box \<longleftrightarrow> (\<exists>a\<in>set (addresses d). ad_address a = recipient \<and> ad_receive a \<and> ad_account a = ac_id u)
     \<and> u \<in> set (accounts d) \<and> ac_status u = AccountActive
     \<and> box \<in> set (mailboxes d) \<and> mb_account box = ac_id u \<and> mb_name box = inbox_name"

lemma target_rows_resolves: "(u, box) \<in> set (target_rows recipient d) \<longleftrightarrow> resolves d recipient u box"
  unfolding target_rows_def resolves_def by (auto split: if_splits) metis

lemma resolves_unique:
  assumes "db_ok d" "resolves d r u box" "resolves d r u' box'"
  shows "u = u' \<and> box = box'"
proof -
  from assms obtain a a' where a: "a \<in> set (addresses d)" "ad_address a = r" "ad_account a = ac_id u"
    "a' \<in> set (addresses d)" "ad_address a' = r" "ad_account a' = ac_id u'" by (auto simp: resolves_def)
  then have "a = a'" using assms(1) by (intro ad.keyed_same [of "addresses d"]) (auto simp: db_ok_def keys_ok_def)
  with a have i: "ac_id u = ac_id u'" by simp
  then have "u = u'" using assms by (intro ac.keyed_same [of "accounts d"]) (auto simp: db_ok_def keys_ok_def resolves_def)
  moreover have "(mb_account box, mb_name box) = (mb_account box', mb_name box')" using assms i by (simp add: resolves_def)
  then have "box = box'" using assms
    by (auto simp: db_ok_def keys_ok_def resolves_def keyed_by_def distinct_map inj_on_def)
  ultimately show ?thesis by simp
qed

text \<open>The database after a delivery.\<close>

definition delivered_db ::
  "database \<Rightarrow> account_row \<Rightarrow> mailbox_row \<Rightarrow> string \<Rightarrow> string \<Rightarrow> string \<Rightarrow> string \<Rightarrow> nat \<Rightarrow> int \<Rightarrow> database" where
  "delivered_db d u box dl dm recipient msg msize now =
     d\<lparr>deliveries := deliveries d @ [new_delivery dl msg recipient RouteLocal dm StDelivered now now],
       mailbox_messages := mailbox_messages d @
         [\<lparr>mm_mailbox = mb_id box, mm_uid = mb_uidnext box, mm_message = msg, mm_delivery = Some dl, mm_internaldate = now\<rparr>],
       mailboxes := map (\<lambda>m. if mb_id m = mb_id box
         then m\<lparr>mb_uidnext := mb_uidnext m + 1, mb_event_seq := mb_event_seq m + 1\<rparr> else m) (mailboxes d),
       mailbox_events := mailbox_events d @
         [\<lparr>ev_mailbox = mb_id box, ev_seq = mb_event_seq box + 1, ev_kind = EventAppend, ev_uid = Some (mb_uidnext box),
           ev_payload = ''{}'', ev_created = now\<rparr>],
       accounts := map (\<lambda>a. if ac_id a = ac_id u then a\<lparr>ac_used := ac_used a + int msize\<rparr> else a) (accounts d)\<rparr>"

lemma find_target_Ok:
  assumes "find_target w recipient msize s = (Ok t, s')"
  obtains u box where "resolves (st_db s) recipient u box" "target_of u box msize = Ok t" "st_db s' = st_db s"
proof -
  from assms obtain u box rows where r: "target_rows recipient (st_db s) = (u, box) # rows" and t: "target_of u box msize = Ok t" "s' = tick s"
    by (auto simp: find_target_def tx_simps split: list.splits)
  have "(u, box) \<in> set (target_rows recipient (st_db s))" using r by simp
  with t that show thesis by (simp add: target_rows_resolves)
qed

lemma target_of_Ok:
  assumes "target_of u box msize = Ok t"
  shows "t = \<lparr>tg_account = ac_id u, tg_mailbox = mb_id box, tg_uid = nat (mb_uidnext box), tg_event = mb_event_seq box\<rparr>"
    "0 \<le> mb_uidnext box" "ac_used u + int msize \<le> ac_quota u"
  using assms by (auto simp: target_of_def res_simps split: if_splits option.splits)

lemma deliver_Ok:
  assumes "deliver w recipient msg msize now s = (Ok (), s')"
  obtains u box dl dm where "resolves (st_db s) recipient u box" "st_db s' = delivered_db (st_db s) u box dl dm recipient msg msize now"
    "ac_used u + int msize \<le> ac_quota u" "0 \<le> mb_uidnext box" "map_option snd (rsplit_once (CHR ''@'') recipient) = Some dm"
    "dl \<notin> de_id ` set (deliveries (st_db s))" "length dl = 32"
    "(db_ok (st_db s) \<longrightarrow> db_ok (st_db s'))" "msg \<in> ms_id ` set (messages (st_db s))"
proof -
  from assms obtain t s1 where t: "find_target w recipient msize s = (Ok t, s1)"
    and rest: "andthen (new_uuid w) (\<lambda>dl.
     andthen (lift_res (ok_or (map_option snd (rsplit_once (CHR ''@'') recipient)) InvalidInput)) (\<lambda>dm.
     andthen (exec w (insert_delivery (new_delivery dl msg recipient RouteLocal dm StDelivered now now))) (\<lambda>_.
     andthen (exec w (insert_mailbox_message
       \<lparr>mm_mailbox = tg_mailbox t, mm_uid = int (tg_uid t), mm_message = msg, mm_delivery = Some dl, mm_internaldate = now\<rparr>)) (\<lambda>_.
     andthen (exec w (advance_mailbox (tg_mailbox t))) (\<lambda>_.
     andthen (exec w (insert_mailbox_event
       \<lparr>ev_mailbox = tg_mailbox t, ev_seq = tg_event t + 1, ev_kind = EventAppend, ev_uid = Some (int (tg_uid t)),
        ev_payload = ''{}'', ev_created = now\<rparr>)) (\<lambda>_.
     exec w (charge_account (tg_account t) msize))))))) s1 = (Ok (), s')"
    by (auto simp: deliver_def tx_simps)
  from t obtain u box where u: "resolves (st_db s) recipient u box" and to: "target_of u box msize = Ok t" and db: "st_db s1 = st_db s"
    by (rule find_target_Ok)
  note tv = target_of_Ok [OF to]
  from rest obtain dl dm d1 d2 d3 d4 where dm: "map_option snd (rsplit_once (CHR ''@'') recipient) = Some dm"
    and d1: "insert_delivery (new_delivery dl msg recipient RouteLocal dm StDelivered now now) (st_db s) = Ok d1"
    and d2: "insert_mailbox_message \<lparr>mm_mailbox = mb_id box, mm_uid = mb_uidnext box, mm_message = msg, mm_delivery = Some dl,
       mm_internaldate = now\<rparr> d1 = Ok d2"
    and d3: "advance_mailbox (mb_id box) d2 = Ok d3"
    and d4: "insert_mailbox_event \<lparr>ev_mailbox = mb_id box, ev_seq = mb_event_seq box + 1, ev_kind = EventAppend, ev_uid = Some (mb_uidnext box),
        ev_payload = ''{}'', ev_created = now\<rparr> d3 = Ok d4"
    and d5: "charge_account (ac_id u) msize d4 = Ok (st_db s')"
    using tv(2) unfolding tv(1) by (auto simp: tx_simps res_simps db)
  have eq: "st_db s' = delivered_db (st_db s) u box dl dm recipient msg msize now"
    using d1 d2 d3 d4 d5
    by (auto simp: insert_delivery_def insert_mailbox_message_def advance_mailbox_def update_mailboxes_def insert_mailbox_event_def
        charge_account_def update_accounts_def res_simps delivered_db_def)
  have fresh: "dl \<notin> de_id ` set (deliveries (st_db s))" "length dl = 32" "msg \<in> ms_id ` set (messages (st_db s))"
    using d1 by (auto simp: insert_delivery_def res_simps fresh_key_def delivery_ok_def new_delivery_def has_key_def)
  have ok: "db_ok (st_db s) \<longrightarrow> db_ok (st_db s')"
    using inserts_ok(8) [OF d1] inserts_ok(9) [OF d2] update_mailboxes_ok [OF d3 [unfolded advance_mailbox_def]]
      inserts_ok(10) [OF d4] update_accounts_ok [OF d5 [unfolded charge_account_def]] by simp
  show thesis by (rule that [OF u eq tv(3,2) dm fresh(1,2) ok fresh(3)])
qed

subsection \<open>Deliveries keep the integrity of the database\<close>

lemma delivered_stored_bytes:
  assumes "db_ok d" "box \<in> set (mailboxes d)" "message_bytes msg d = int msize"
  shows "stored_bytes i (delivered_db d u box dl dm recipient msg msize now)
    = stored_bytes i d + (if mb_account box = i then int msize else 0)"
proof -
  let ?d = "delivered_db d u box dl dm recipient msg msize now"
  have b: "boxes_of j k ?d = boxes_of j k d" for j k
    by (rule boxes_of_update [where p = "\<lambda>m. mb_id m = mb_id box"
        and f = "\<lambda>m. m\<lparr>mb_uidnext := mb_uidnext m + 1, mb_event_seq := mb_event_seq m + 1\<rparr>"]) (auto simp: delivered_db_def)
  have m: "message_bytes j ?d = message_bytes j d" for j by (rule message_bytes_frame) (auto simp: delivered_db_def)
  have k: "keyed_by mb_id (mailboxes d)" using assms(1) by (simp add: db_ok_def keys_ok_def)
  show ?thesis
    unfolding stored_bytes_sum b m using boxes_of_unique [OF k assms(2)] assms(3) by (simp add: delivered_db_def)
qed

lemma delivered_counters:
  assumes "db_ok d" "box \<in> set (mailboxes d)" "\<forall>x\<in>set (mailboxes d). box_counters d x"
  shows "\<forall>x\<in>set (mailboxes (delivered_db d u box dl dm recipient msg msize now)).
    box_counters (delivered_db d u box dl dm recipient msg msize now) x"
proof
  fix x
  let ?d = "delivered_db d u box dl dm recipient msg msize now"
  assume "x \<in> set (mailboxes ?d)"
  then obtain y where y: "y \<in> set (mailboxes d)"
    "x = (if mb_id y = mb_id box then y\<lparr>mb_uidnext := mb_uidnext y + 1, mb_event_seq := mb_event_seq y + 1\<rparr> else y)"
    by (auto simp: delivered_db_def)
  show "box_counters ?d x"
  proof (cases "mb_id y = mb_id box")
    case True
    then have "y = box" using assms y by (intro mb.keyed_same [of "mailboxes d"]) (auto simp: db_ok_def keys_ok_def)
    then show ?thesis using assms(2,3) y by (fastforce simp: box_counters_def delivered_db_def)
  next
    case False
    then show ?thesis using assms(3) y by (auto simp: box_counters_def delivered_db_def)
  qed
qed

lemma delivered_deliveries:
  assumes "db_ok d" "delivery_mismatches d = 0" "dl \<notin> de_id ` set (deliveries d)"
  shows "delivery_mismatches (delivered_db d u box dl dm recipient msg msize now) = 0"
proof -
  have "mm_delivery x \<noteq> Some dl" if "x \<in> set (mailbox_messages d)" for x
    using refs_okD(8) [OF assms(1) that, of dl] assms(3) by auto
  then show ?thesis
    using assms(2,3) unfolding delivery_mismatches_0 by (auto simp: delivered_db_def new_delivery_def)
qed

lemma deliver_keeps:
  assumes "deliver w recipient msg msize now s = (Ok (), s')" "mail_inv (st_db s)" "message_bytes msg (st_db s) = int msize"
  shows "mail_inv (st_db s')" "message_bytes i (st_db s') = message_bytes i (st_db s)"
proof -
  let ?d = "st_db s"
  from assms(1) obtain u box dl dm where u: "resolves ?d recipient u box"
    and eq: "st_db s' = delivered_db ?d u box dl dm recipient msg msize now"
    and quota: "ac_used u + int msize \<le> ac_quota u" and fresh: "dl \<notin> de_id ` set (deliveries ?d)"
    and ok: "db_ok ?d \<longrightarrow> db_ok (st_db s')" by (rule deliver_Ok)
  from assms(2) have inv: "db_ok ?d" "\<forall>a\<in>set (accounts ?d). ac_used a = stored_bytes (ac_id a) ?d"
    "\<forall>x\<in>set (mailboxes ?d). box_counters ?d x" "delivery_mismatches ?d = 0" "\<forall>a\<in>set (accounts ?d). ac_used a \<le> ac_quota a"
    by (auto simp: mail_inv_def quota_mismatches_0 uid_mismatches_0 db_ok_def quota_kept_def list_all_iff)
  with ok have ok': "db_ok (st_db s')" by simp
  have box: "box \<in> set (mailboxes ?d)" "mb_account box = ac_id u" "u \<in> set (accounts ?d)" using u by (auto simp: resolves_def)
  have "quota_mismatches (st_db s') = 0"
    unfolding quota_mismatches_0 eq
  proof
    fix a
    assume "a \<in> set (accounts (delivered_db ?d u box dl dm recipient msg msize now))"
    then obtain b where "b \<in> set (accounts ?d)" "a = (if ac_id b = ac_id u then b\<lparr>ac_used := ac_used b + int msize\<rparr> else b)"
      by (auto simp: delivered_db_def)
    then show "ac_used a = stored_bytes (ac_id a) (delivered_db ?d u box dl dm recipient msg msize now)"
      using inv(2) box delivered_stored_bytes [OF inv(1) box(1) assms(3)] by auto
  qed
  moreover have "uid_mismatches (st_db s') = 0"
    using uid_mismatches_0 [of "st_db s'"] ok' delivered_counters [OF inv(1) box(1) inv(3)] by (simp add: db_ok_def eq)
  moreover have "delivery_mismatches (st_db s') = 0"
    unfolding eq by (rule delivered_deliveries [OF inv(1,4) fresh])
  moreover have "ac_used b + int msize \<le> ac_quota b" if "b \<in> set (accounts ?d)" "ac_id b = ac_id u" for b
    using ac.keyed_same [of "accounts ?d" b u] that box(3) inv(1) quota by (auto simp: db_ok_def keys_ok_def)
  then have "quota_kept (st_db s')" unfolding eq using inv(5) by (auto simp: quota_kept_def list_all_iff delivered_db_def)
  ultimately show "mail_inv (st_db s')" using ok' by (simp add: mail_inv_def)
  show "message_bytes i (st_db s') = message_bytes i ?d" unfolding eq by (rule message_bytes_frame) (auto simp: delivered_db_def)
qed

lemma deliver_authority: "deliver w recipient msg msize now s = (Ok (), s') \<Longrightarrow> authority_le (st_db s) (st_db s')"
  by (erule deliver_Ok) (auto simp: authority_le_def delivered_db_def account_le_def intro!: rows_le_refl rows_le_map)

end
