(* ===== verification/Acceptance.thy ===== *)
theory Acceptance
  imports Local_Delivery
begin

text \<open>
  Taking responsibility for a message: \<open>create_account\<close>, \<open>set_account_quota\<close>, \<open>recipient_exists\<close>,
  \<open>accept\<close>, \<open>accept_submission\<close>, \<open>accept_relay_submission\<close> (all of them \<open>accept_inner\<close>), \<open>list_messages\<close> and
  the lookup of \<open>export\<close> from \<open>crates/store/src/lib.rs\<close>, with \<open>insert_relay\<close> and \<open>enqueue\<close> from
  \<open>crates/store/src/queue.rs\<close>. That a prepared message belongs to the store (\<open>message.root != self.root\<close>)
  is the argument \<open>same_root\<close>.
\<close>

section \<open>Accounts\<close>

definition first_of :: "'a list \<Rightarrow> 'a option" where
  "first_of xs = (case xs of [] \<Rightarrow> None | x # _ \<Rightarrow> Some x)"

definition used_bytes :: "string \<Rightarrow> database \<Rightarrow> int option" where
  "used_bytes login d = map_option ac_used (first_row (\<lambda>a. ac_login a = login) (accounts d))"

definition set_quota :: "string \<Rightarrow> nat \<Rightarrow> database \<Rightarrow> store_error + database" where
  "set_quota login n = update_accounts (\<lambda>a. ac_login a = login) (\<lambda>a. a\<lparr>ac_quota := int n\<rparr>)"

definition set_account_quota :: "world \<Rightarrow> address \<Rightarrow> nat \<Rightarrow> unit action" where
  "set_account_quota w adr n =
     (if int n > i64_max then throw InvalidInput
      else andthen (query w (used_bytes (local_key adr))) (\<lambda>row.
           andthen (case row of None \<Rightarrow> throw NotFound | Some v \<Rightarrow> lift_res (unsigned_column v)) (\<lambda>used.
           if n < used then throw Quota else autocommit w (exec w (set_quota (local_key adr) n)))))"

definition mailbox_names :: "string list" where
  "mailbox_names = [inbox_name, ''Sent'', ''Drafts'', ''Trash'', ''Archive'', ''Junk'']"

text \<open>\<open>u32::from_be_bytes\<close> of the first four bytes of a UUID.\<close>

definition first_u32 :: "nat list \<Rightarrow> nat" where
  "first_u32 bs = foldl (\<lambda>n b. 256 * n + b) 0 (take 4 bs)"

definition random_u32 :: "world \<Rightarrow> nat action" where
  "random_u32 w s = (Ok (first_u32 (w_uuid w (st_step s))), tick s)"

definition create_mailbox :: "world \<Rightarrow> int \<Rightarrow> string \<Rightarrow> unit action" where
  "create_mailbox w account name =
     andthen (random_u32 w) (\<lambda>v.
     andthen (exec w (insert_mailbox account name (max 1 (int v)))) (\<lambda>_.
     exec w (insert_subscription account name)))"

definition create_account :: "world \<Rightarrow> address \<Rightarrow> nat \<Rightarrow> unit action" where
  "create_account w adr quota =
     (if int quota > i64_max then throw InvalidInput
      else transact w plain_commit
        (andthen (read_clock w) (\<lambda>now.
         andthen (exec_ret w (insert_account (local_key adr) (int quota) now)) (\<lambda>account.
         andthen (exec w (insert_address \<lparr>ad_address = local_key adr, ad_account = account, ad_receive = True, ad_send = False\<rparr>)) (\<lambda>_.
         andthen (for_each (create_mailbox w account) mailbox_names) (\<lambda>_. return ((), True)))))))"

definition recipient_exists_db :: "string \<Rightarrow> database \<Rightarrow> bool" where
  "recipient_exists_db adr d \<longleftrightarrow>
     list_ex (\<lambda>a. list_ex (\<lambda>u. list_ex (\<lambda>m. ac_id u = ad_account a \<and> mb_account m = ac_id u \<and> mb_name m = inbox_name
       \<and> ad_address a = adr \<and> ad_receive a \<and> ac_status u = AccountActive) (mailboxes d)) (accounts d)) (addresses d)"

definition recipient_exists :: "world \<Rightarrow> address \<Rightarrow> bool action" where
  "recipient_exists w adr = query w (recipient_exists_db (local_key adr))"

section \<open>Acceptance\<close>

record acceptance =
  ap_operation :: string
  ap_sender :: "address option"
  ap_recipients :: "address list"

record relay_acceptance =
  ra_recipients :: "address list"
  ra_body :: queue_body
  ra_age :: nat

record accepted_message =
  am_id :: string
  am_already :: bool

text \<open>A \<open>BTreeSet<String>\<close> filled from a list, in the order it is iterated.\<close>

definition ordered_set :: "string list \<Rightarrow> string list" where
  "ordered_set xs = remdups (sort xs)"

definition sender_text :: "address option \<Rightarrow> string" where
  "sender_text a = (case a of None \<Rightarrow> [] | Some x \<Rightarrow> as_str x)"

definition later :: "int \<Rightarrow> int \<Rightarrow> store_error + int" where
  "later now ms = ok_or (checked_add_i64 now ms) InvalidInput"

definition relay_delivery :: "world \<Rightarrow> string \<Rightarrow> int \<Rightarrow> int \<Rightarrow> string \<Rightarrow> unit action" where
  "relay_delivery w msg now expires recipient =
     andthen (lift_res (ok_or (map_option snd (rsplit_once (CHR ''@'') recipient)) InvalidInput)) (\<lambda>dm.
     andthen (new_uuid w) (\<lambda>dl.
     exec w (insert_delivery (new_delivery dl msg recipient RouteRelay dm StPending now expires))))"

definition insert_relay :: "world \<Rightarrow> string \<Rightarrow> string list \<Rightarrow> queue_body \<Rightarrow> nat \<Rightarrow> int \<Rightarrow> unit action" where
  "insert_relay w msg recipients body age now =
     andthen (lift_res (later now (int age * 1000))) (\<lambda>expires.
     andthen (exec w (insert_queue_message \<lparr>qm_message = msg, qm_body = body, qm_age = int age\<rparr>)) (\<lambda>_.
     for_each (relay_delivery w msg now expires) recipients))"

definition previous_db :: "string \<Rightarrow> database \<Rightarrow> (message_row \<times> blob_row) option" where
  "previous_db key d =
     first_of [(m, b). m \<leftarrow> messages d, b \<leftarrow> blob_rows d, bl_id b = ms_blob m \<and> ms_ingest_key m = key]"

definition recipients_where :: "(route \<Rightarrow> bool) \<Rightarrow> string \<Rightarrow> database \<Rightarrow> string set" where
  "recipients_where p msg d = set (map de_recipient (filter (\<lambda>r. de_message r = msg \<and> p (de_route r)) (deliveries d)))"

definition queue_entry :: "string \<Rightarrow> database \<Rightarrow> (queue_body \<times> int) option" where
  "queue_entry msg d = map_option (\<lambda>q. (qm_body q, qm_age q)) (first_row (\<lambda>q. qm_message q = msg) (queue_messages d))"

text \<open>A submission is checked against the database of the accepting transaction.\<close>

definition check_identity :: "world \<Rightarrow> acceptance \<Rightarrow> submission_identity option \<Rightarrow> unit action" where
  "check_identity w plan who =
     (case who of
        None \<Rightarrow> return ()
      | Some i \<Rightarrow>
         (case ap_sender plan of
            None \<Rightarrow> throw PermissionDenied
          | Some sender \<Rightarrow>
              andthen (may_send w (si_principal i) sender) (\<lambda>a.
                if \<not> a then throw PermissionDenied
                else andthen (may_send w (si_principal i) (si_author i)) (\<lambda>b. ensure b PermissionDenied))))"

definition local_keys :: "acceptance \<Rightarrow> string list" where
  "local_keys plan = ordered_set (map local_key (ap_recipients plan))"

definition remote_keys :: "relay_acceptance option \<Rightarrow> string list" where
  "remote_keys rl = (case rl of None \<Rightarrow> [] | Some r \<Rightarrow> ordered_set (map as_str (ra_recipients r)))"

definition replay :: "world \<Rightarrow> prepared \<Rightarrow> acceptance \<Rightarrow> int option \<Rightarrow> relay_acceptance option \<Rightarrow>
    message_row \<Rightarrow> blob_row \<Rightarrow> (accepted_message \<times> bool) action" where
  "replay w pm plan account rl m b =
     andthen (lift_res (unsigned_column (bl_size b))) (\<lambda>old_size.
     andthen (query w (recipients_where (\<lambda>r. r = RouteLocal) (ms_id m))) (\<lambda>old.
     andthen (query w (recipients_where (\<lambda>r. r \<noteq> RouteLocal) (ms_id m))) (\<lambda>old_remote.
     andthen (query w (queue_entry (ms_id m))) (\<lambda>old_queue.
     andthen (ensure (old_remote = set (remote_keys rl)
         \<and> old_queue = map_option (\<lambda>r. (ra_body r, int (ra_age r))) rl
         \<and> ms_reverse_path m = sender_text (ap_sender plan) \<and> bl_sha256 b = pr_hash pm \<and> old_size = pr_size pm
         \<and> old = set (local_keys plan) \<and> ms_account m = account) IdempotencyConflict) (\<lambda>_.
     return (\<lparr>am_id = ms_id m, am_already = True\<rparr>, False))))))"

definition record_message :: "world \<Rightarrow> prepared \<Rightarrow> acceptance \<Rightarrow> int option \<Rightarrow> relay_acceptance option \<Rightarrow>
    (accepted_message \<times> bool) action" where
  "record_message w pm plan account rl =
     andthen (new_uuid w) (\<lambda>i.
     andthen (read_clock w) (\<lambda>now.
     andthen (hit_fault w DatabaseWrite) (\<lambda>_.
     andthen (exec w (insert_blob \<lparr>bl_id = pr_id pm, bl_size = int (pr_size pm), bl_sha256 = pr_hash pm, bl_created = now\<rparr>)) (\<lambda>_.
     andthen (exec w (insert_message \<lparr>ms_id = i, ms_ingest_key = ap_operation plan, ms_blob = pr_id pm,
        ms_source = (if account = None then SourceSmtp else SourceSubmission),
        ms_reverse_path = sender_text (ap_sender plan), ms_account = account, ms_accepted = now\<rparr>)) (\<lambda>_.
     andthen (for_each (\<lambda>r. deliver w r i (pr_size pm) now) (local_keys plan)) (\<lambda>_.
     andthen (case rl of None \<Rightarrow> return () | Some r \<Rightarrow> insert_relay w i (remote_keys rl) (ra_body r) (ra_age r) now) (\<lambda>_.
     return (\<lparr>am_id = i, am_already = False\<rparr>, True))))))))"

definition accept_arguments :: "bool \<Rightarrow> acceptance \<Rightarrow> relay_acceptance option \<Rightarrow> bool" where
  "accept_arguments same_root plan rl \<longleftrightarrow>
     (let n = length (ap_recipients plan) + (case rl of None \<Rightarrow> 0 | Some r \<Rightarrow> length (ra_recipients r)) in
      same_root \<and> valid_id (ap_operation plan) \<and> n \<noteq> 0 \<and> n \<le> 100
      \<and> (case rl of None \<Rightarrow> True | Some r \<Rightarrow> ra_recipients r \<noteq> [] \<and> 1 \<le> ra_age r \<and> ra_age r \<le> 604800))"

definition accept_body :: "world \<Rightarrow> prepared \<Rightarrow> acceptance \<Rightarrow> submission_identity option \<Rightarrow> relay_acceptance option \<Rightarrow>
    (accepted_message \<times> bool) action" where
  "accept_body w pm plan who rl =
     (let account = map_option (\<lambda>i. pn_account (si_principal i)) who in
      andthen (check_identity w plan who) (\<lambda>_.
      andthen (query w (previous_db (ap_operation plan))) (\<lambda>prev.
        case prev of
          Some (m, b) \<Rightarrow> replay w pm plan account rl m b
        | None \<Rightarrow> record_message w pm plan account rl)))"

definition accept_inner :: "world \<Rightarrow> bool \<Rightarrow> prepared \<Rightarrow> acceptance \<Rightarrow> submission_identity option \<Rightarrow>
    relay_acceptance option \<Rightarrow> accepted_message action" where
  "accept_inner w same_root pm plan who rl =
     (if \<not> accept_arguments same_root plan rl then throw InvalidInput
      else transact w accept_commit (accept_body w pm plan who rl))"

definition accept :: "world \<Rightarrow> bool \<Rightarrow> prepared \<Rightarrow> acceptance \<Rightarrow> accepted_message action" where
  "accept w same_root pm plan = accept_inner w same_root pm plan None None"

definition accept_submission :: "world \<Rightarrow> bool \<Rightarrow> prepared \<Rightarrow> acceptance \<Rightarrow> submission_identity \<Rightarrow> accepted_message action" where
  "accept_submission w same_root pm plan who = accept_inner w same_root pm plan (Some who) None"

definition accept_relay_submission :: "world \<Rightarrow> bool \<Rightarrow> prepared \<Rightarrow> acceptance \<Rightarrow> submission_identity \<Rightarrow>
    relay_acceptance \<Rightarrow> accepted_message action" where
  "accept_relay_submission w same_root pm plan who rl = accept_inner w same_root pm plan (Some who) (Some rl)"

text \<open>\<open>enqueue\<close>: the trusted offline interface of the queue.\<close>

record queue_plan =
  qp_operation :: string
  qp_sender :: "address option"
  qp_recipients :: "address list"
  qp_body :: queue_body
  qp_age :: nat

definition queue_keys :: "queue_plan \<Rightarrow> string list" where
  "queue_keys plan = ordered_set (map as_str (qp_recipients plan))"

definition enqueue_replay :: "world \<Rightarrow> prepared \<Rightarrow> queue_plan \<Rightarrow> message_row \<Rightarrow> blob_row \<Rightarrow> (queue_body \<times> int) option \<Rightarrow>
    (accepted_message \<times> bool) action" where
  "enqueue_replay w pm plan m b q =
     andthen (lift_res (unsigned_column (bl_size b))) (\<lambda>old_size.
     andthen (query w (recipients_where (\<lambda>r. r = RouteRelay) (ms_id m))) (\<lambda>old.
     andthen (ensure (ms_source m = SourceImport \<and> ms_reverse_path m = sender_text (qp_sender plan)
         \<and> bl_sha256 b = pr_hash pm \<and> old_size = pr_size pm \<and> old = set (queue_keys plan)
         \<and> q = Some (qp_body plan, int (qp_age plan))) IdempotencyConflict) (\<lambda>_.
     return (\<lparr>am_id = ms_id m, am_already = True\<rparr>, False))))"

definition enqueue_record :: "world \<Rightarrow> prepared \<Rightarrow> queue_plan \<Rightarrow> int \<Rightarrow> (accepted_message \<times> bool) action" where
  "enqueue_record w pm plan now =
     andthen (new_uuid w) (\<lambda>i.
     andthen (hit_fault w DatabaseWrite) (\<lambda>_.
     andthen (exec w (insert_blob \<lparr>bl_id = pr_id pm, bl_size = int (pr_size pm), bl_sha256 = pr_hash pm, bl_created = now\<rparr>)) (\<lambda>_.
     andthen (exec w (insert_message \<lparr>ms_id = i, ms_ingest_key = qp_operation plan, ms_blob = pr_id pm,
        ms_source = SourceImport, ms_reverse_path = sender_text (qp_sender plan), ms_account = None, ms_accepted = now\<rparr>)) (\<lambda>_.
     andthen (insert_relay w i (queue_keys plan) (qp_body plan) (qp_age plan) now) (\<lambda>_.
     return (\<lparr>am_id = i, am_already = False\<rparr>, True))))))"

definition enqueue :: "world \<Rightarrow> bool \<Rightarrow> prepared \<Rightarrow> queue_plan \<Rightarrow> accepted_message action" where
  "enqueue w same_root pm plan =
     (if \<not> same_root \<or> \<not> valid_id (qp_operation plan) \<or> qp_recipients plan = [] \<or> length (qp_recipients plan) > 100
        \<or> \<not> (1 \<le> qp_age plan \<and> qp_age plan \<le> 604800)
      then throw InvalidInput
      else andthen (read_clock w) (\<lambda>now.
        transact w accept_commit
          (andthen (query w (\<lambda>d. map_option (\<lambda>(m, b). (m, b, queue_entry (ms_id m) d)) (previous_db (qp_operation plan) d))) (\<lambda>prev.
           case prev of
             Some (m, b, q) \<Rightarrow> enqueue_replay w pm plan m b q
           | None \<Rightarrow> enqueue_record w pm plan now))))"

section \<open>Reading messages\<close>

record message_summary =
  sm_uid :: int
  sm_message :: string
  sm_size :: nat
  sm_accepted :: int

definition inbox_rows :: "string \<Rightarrow> database \<Rightarrow> (mailbox_message_row \<times> message_row \<times> blob_row) list" where
  "inbox_rows login d =
     [(mm, m, b). mm \<leftarrow> mailbox_messages d, box \<leftarrow> mailboxes d, a \<leftarrow> accounts d, m \<leftarrow> messages d, b \<leftarrow> blob_rows d,
        mb_id box = mm_mailbox mm \<and> ac_id a = mb_account box \<and> ms_id m = mm_message mm \<and> bl_id b = ms_blob m
        \<and> ac_login a = login \<and> mb_name box = inbox_name]"

definition summarise :: "mailbox_message_row \<times> message_row \<times> blob_row \<Rightarrow> store_error + message_summary" where
  "summarise r = (case r of (mm, m, b) \<Rightarrow>
     rbind (unsigned_column (bl_size b)) (\<lambda>n.
       Ok \<lparr>sm_uid = mm_uid mm, sm_message = ms_id m, sm_size = n, sm_accepted = ms_accepted m\<rparr>))"

fun collect_results :: "('e + 'a) list \<Rightarrow> 'e + 'a list" where
  "collect_results [] = Ok []"
| "collect_results (r # rs) = rbind r (\<lambda>x. rbind (collect_results rs) (\<lambda>xs. Ok (x # xs)))"

definition list_messages :: "world \<Rightarrow> address \<Rightarrow> nat \<Rightarrow> nat \<Rightarrow> message_summary list action" where
  "list_messages w adr after_uid lim =
     (if lim = 0 \<or> lim > 1000 then throw InvalidInput
      else andthen (query w (\<lambda>d. take lim (sort_key (mm_uid \<circ> fst)
             (filter (\<lambda>(mm, _, _). mm_uid mm > int after_uid) (inbox_rows (local_key adr) d))))) (\<lambda>rows.
           lift_res (collect_results (map summarise rows))))"

text \<open>The blob \<open>export\<close> will read: only a message in a mailbox of the account is found.\<close>

definition export_rows :: "string \<Rightarrow> string \<Rightarrow> database \<Rightarrow> blob_row list" where
  "export_rows login msg d =
     [b. m \<leftarrow> messages d, b \<leftarrow> blob_rows d, mm \<leftarrow> mailbox_messages d, box \<leftarrow> mailboxes d, a \<leftarrow> accounts d,
        bl_id b = ms_blob m \<and> mm_message mm = ms_id m \<and> mb_id box = mm_mailbox mm \<and> ac_id a = mb_account box
        \<and> ac_login a = login \<and> ms_id m = msg]"

definition export_lookup :: "world \<Rightarrow> address \<Rightarrow> string \<Rightarrow> (string \<times> nat \<times> string) action" where
  "export_lookup w adr msg =
     (if \<not> valid_id msg then throw InvalidId
      else andthen (query w (\<lambda>d. first_of (export_rows (local_key adr) msg d))) (\<lambda>row.
           case row of
             None \<Rightarrow> throw NotFound
           | Some b \<Rightarrow> andthen (lift_res (unsigned_column (bl_size b))) (\<lambda>n. return (bl_id b, n, bl_sha256 b))))"

section \<open>Integrity is kept\<close>

definition mail_le :: "database \<Rightarrow> database \<Rightarrow> bool" where
  "mail_le d d' \<longleftrightarrow> (mail_inv d \<longrightarrow> mail_inv d')"

interpretation mail: db_relation mail_le
  by unfold_locales (auto simp: mail_le_def)

lemma mail_inv_ok: "mail_inv d \<Longrightarrow> db_ok d"
  by (simp add: mail_inv_def)

text \<open>Tables the counts do not read, and deliveries no mailbox refers to, are free to change.\<close>

definition same_mail :: "database \<Rightarrow> database \<Rightarrow> bool" where
  "same_mail d d' \<longleftrightarrow> accounts d' = accounts d \<and> mailboxes d' = mailboxes d \<and> mailbox_messages d' = mailbox_messages d
     \<and> mailbox_events d' = mailbox_events d \<and> messages d' = messages d \<and> blob_rows d' = blob_rows d"

lemma stored_bytes_same: "same_mail d d' \<Longrightarrow> stored_bytes i d' = stored_bytes i d"
  by (simp add: stored_bytes_def same_mail_def)

lemma mail_frame:
  assumes "same_mail d d'" "mail_inv d" "db_ok d'"
    and "\<And>r. r \<in> set (deliveries d') \<Longrightarrow> r \<in> set (deliveries d) \<or> de_id r \<notin> de_id ` set (deliveries d)
      \<or> (\<exists>x\<in>set (deliveries d). de_id x = de_id r \<and> de_route x \<noteq> RouteLocal)"
  shows "mail_inv d'"
proof -
  have "delivery_mismatches d' = 0"
    unfolding delivery_mismatches_0
  proof (intro ballI impI)
    fix mm r
    assume mm: "mm \<in> set (mailbox_messages d')" and r: "r \<in> set (deliveries d')" "mm_delivery mm = Some (de_id r)"
    have mm': "mm \<in> set (mailbox_messages d)" using mm assms(1) by (simp add: same_mail_def)
    have "de_id r \<in> de_id ` set (deliveries d)" using refs_okD(8) [OF mail_inv_ok [OF assms(2)] mm' r(2)] .
    moreover have z: "\<forall>x\<in>set (deliveries d). mm_delivery mm = Some (de_id x) \<longrightarrow>
        de_message x = mm_message mm \<and> de_route x = RouteLocal \<and> de_state x = StDelivered"
      using assms(2) mm' by (simp add: mail_inv_def delivery_mismatches_0)
    ultimately have "r \<in> set (deliveries d)" using assms(4) [OF r(1)] r(2) by auto
    with z r(2) show "de_message r = mm_message mm \<and> de_route r = RouteLocal \<and> de_state r = StDelivered" by simp
  qed
  moreover have "quota_mismatches d' = 0" "uid_mismatches d' = 0" "quota_kept d'"
    using assms(1,2) stored_bytes_same [OF assms(1)]
    by (auto simp: mail_inv_def quota_mismatches_def uid_mismatches_def quota_kept_def same_mail_def)
  ultimately show ?thesis using assms(3) by (simp add: mail_inv_def)
qed

lemma mail_insert_delivery: "insert_delivery r d = Ok d' \<Longrightarrow> mail_le d d'"
  unfolding mail_le_def
proof
  assume i: "insert_delivery r d = Ok d'" and m: "mail_inv d"
  show "mail_inv d'"
    by (rule mail_frame [OF _ m insert_delivery_ok [OF i mail_inv_ok [OF m]]])
      (use i in \<open>auto simp: insert_delivery_def res_simps same_mail_def fresh_key_def\<close>)
qed

lemma mail_untouched:
  assumes "db_ok d \<Longrightarrow> db_ok d'" "same_mail d d'" "deliveries d' = deliveries d"
  shows "mail_le d d'"
  unfolding mail_le_def using mail_frame [OF assms(2)] assms(1,3) mail_inv_ok by auto

lemma mail_other_inserts:
  "insert_credential i sel lab phc sc now d = Ok (j, d') \<Longrightarrow> mail_le d d'"
  "insert_address ar d = Ok d' \<Longrightarrow> mail_le d d'"
  "insert_subscription i n d = Ok d' \<Longrightarrow> mail_le d d'"
  "insert_notification nr d = Ok d' \<Longrightarrow> mail_le d d'"
  "insert_queue_message q d = Ok d' \<Longrightarrow> mail_le d d'"
  "insert_queue_lease l d = Ok d' \<Longrightarrow> mail_le d d'"
  "insert_admin_event dl act old new note dup ex now d = Ok d' \<Longrightarrow> mail_le d d'"
  by (rule mail_untouched; (erule (1) inserts_ok
        | auto simp: insert_credential_def insert_address_def insert_subscription_def insert_notification_def insert_queue_message_def
          insert_queue_lease_def insert_admin_event_def Let_def res_simps same_mail_def))+

lemma mail_update_credentials:
  assumes "update_credentials p f d = Ok d'" "\<And>c. credential_le c (f c)"
  shows "mail_le d d'"
proof (rule mail_untouched)
  show "db_ok d \<Longrightarrow> db_ok d'" using authority_credentials [OF assms] by (simp add: authority_le_def)
qed (use assms(1) in \<open>auto simp: update_credentials_def res_simps same_mail_def\<close>)

lemma mail_update_accounts:
  assumes "update_accounts p f d = Ok d'" "\<And>a. ac_id (f a) = ac_id a" "\<And>a. ac_login (f a) = ac_login a"
    "\<And>a. ac_used (f a) = ac_used a" "\<And>a. a \<in> set (accounts d) \<Longrightarrow> p a \<Longrightarrow> ac_used a \<le> ac_quota a \<Longrightarrow> ac_used a \<le> ac_quota (f a)"
  shows "mail_le d d'"
  unfolding mail_le_def
proof
  assume m: "mail_inv d"
  have ok: "db_ok d'" by (rule update_accounts_ok [OF assms(1) mail_inv_ok [OF m] assms(2,3)])
  have d': "d' = d\<lparr>accounts := map (\<lambda>a. if p a then f a else a) (accounts d)\<rparr>"
    using assms(1) by (auto simp: update_accounts_def res_simps)
  have "stored_bytes i d' = stored_bytes i d" for i by (simp add: d' stored_bytes_def)
  then have "quota_mismatches d' = 0" using m assms(2,4) by (auto simp: mail_inv_def quota_mismatches_0 d')
  moreover have "quota_kept d'" using m assms(4,5) by (auto simp: mail_inv_def quota_kept_def list_all_iff d')
  moreover have "uid_mismatches d' = uid_mismatches d" "delivery_mismatches d' = delivery_mismatches d"
    by (auto simp: d' uid_mismatches_def delivery_mismatches_def)
  ultimately show "mail_inv d'" using m ok by (simp add: mail_inv_def)
qed

lemma mail_identity_statements:
  "bump_epoch i d = Ok d' \<Longrightarrow> mail_le d d'"
  "disable_rows i d = Ok d' \<Longrightarrow> mail_le d d'"
  "revoke_rows q now d = Ok d' \<Longrightarrow> mail_le d d'"
  "touch_credential i now d = Ok d' \<Longrightarrow> mail_le d d'"
  unfolding bump_epoch_def disable_rows_def revoke_rows_def touch_credential_def
  by (auto elim!: mail_update_accounts mail_update_credentials simp: credential_le_def split: option.splits)

lemma mail_send_as: "upsert_send_as adr i on d = Ok d' \<Longrightarrow> mail_le d d'"
proof (cases "has_key ad_address adr (addresses d)")
  case True
  assume "upsert_send_as adr i on d = Ok d'"
  with True have u: "update_addresses (\<lambda>r. ad_address r = adr) (\<lambda>r. r\<lparr>ad_send := on\<rparr>) d = Ok d'"
    by (simp add: upsert_send_as_def)
  from update_addresses_ok [OF this] u show ?thesis
    by (intro mail_untouched) (auto simp: update_addresses_def res_simps same_mail_def)
qed (auto simp: upsert_send_as_def dest: mail_other_inserts(2))

lemma identity_operations_mail:
  "within mail_le (finish_authentication w p)"
  "within mail_le (create_credential w login sel lab sc phc)"
  "within mail_le (revoke_credential w sel)"
  "within mail_le (disable_account w login)"
  "within mail_le (set_send_as w login adr on)"
  unfolding finish_authentication_def create_credential_def revoke_credential_def disable_account_def set_send_as_def current_def
  by (auto intro!: mail.within_rules dest: mail_identity_statements mail_send_as mail_other_inserts)

subsection \<open>Accounts\<close>

lemma set_account_quota_keeps: "within mail_le (set_account_quota w adr n)" "within authority_le (set_account_quota w adr n)"
proof -
  let ?k = "local_key adr"
  have q: "mail_le d d'" if "set_quota ?k n d = Ok d'" "used_bytes ?k d = Some v" "0 \<le> v" "nat v \<le> n" for d d' v
  proof (cases "db_ok d")
    case True
    from that(2) obtain a where a: "a \<in> set (accounts d)" "ac_login a = ?k" "ac_used a = v"
      by (auto simp: used_bytes_def dest: first_row_Some)
    have "b = a" if "b \<in> set (accounts d)" "ac_login b = ?k" for b
      using True a that by (intro al.keyed_same [of "accounts d"]) (auto simp: db_ok_def keys_ok_def)
    then have "ac_used b \<le> int n" if "b \<in> set (accounts d)" "ac_login b = ?k" for b
      using that a \<open>nat v \<le> n\<close> \<open>0 \<le> v\<close> by auto
    then show ?thesis by (intro mail_update_accounts [OF that(1) [unfolded set_quota_def]]) simp_all
  qed (simp add: mail_le_def mail_inv_def)
  show "within mail_le (set_account_quota w adr n)"
    unfolding set_account_quota_def
    by (rule within_fromI, intro mail.from_rules mail.from_return, split option.split)
      (auto intro!: mail.from_rules intro: q)
  show "within authority_le (set_account_quota w adr n)"
    unfolding set_account_quota_def set_quota_def
    by (auto intro!: authority.within_rules elim!: authority_accounts simp: account_le_def split: option.splits)
qed

lemma mail_insert_account:
  assumes "insert_account login quota now d = Ok (i, d')"
  shows "mail_le d d'" "authority_le d d'" "has_key ac_id i (accounts d')"
proof -
  from assms have i: "i = next_rowid (map ac_id (accounts d))"
    and d': "d' = d\<lparr>accounts := accounts d @ [\<lparr>ac_id = i, ac_login = login, ac_status = AccountActive, ac_quota = quota, ac_used = 0,
               ac_epoch = 1, ac_created = now\<rparr>]\<rparr>" and quota: "0 \<le> quota"
    by (auto simp: insert_account_def Let_def res_simps account_ok_def)
  note ok = insert_account_ok [OF assms]
  show "authority_le d d'" using ok by (auto simp: authority_le_def d' intro!: rows_le_refl rows_le_snoc)
  show "has_key ac_id i (accounts d')" by (simp add: d' has_key_def)
  show "mail_le d d'"
    unfolding mail_le_def
  proof
    assume m: "mail_inv d"
    have sb: "stored_bytes j d' = stored_bytes j d" for j by (simp add: d' stored_bytes_def)
    have "mb_account b \<noteq> i" if "b \<in> set (mailboxes d)" for b
      using refs_okD(3) [OF mail_inv_ok [OF m] that] next_rowid_fresh [of ac_id "accounts d"] i by auto
    then have "stored_bytes i d = 0" by (simp add: stored_bytes_def filter_False)
    with m sb have "quota_mismatches d' = 0" by (auto simp: mail_inv_def quota_mismatches_0 d')
    moreover have "quota_kept d'" using m quota by (simp add: mail_inv_def quota_kept_def d')
    moreover have "uid_mismatches d' = uid_mismatches d" "delivery_mismatches d' = delivery_mismatches d"
      by (auto simp: d' uid_mismatches_def delivery_mismatches_def)
    ultimately show "mail_inv d'" using m ok mail_inv_ok by (simp add: mail_inv_def)
  qed
qed

lemma mail_insert_mailbox:
  assumes "insert_mailbox i n v d = Ok d'"
  shows "mail_le d d'"
  unfolding mail_le_def
proof
  assume m: "mail_inv d"
  let ?k = "next_rowid (map mb_id (mailboxes d))"
  from assms have d': "d' = d\<lparr>mailboxes := mailboxes d @ [\<lparr>mb_id = ?k, mb_account = i, mb_name = n, mb_uidvalidity = v, mb_uidnext = 1, mb_event_seq = 0\<rparr>]\<rparr>"
    by (auto simp: insert_mailbox_def Let_def res_simps)
  have ok: "db_ok d'" by (rule insert_mailbox_ok [OF assms mail_inv_ok [OF m]])
  have fresh: "mm_mailbox x \<noteq> ?k" if "x \<in> set (mailbox_messages d)" for x
    using refs_okD(6) [OF mail_inv_ok [OF m] that] next_rowid_fresh [of mb_id "mailboxes d"] by auto
  have fresh_ev: "ev_mailbox x \<noteq> ?k" if "x \<in> set (mailbox_events d)" for x
    using refs_okD(9) [OF mail_inv_ok [OF m] that] next_rowid_fresh [of mb_id "mailboxes d"] by auto
  have "boxes_of j (mm_mailbox x) d' = boxes_of j (mm_mailbox x) d" if "x \<in> set (mailbox_messages d)" for j x
    using fresh [OF that] by (auto simp: boxes_of_def d')
  moreover have "message_bytes j d' = message_bytes j d" for j by (rule message_bytes_frame) (auto simp: d')
  moreover have "mailbox_messages d' = mailbox_messages d" by (simp add: d')
  ultimately have sb: "stored_bytes j d' = stored_bytes j d" for j
    unfolding stored_bytes_sum by (intro arg_cong [where f = sum_list] map_cong) auto
  then have "quota_mismatches d' = 0" using m by (auto simp: mail_inv_def quota_mismatches_0 d')
  moreover have "quota_kept d'" using m by (simp add: mail_inv_def quota_kept_def d')
  moreover have "uid_mismatches d' = 0"
  proof -
    have "\<forall>box\<in>set (mailboxes d). box_counters d box"
      using m uid_mismatches_0 [of d] by (simp add: mail_inv_def db_ok_def)
    then have "\<forall>box\<in>set (mailboxes d'). box_counters d' box"
      using fresh fresh_ev by (auto simp: d' box_counters_def)
    then show ?thesis using uid_mismatches_0 [of d'] ok by (simp add: db_ok_def)
  qed
  moreover have "delivery_mismatches d' = delivery_mismatches d" by (auto simp: d' delivery_mismatches_def)
  ultimately show "mail_inv d'" using m ok by (simp add: mail_inv_def)
qed

lemma authority_other_inserts:
  "insert_mailbox i n v d = Ok d' \<Longrightarrow> authority_le d d'"
  "insert_subscription i n d = Ok d' \<Longrightarrow> authority_le d d'"
  "insert_blob b d = Ok d' \<Longrightarrow> authority_le d d'"
  "insert_message m d = Ok d' \<Longrightarrow> authority_le d d'"
  "insert_delivery r d = Ok d' \<Longrightarrow> authority_le d d'"
  "insert_notification nr d = Ok d' \<Longrightarrow> authority_le d d'"
  "insert_queue_message q d = Ok d' \<Longrightarrow> authority_le d d'"
  "insert_queue_lease l d = Ok d' \<Longrightarrow> authority_le d d'"
  "insert_admin_event dl act old new note dup ex now d = Ok d' \<Longrightarrow> authority_le d d'"
  by (rule authority_unchanged; (erule (1) inserts_ok
        | auto simp: insert_mailbox_def insert_blob_def insert_message_def insert_subscription_def insert_notification_def insert_queue_message_def
          insert_delivery_def insert_queue_lease_def insert_admin_event_def Let_def res_simps))+

lemma authority_insert_address: "insert_address r d = Ok d' \<Longrightarrow> authority_le d d'"
  using insert_address_ok [of r d d']
  by (auto simp: authority_le_def insert_address_def Let_def res_simps intro!: rows_le_refl rows_le_snoc)

lemma within_random [simp]: "within mail_le (random_u32 w)" "within authority_le (random_u32 w)"
  by (rule mail.within_read authority.within_read, simp add: random_u32_def)+

lemma create_account_keeps: "within mail_le (create_account w adr n)" "within authority_le (create_account w adr n)"
proof -
  show "within mail_le (create_account w adr n)"
    unfolding create_account_def create_mailbox_def
    by (auto intro!: mail.within_rules dest: mail_insert_account mail_insert_mailbox mail_other_inserts)
  show "within authority_le (create_account w adr n)"
    unfolding create_account_def create_mailbox_def
    by (auto intro!: authority.within_rules dest: mail_insert_account authority_other_inserts authority_insert_address)
qed

subsection \<open>Acceptance\<close>

lemma mail_insert_message:
  assumes "insert_blob b d = Ok d1" "insert_message m d1 = Ok d2" "ms_blob m = bl_id b"
  shows "mail_le d d2"
  unfolding mail_le_def
proof
  assume inv: "mail_inv d"
  note ok = mail_inv_ok [OF inv]
  have same: "accounts d2 = accounts d" "mailboxes d2 = mailboxes d" "mailbox_messages d2 = mailbox_messages d"
    "mailbox_events d2 = mailbox_events d" "deliveries d2 = deliveries d"
    using assms by (auto simp: insert_blob_def insert_message_def res_simps)
  have "db_ok d2" by (rule insert_message_ok [OF assms(2) insert_blob_ok [OF assms(1) ok]])
  with inv stored_bytes_insert_message [OF assms ok] show "mail_inv d2"
    by (simp add: mail_inv_def quota_mismatches_def uid_mismatches_def delivery_mismatches_def quota_kept_def same)
qed

lemma insert_relay_within:
  "within mail_le (insert_relay w i rs body age now)" "within authority_le (insert_relay w i rs body age now)"
  unfolding insert_relay_def relay_delivery_def
  by (auto intro!: mail.within_rules authority.within_rules dest: mail_other_inserts mail_insert_delivery authority_other_inserts)

lemma deliver_all_keeps:
  assumes "for_each (\<lambda>r. deliver w r i n now) rs s = (Ok (), s')" "mail_inv (st_db s)" "message_bytes i (st_db s) = int n"
  shows "mail_inv (st_db s') \<and> message_bytes j (st_db s') = message_bytes j (st_db s)"
  using assms
proof (induction rs arbitrary: s)
  case (Cons r rs)
  then obtain s1 where d: "deliver w r i n now s = (Ok (), s1)" "for_each (\<lambda>r. deliver w r i n now) rs s1 = (Ok (), s')"
    by (auto simp: tx_simps)
  with Cons.IH [of s1] deliver_keeps [OF d(1) Cons.prems(2,3)] Cons.prems(3) show ?case by simp
qed (auto simp: tx_simps)

lemma record_message_Ok:
  assumes "record_message w pm plan account rl s = (Ok (r, c), s')"
  obtains i now d1 d2 s2 s3 where "c" "r = \<lparr>am_id = i, am_already = False\<rparr>"
    "insert_blob \<lparr>bl_id = pr_id pm, bl_size = int (pr_size pm), bl_sha256 = pr_hash pm, bl_created = now\<rparr> (st_db s) = Ok d1"
    "insert_message \<lparr>ms_id = i, ms_ingest_key = ap_operation plan, ms_blob = pr_id pm,
        ms_source = (if account = None then SourceSmtp else SourceSubmission),
        ms_reverse_path = sender_text (ap_sender plan), ms_account = account, ms_accepted = now\<rparr> d1 = Ok d2"
    "for_each (\<lambda>a. deliver w a (i) (pr_size pm) now) (local_keys plan) s2 = (Ok (), s3)"
    "(case rl of None \<Rightarrow> return () | Some q \<Rightarrow> insert_relay w (i) (remote_keys rl) (ra_body q) (ra_age q) now) s3 = (Ok (), s')" "st_db s2 = d2"
  using assms unfolding record_message_def
  by (clarsimp simp: tx_simps)

lemma record_message_within:
  assumes "record_message w pm plan account rl s = (Ok (r, c), s')"
  shows "mail_le (st_db s) (st_db s') \<and> authority_le (st_db s) (st_db s')"
  using assms
proof (cases rule: record_message_Ok)
  case (1 i now d1 d2 s2 s3)
  have "mail_le (st_db s3) (st_db s')" "authority_le (st_db s3) (st_db s')"
    using 1(6) insert_relay_within [unfolded within_def]
    by (cases rl; auto simp: tx_simps mail.R_refl authority.R_refl)+
  moreover have "mail_le (st_db s) (st_db s3)"
  proof -
    have "message_bytes i (st_db s2) = int (pr_size pm)" if "mail_inv (st_db s)"
      using message_bytes_insert [OF 1(3,4) _ mail_inv_ok [OF that]] 1(7) by simp
    with deliver_all_keeps [OF 1(5)] mail_insert_message [OF 1(3,4)] 1(7) show ?thesis by (simp add: mail_le_def)
  qed
  moreover have "authority_le (st_db s2) (st_db s3)"
    by (rule authority.for_each_within [OF 1(5)]) (rule deliver_authority)
  ultimately show ?thesis
    using authority_other_inserts(3) [OF 1(3)] authority_other_inserts(4) [OF 1(4)]
    unfolding 1(7) by (meson mail.R_trans authority.R_trans)
qed

lemma may_send_db: "may_send w p a s = (v, s') \<Longrightarrow> st_db s' = st_db s"
  by (auto simp: may_send_def current_def query_def return_def andthen_def split: if_splits sum.splits prod.splits)

lemma check_identity_db: "check_identity w plan who s = (v, s') \<Longrightarrow> st_db s' = st_db s"
  by (auto simp: check_identity_def andthen_def ensure_def return_def throw_def split: option.splits if_splits sum.splits prod.splits dest!: may_send_db)

lemma replay_Ok:
  assumes "replay w pm plan account rl m b s = (Ok (r, c), s')"
  shows "\<not> c" "r = \<lparr>am_id = ms_id m, am_already = True\<rparr>" "st_db s' = st_db s"
  using assms unfolding replay_def by (auto simp: tx_simps)

text \<open>The two ways an accepting transaction can succeed.\<close>

lemma accept_body_Ok:
  assumes "accept_body w pm plan who rl s = (Ok (r, c), s')"
  obtains (old) m b where "previous_db (ap_operation plan) (st_db s) = Some (m, b)" "\<not> c"
      "r = \<lparr>am_id = ms_id m, am_already = True\<rparr>" "st_db s' = st_db s"
  | (new) s1 where "previous_db (ap_operation plan) (st_db s) = None" "c" "st_db s1 = st_db s"
      "record_message w pm plan (map_option (\<lambda>i. pn_account (si_principal i)) who) rl s1 = (Ok (r, c), s')"
proof -
  from assms obtain s1 where s1: "check_identity w plan who s = (Ok (), s1)" and
    k: "(case previous_db (ap_operation plan) (st_db s1) of
          Some (m, b) \<Rightarrow> replay w pm plan (map_option (\<lambda>i. pn_account (si_principal i)) who) rl m b
        | None \<Rightarrow> record_message w pm plan (map_option (\<lambda>i. pn_account (si_principal i)) who) rl) (tick s1) = (Ok (r, c), s')"
    by (auto simp: accept_body_def Let_def tx_simps)
  note db = check_identity_db [OF s1]
  show thesis
  proof (cases "previous_db (ap_operation plan) (st_db s1)")
    case None
    with k db new [of "tick s1"] show thesis by (auto elim: record_message_Ok)
  next
    case (Some mb)
    obtain m b where "mb = (m, b)" by fastforce
    with Some k have "replay w pm plan (map_option (\<lambda>i. pn_account (si_principal i)) who) rl m b (tick s1) = (Ok (r, c), s')" by simp
    from replay_Ok [OF this] db Some \<open>mb = (m, b)\<close> old [of m b] show thesis by simp
  qed
qed

lemma accept_inner_within: "within mail_le (accept_inner w root pm plan who rl)" "within authority_le (accept_inner w root pm plan who rl)"
proof -
  have "mail_le (st_db s) (st_db s') \<and> authority_le (st_db s) (st_db s')" if "accept_body w pm plan who rl s = (Ok (r, c), s')" for s r c s'
    using that
  proof (cases rule: accept_body_Ok)
    case (new s1)
    with record_message_within [OF new(4)] show ?thesis by simp
  qed (auto simp: mail.R_refl authority.R_refl)
  then show "within mail_le (accept_inner w root pm plan who rl)" "within authority_le (accept_inner w root pm plan who rl)"
    unfolding accept_inner_def by (auto intro!: mail.within_if authority.within_if mail.within_transact authority.within_transact)
qed

lemma enqueue_record_Ok:
  assumes "enqueue_record w pm plan now s = (Ok (r, c), s')"
  obtains i d1 d2 s2 where "c" "r = \<lparr>am_id = i, am_already = False\<rparr>"
    "insert_blob \<lparr>bl_id = pr_id pm, bl_size = int (pr_size pm), bl_sha256 = pr_hash pm, bl_created = now\<rparr> (st_db s) = Ok d1"
    "insert_message \<lparr>ms_id = i, ms_ingest_key = qp_operation plan, ms_blob = pr_id pm,
        ms_source = SourceImport, ms_reverse_path = sender_text (qp_sender plan), ms_account = None, ms_accepted = now\<rparr> d1 = Ok d2"
    "insert_relay w i (queue_keys plan) (qp_body plan) (qp_age plan) now s2 = (Ok (), s')" "st_db s2 = d2"
  using assms unfolding enqueue_record_def by (clarsimp simp: tx_simps)

lemma enqueue_within: "within mail_le (enqueue w root pm plan)" "within authority_le (enqueue w root pm plan)"
proof -
  have rep: "st_db s' = st_db s" if "enqueue_replay w pm plan m b q s = (Ok (r, c), s')" for m b q s r c s'
    using that unfolding enqueue_replay_def by (auto simp: tx_simps)
  have rec: "mail_le (st_db s) (st_db s') \<and> authority_le (st_db s) (st_db s')" if "enqueue_record w pm plan now s = (Ok (r, c), s')" for now s r c s'
    using that
  proof (cases rule: enqueue_record_Ok)
    case (1 i d1 d2 s2)
    have "mail_le (st_db s2) (st_db s')" "authority_le (st_db s2) (st_db s')" using insert_relay_within 1(5) by (auto simp: within_def)
    with mail_insert_message [OF 1(3,4)] authority_other_inserts(3) [OF 1(3)] authority_other_inserts(4) [OF 1(4)]
    show ?thesis unfolding 1(6) by (simp, meson mail.R_trans authority.R_trans)
  qed
  have body: "mail_le (st_db s) (st_db s') \<and> authority_le (st_db s) (st_db s')"
    if "(case prev of Some (m, b, q) \<Rightarrow> enqueue_replay w pm plan m b q | None \<Rightarrow> enqueue_record w pm plan now) s = (Ok (r, c), s')"
    for prev now s r c s'
    using that by (auto split: option.splits prod.splits simp: mail.R_refl authority.R_refl dest: rep rec)
  show "within mail_le (enqueue w root pm plan)"
    unfolding enqueue_def
    by (intro mail.within_if mail.within_andthen mail.within_transact mail.within_reads) (simp only: andthen_Ok query_Ok, elim exE conjE, drule body, simp)
  show "within authority_le (enqueue w root pm plan)"
    unfolding enqueue_def
    by (intro authority.within_if authority.within_andthen authority.within_transact authority.within_reads)
      (simp only: andthen_Ok query_Ok, elim exE conjE, drule body, simp)
qed

lemma first_row_snoc: "first_row p t = None \<Longrightarrow> first_row p (t @ [x]) = (if p x then Some x else None)"
  by (induction t) (auto split: if_splits)

section \<open>What an acceptance leaves behind\<close>

text \<open>The deliveries of a message are appended, one per recipient; nothing else it is compared by on a
  retry changes.\<close>

definition appended :: "string \<Rightarrow> route \<Rightarrow> string list \<Rightarrow> database \<Rightarrow> database \<Rightarrow> bool" where
  "appended i rt rs d d' \<longleftrightarrow> (\<exists>rows. deliveries d' = deliveries d @ rows \<and> map de_recipient rows = rs
     \<and> (\<forall>r\<in>set rows. de_message r = i \<and> de_route r = rt)) \<and> messages d' = messages d \<and> blob_rows d' = blob_rows d"

lemma appended_Nil: "appended i rt [] d d"
  by (auto simp: appended_def)

lemma appended_Cons: "appended i rt [r] d d1 \<Longrightarrow> appended i rt rs d1 d2 \<Longrightarrow> appended i rt (r # rs) d d2"
  unfolding appended_def
proof (elim conjE exE)
  fix rows1 rows2
  assume "deliveries d1 = deliveries d @ rows1" "map de_recipient rows1 = [r]" "\<forall>x\<in>set rows1. de_message x = i \<and> de_route x = rt"
    "deliveries d2 = deliveries d1 @ rows2" "map de_recipient rows2 = rs" "\<forall>x\<in>set rows2. de_message x = i \<and> de_route x = rt"
    "messages d1 = messages d" "blob_rows d1 = blob_rows d" "messages d2 = messages d1" "blob_rows d2 = blob_rows d1"
  then show "(\<exists>rows. deliveries d2 = deliveries d @ rows \<and> map de_recipient rows = r # rs
      \<and> (\<forall>x\<in>set rows. de_message x = i \<and> de_route x = rt)) \<and> messages d2 = messages d \<and> blob_rows d2 = blob_rows d"
    by (intro conjI exI [of _ "rows1 @ rows2"]) auto
qed

lemma for_each_appended:
  assumes "for_each f rs s = (Ok (), s')" "\<And>r s1 s2. f r s1 = (Ok (), s2) \<Longrightarrow> appended i rt [r] (st_db s1) (st_db s2)"
  shows "appended i rt rs (st_db s) (st_db s')"
  using assms(1)
proof (induction rs arbitrary: s)
  case (Cons r rs)
  then obtain s1 where "f r s = (Ok (), s1)" "for_each f rs s1 = (Ok (), s')" by (auto simp: tx_simps)
  with Cons.IH assms(2) show ?case by (blast intro: appended_Cons)
qed (auto simp: tx_simps appended_Nil)

lemma deliver_appended: "deliver w r i n now s = (Ok (), s') \<Longrightarrow> appended i RouteLocal [r] (st_db s) (st_db s')"
  by (erule deliver_Ok) (auto simp: appended_def delivered_db_def new_delivery_def)

lemma relay_delivery_appended: "relay_delivery w i now ex r s = (Ok (), s') \<Longrightarrow> appended i RouteRelay [r] (st_db s) (st_db s')"
  unfolding relay_delivery_def by (auto simp: tx_simps insert_delivery_def res_simps appended_def new_delivery_def)

lemma deliver_queue: "deliver w r i n now s = (Ok (), s') \<Longrightarrow> queue_messages (st_db s') = queue_messages (st_db s)"
  by (erule deliver_Ok) (auto simp: delivered_db_def)

lemma deliver_all_queue:
  "for_each (\<lambda>r. deliver w r i n now) rs s = (Ok (), s') \<Longrightarrow> queue_messages (st_db s') = queue_messages (st_db s)"
  by (induction rs arbitrary: s) (auto simp: tx_simps dest!: deliver_queue)

lemma relay_all_queue:
  "for_each (relay_delivery w i now ex) rs s = (Ok (), s') \<Longrightarrow> queue_messages (st_db s') = queue_messages (st_db s)"
  by (induction rs arbitrary: s) (auto simp: tx_simps relay_delivery_def insert_delivery_def res_simps)

lemma insert_relay_effect:
  assumes "insert_relay w i rs body age now s = (Ok (), s')"
  shows "appended i RouteRelay rs (st_db s) (st_db s')"
    "queue_messages (st_db s') = queue_messages (st_db s) @ [\<lparr>qm_message = i, qm_body = body, qm_age = int age\<rparr>]"
    "i \<notin> qm_message ` set (queue_messages (st_db s))"
proof -
  from assms obtain ex d1 s1 where q: "insert_queue_message \<lparr>qm_message = i, qm_body = body, qm_age = int age\<rparr> (st_db s) = Ok d1"
    and f: "for_each (relay_delivery w i now ex) rs s1 = (Ok (), s')" and d1: "st_db s1 = d1"
    unfolding insert_relay_def by (clarsimp simp: tx_simps)
  have "appended i RouteRelay rs (st_db s1) (st_db s')" by (rule for_each_appended [OF f]) (rule relay_delivery_appended)
  with q d1 show "appended i RouteRelay rs (st_db s) (st_db s')"
    by (auto simp: appended_def insert_queue_message_def res_simps)
  show "queue_messages (st_db s') = queue_messages (st_db s) @ [\<lparr>qm_message = i, qm_body = body, qm_age = int age\<rparr>]"
    "i \<notin> qm_message ` set (queue_messages (st_db s))"
    using q d1 relay_all_queue [OF f] by (auto simp: insert_queue_message_def res_simps fresh_key_def)
qed

text \<open>The rows by which a retry with the same operation identifier recognises the message.\<close>

definition recorded :: "prepared \<Rightarrow> acceptance \<Rightarrow> int option \<Rightarrow> relay_acceptance option \<Rightarrow> string \<Rightarrow> database \<Rightarrow> bool" where
  "recorded pm plan account rl i d \<longleftrightarrow> (\<exists>m b. previous_db (ap_operation plan) d = Some (m, b) \<and> ms_id m = i
     \<and> ms_reverse_path m = sender_text (ap_sender plan) \<and> ms_account m = account \<and> bl_sha256 b = pr_hash pm
     \<and> bl_size b = int (pr_size pm) \<and> recipients_where (\<lambda>r. r = RouteLocal) i d = set (local_keys plan)
     \<and> recipients_where (\<lambda>r. r \<noteq> RouteLocal) i d = set (remote_keys rl)
     \<and> queue_entry i d = map_option (\<lambda>r. (ra_body r, int (ra_age r))) rl)"

lemma replay_recorded:
  assumes "replay w pm plan account rl m b s = (Ok (r, c), s')" "previous_db (ap_operation plan) (st_db s) = Some (m, b)"
  shows "recorded pm plan account rl (am_id r) (st_db s)"
  using assms unfolding replay_def recorded_def by (auto simp: tx_simps)

lemma previous_new:
  assumes "db_ok d" "insert_blob b d = Ok d1" "insert_message m d1 = Ok d2" "ms_blob m = bl_id b"
    "messages d' = messages d2" "blob_rows d' = blob_rows d2"
  shows "previous_db (ms_ingest_key m) d' = Some (m, b)"
proof -
  from assms(2,3) have d2: "messages d2 = messages d @ [m]" "blob_rows d2 = blob_rows d @ [b]"
    and fresh: "ms_ingest_key m \<notin> ms_ingest_key ` set (messages d)" "bl_id b \<notin> bl_id ` set (blob_rows d)"
    by (auto simp: insert_blob_def insert_message_def res_simps fresh_key_def)
  let ?row = "\<lambda>m' b'. if bl_id b' = ms_blob m' \<and> ms_ingest_key m' = ms_ingest_key m then [(m', b')] else []"
  have key: "\<forall>x\<in>set (messages d). ms_ingest_key x \<noteq> ms_ingest_key m" "\<forall>x\<in>set (blob_rows d). bl_id x \<noteq> bl_id b"
    using fresh by (metis imageI)+
  have 1: "concat (map (\<lambda>m'. concat (map (\<lambda>b'. ?row m' b') (blob_rows d @ [b]))) (messages d)) = []"
    using key(1) by (auto simp: concat_eq_Nil_conv)
  have 2: "concat (map (\<lambda>b'. ?row m b') (blob_rows d)) = []"
    using key(2) assms(4) by (auto simp: concat_eq_Nil_conv)
  have "[(m', b'). m' \<leftarrow> messages d', b' \<leftarrow> blob_rows d', bl_id b' = ms_blob m' \<and> ms_ingest_key m' = ms_ingest_key m] = [(m, b)]"
    unfolding assms(5,6) d2 map_append [where xs = "messages d"] concat_append 1
    by (simp only: map_append concat_append list.map concat.simps 2) (simp add: assms(4))
  then show ?thesis by (simp add: previous_db_def first_of_def)
qed

lemma recipients_where_appended:
  assumes "appended i rt rs d d'"
  shows "recipients_where p i d' = recipients_where p i d \<union> (if p rt then set rs else {})"
proof -
  from assms obtain rows where r: "deliveries d' = deliveries d @ rows" "map de_recipient rows = rs"
    "\<forall>r\<in>set rows. de_message r = i \<and> de_route r = rt" by (auto simp: appended_def)
  have "filter (\<lambda>r. de_message r = i \<and> p (de_route r)) rows = (if p rt then rows else [])"
    using r(3) by (simp add: filter_id_conv filter_empty_conv)
  with r(1,2) show ?thesis by (auto simp: recipients_where_def)
qed

lemma record_message_recorded:
  assumes "record_message w pm plan account rl s = (Ok (r, c), s')" "db_ok (st_db s)"
  shows "recorded pm plan account rl (am_id r) (st_db s')"
  using assms(1)
proof (cases rule: record_message_Ok)
  case (1 i now d1 d2 s2 s3)
  let ?d = "st_db s"
  have a1: "appended i RouteLocal (local_keys plan) d2 (st_db s3)"
    using for_each_appended [OF 1(5)] deliver_appended 1(7) by simp
  have q1: "queue_messages (st_db s3) = queue_messages ?d"
    using deliver_all_queue [OF 1(5)] 1(3,4,7) by (auto simp: insert_blob_def insert_message_def res_simps)
  have fresh: "i \<notin> ms_id ` set (messages ?d)" "deliveries d2 = deliveries ?d"
    using 1(3,4) by (auto simp: insert_blob_def insert_message_def res_simps fresh_key_def)
  have none: "recipients_where p i d2 = {}" for p
    using refs_okD(5) [OF assms(2)] fresh by (auto simp: recipients_where_def)
  have nq: "i \<notin> qm_message ` set (queue_messages ?d)" using refs_okD(11) [OF assms(2)] fresh(1) by auto
  have "appended i RouteRelay (remote_keys rl) (st_db s3) (st_db s')
      \<and> queue_entry i (st_db s') = map_option (\<lambda>r. (ra_body r, int (ra_age r))) rl"
  proof (cases rl)
    case None
    with 1(6) q1 nq show ?thesis
      by (auto simp: tx_simps remote_keys_def appended_Nil queue_entry_def first_row_None)
  next
    case (Some q)
    with 1(6) insert_relay_effect [of w i "remote_keys rl" "ra_body q" "ra_age q" now s3 s'] have
      e: "appended i RouteRelay (remote_keys rl) (st_db s3) (st_db s')"
      "queue_messages (st_db s') = queue_messages ?d @ [\<lparr>qm_message = i, qm_body = ra_body q, qm_age = int (ra_age q)\<rparr>]"
      using q1 by auto
    have "first_row (\<lambda>x. qm_message x = i) (queue_messages ?d) = None" using nq by (auto simp: first_row_None)
    from first_row_snoc [OF this] e Some show ?thesis by (simp add: queue_entry_def)
  qed
  then have a2: "appended i RouteRelay (remote_keys rl) (st_db s3) (st_db s')"
    and q: "queue_entry i (st_db s') = map_option (\<lambda>r. (ra_body r, int (ra_age r))) rl" by auto
  have "messages (st_db s') = messages d2" "blob_rows (st_db s') = blob_rows d2"
    using a1 a2 by (auto simp: appended_def)
  from previous_new [OF assms(2) 1(3,4) _ this] show ?thesis
    using q recipients_where_appended [OF a1] recipients_where_appended [OF a2] none 1(2)
    by (simp add: recorded_def)
qed

section \<open>Authority of a submission\<close>

definition may_send_now :: "database \<Rightarrow> principal \<Rightarrow> address \<Rightarrow> bool" where
  "may_send_now d p a \<longleftrightarrow> pn_scope p = ScopeMail \<and> current_db p d \<and> send_enabled_db (pn_account p) (local_key a) d"

definition permitted :: "database \<Rightarrow> acceptance \<Rightarrow> submission_identity option \<Rightarrow> bool" where
  "permitted d plan who \<longleftrightarrow> (case who of None \<Rightarrow> True | Some i \<Rightarrow>
     (case ap_sender plan of None \<Rightarrow> False | Some a \<Rightarrow> may_send_now d (si_principal i) a) \<and> may_send_now d (si_principal i) (si_author i))"

lemma may_send_Ok: "may_send w p a s = (Ok b, s') \<Longrightarrow> (b \<longleftrightarrow> may_send_now (st_db s) p a) \<and> st_db s' = st_db s"
  by (auto simp: may_send_def may_send_now_def current_def tx_simps split: if_splits)

lemma may_send_runs:
  assumes "\<And>n. \<not> w_fails w n"
  shows "\<exists>s'. may_send w p a s = (Ok (may_send_now (st_db s) p a), s')"
  using assms by (auto simp: may_send_def may_send_now_def current_def andthen_def query_def return_def)

lemma check_identity_Ok: "check_identity w plan who s = (Ok (), s') \<Longrightarrow> permitted (st_db s) plan who"
  unfolding check_identity_def permitted_def
  by (auto simp: tx_simps split: option.splits if_splits dest!: may_send_Ok)

lemma check_identity_runs:
  assumes "\<And>n. \<not> w_fails w n" "permitted (st_db s) plan who"
  shows "\<exists>s'. check_identity w plan who s = (Ok (), s') \<and> st_db s' = st_db s"
proof (cases who)
  case None
  then show ?thesis by (simp add: check_identity_def return_def)
next
  case (Some i)
  with assms(2) obtain a where a: "ap_sender plan = Some a" "may_send_now (st_db s) (si_principal i) a"
    "may_send_now (st_db s) (si_principal i) (si_author i)" by (auto simp: permitted_def split: option.splits)
  obtain s1 where s1: "may_send w (si_principal i) a s = (Ok True, s1)" using may_send_runs [OF assms(1)] a(2) by metis
  note db = may_send_db [OF s1]
  obtain s2 where s2: "may_send w (si_principal i) (si_author i) s1 = (Ok True, s2)"
    using may_send_runs [OF assms(1), of "si_principal i" "si_author i" s1] a(3) db by auto
  have "check_identity w plan who s = (Ok (), s2)"
    using Some a(1) s1 s2 by (simp add: check_identity_def andthen_def ensure_def return_def)
  with may_send_db [OF s2] db show ?thesis by simp
qed

section \<open>Retrying\<close>

lemma replay_runs:
  assumes "\<And>n. \<not> w_fails w n" "recorded pm plan account rl i (st_db s)" "previous_db (ap_operation plan) (st_db s) = Some (m, b)"
  shows "\<exists>s'. replay w pm plan account rl m b s = (Ok (\<lparr>am_id = i, am_already = True\<rparr>, False), s')"
  using assms by (auto simp: replay_def recorded_def andthen_def lift_res_def query_def ensure_def return_def unsigned_column_def)

lemma accept_recorded_again:
  assumes "\<And>n. \<not> w_fails w n" "accept_arguments root plan rl" "permitted (st_db s) plan who"
    "recorded pm plan (map_option (\<lambda>i. pn_account (si_principal i)) who) rl i (st_db s)"
  shows "\<exists>s'. accept_inner w root pm plan who rl s = (Ok \<lparr>am_id = i, am_already = True\<rparr>, s') \<and> st_db s' = st_db s"
proof -
  obtain s1 where s1: "check_identity w plan who (tick s) = (Ok (), s1)" "st_db s1 = st_db s"
    using check_identity_runs [OF assms(1), of "tick s" plan who] assms(3) by auto
  obtain m b where mb: "previous_db (ap_operation plan) (st_db s) = Some (m, b)" using assms(4) by (auto simp: recorded_def)
  obtain s2 where s2: "replay w pm plan (map_option (\<lambda>i. pn_account (si_principal i)) who) rl m b (tick s1)
      = (Ok (\<lparr>am_id = i, am_already = True\<rparr>, False), s2)"
    using replay_runs [OF assms(1), of pm plan _ rl i "tick s1" m b] assms(4) mb s1(2) by fastforce
  have "accept_body w pm plan who rl (tick s) = (Ok (\<lparr>am_id = i, am_already = True\<rparr>, False), s2)"
    using s1 s2 mb assms(1) by (simp add: accept_body_def Let_def andthen_def query_def)
  then show ?thesis using assms(1,2) by (simp add: accept_inner_def transact_def query_def)
qed

lemma accept_body_recorded:
  assumes "accept_body w pm plan who rl s = (Ok (r, c), s')" "db_ok (st_db s)"
  shows "recorded pm plan (map_option (\<lambda>i. pn_account (si_principal i)) who) rl (am_id r) (st_db s')"
proof -
  from assms(1) obtain s1 where s1: "check_identity w plan who s = (Ok (), s1)" and
    k: "(case previous_db (ap_operation plan) (st_db s1) of
          Some (m, b) \<Rightarrow> replay w pm plan (map_option (\<lambda>i. pn_account (si_principal i)) who) rl m b
        | None \<Rightarrow> record_message w pm plan (map_option (\<lambda>i. pn_account (si_principal i)) who) rl) (tick s1) = (Ok (r, c), s')"
    by (auto simp: accept_body_def Let_def tx_simps)
  have db: "st_db s1 = st_db s" by (rule check_identity_db [OF s1])
  show ?thesis
  proof (cases "previous_db (ap_operation plan) (st_db s1)")
    case None
    with k have "record_message w pm plan (map_option (\<lambda>i. pn_account (si_principal i)) who) rl (tick s1) = (Ok (r, c), s')" by simp
    from record_message_recorded [OF this] assms(2) db show ?thesis by simp
  next
    case (Some mb)
    obtain m b where "mb = (m, b)" by fastforce
    with Some k have r: "replay w pm plan (map_option (\<lambda>i. pn_account (si_principal i)) who) rl m b (tick s1) = (Ok (r, c), s')" by simp
    from replay_recorded [OF this] replay_Ok(3) [OF r] Some \<open>mb = (m, b)\<close> show ?thesis by simp
  qed
qed

text \<open>How an acceptance can end.\<close>

lemma accept_inner_cases:
  assumes "accept_inner w root pm plan who rl s = (out, s')" "db_ok (st_db s)"
  obtains (refused) e where "out = Err e" "st_db s' = st_db s"
  | (accepted) r where "out = Ok r" "accept_arguments root plan rl" "permitted (st_db s) plan who"
      "recorded pm plan (map_option (\<lambda>i. pn_account (si_principal i)) who) rl (am_id r) (st_db s')"
      "am_already r \<longrightarrow> st_db s' = st_db s"
  | (unknown) i where "out = Err OutcomeUnknown" "accept_arguments root plan rl" "permitted (st_db s) plan who"
      "recorded pm plan (map_option (\<lambda>i. pn_account (si_principal i)) who) rl i (st_db s')"
proof (cases "accept_arguments root plan rl")
  case False
  with assms refused [of InvalidInput] show thesis by (auto simp: accept_inner_def throw_def)
next
  case True
  have perm: "permitted (st_db s) plan who" if "accept_body w pm plan who rl (tick s) = (Ok x, s2)" for x s2
  proof -
    from that obtain s1 where "check_identity w plan who (tick s) = (Ok (), s1)" by (auto simp: accept_body_def Let_def tx_simps)
    from check_identity_Ok [OF this] show ?thesis by simp
  qed
  have rec: "recorded pm plan (map_option (\<lambda>i. pn_account (si_principal i)) who) rl (am_id r) (st_db s2)"
    if "accept_body w pm plan who rl (tick s) = (Ok (r, c), s2)" for r c s2
    using accept_body_recorded [OF that] assms(2) by simp
  from assms(1) True have "transact w accept_commit (accept_body w pm plan who rl) s = (out, s')"
    by (simp add: accept_inner_def)
  then show thesis
  proof (cases rule: transact_cases)
    case not_begun
    then show thesis by (rule refused)
  next
    case (failed e s2)
    then show thesis by (intro refused)
  next
    case (dropped x s2)
    have "st_db s2 = st_db s" using dropped(1) by (cases rule: accept_body_Ok) auto
    with accepted [of x] dropped True perm rec show thesis by auto
  next
    case (committed x s2)
    have "\<not> am_already x" using committed(1) by (cases rule: accept_body_Ok) (auto elim: record_message_Ok)
    with accepted [of x] committed True perm rec show thesis by auto
  next
    case (refused x s2 e)
    then show thesis using that(1) by blast
  next
    case (unknown x s2 e)
    then have "e = OutcomeUnknown" by (auto simp: accept_commit_def)
    with unknown True perm rec that show thesis by metis
  qed
qed

section \<open>What the mailboxes hold\<close>

definition mailbox_view :: "database \<Rightarrow> int \<Rightarrow> (int \<times> string) list" where
  "mailbox_view d k = map (\<lambda>x. (mm_uid x, mm_message x)) (filter (\<lambda>x. mm_mailbox x = k) (mailbox_messages d))"

definition box_of :: "database \<Rightarrow> string \<Rightarrow> int option" where
  "box_of d recipient = map_option (mb_id \<circ> snd) (first_of (target_rows recipient d))"

definition arrivals :: "database \<Rightarrow> string list \<Rightarrow> int \<Rightarrow> nat" where
  "arrivals d rs k = length (filter (\<lambda>r. box_of d r = Some k) rs)"

lemma box_of_iff:
  assumes "db_ok d"
  shows "box_of d r = Some k \<longleftrightarrow> (\<exists>u box. resolves d r u box \<and> mb_id box = k)"
proof (cases "target_rows r d")
  case Nil
  then have "\<not> resolves d r u box" for u box using target_rows_resolves [of u box r d] by simp
  with Nil show ?thesis by (simp add: box_of_def first_of_def)
next
  case (Cons x xs)
  obtain u box where x: "x = (u, box)" by fastforce
  have res: "resolves d r u box" using target_rows_resolves [of u box r d] Cons x by simp
  then have "resolves d r u' box' \<Longrightarrow> box' = box" for u' box' using resolves_unique [OF assms] by blast
  moreover have "box_of d r = Some (mb_id box)" by (simp add: box_of_def first_of_def Cons x)
  ultimately show ?thesis using res by (metis option.inject)
qed

lemma resolves_delivered:
  assumes "d' = delivered_db d u box dl dm recipient msg n now"
  shows "(\<exists>v b. resolves d' r v b \<and> mb_id b = k) \<longleftrightarrow> (\<exists>v b. resolves d r v b \<and> mb_id b = k)"
proof -
  let ?f = "\<lambda>m. if mb_id m = mb_id box then m\<lparr>mb_uidnext := mb_uidnext m + 1, mb_event_seq := mb_event_seq m + 1\<rparr> else m"
  let ?g = "\<lambda>a. if ac_id a = ac_id u then a\<lparr>ac_used := ac_used a + int n\<rparr> else a"
  have d': "addresses d' = addresses d" "set (accounts d') = ?g ` set (accounts d)" "set (mailboxes d') = ?f ` set (mailboxes d)"
    by (auto simp: assms delivered_db_def)
  have keep: "ac_id (?g a) = ac_id a" "ac_status (?g a) = ac_status a" "mb_id (?f m) = mb_id m"
    "mb_account (?f m) = mb_account m" "mb_name (?f m) = mb_name m" for a m by auto
  show ?thesis
  proof
    assume "\<exists>v b. resolves d' r v b \<and> mb_id b = k"
    then obtain v b where "resolves d' r (?g v) (?f b)" "mb_id (?f b) = k" "v \<in> set (accounts d)" "b \<in> set (mailboxes d)"
      unfolding resolves_def d' by blast
    then have "resolves d r v b" "mb_id b = k" unfolding resolves_def d' keep by simp_all
    then show "\<exists>v b. resolves d r v b \<and> mb_id b = k" by blast
  next
    assume "\<exists>v b. resolves d r v b \<and> mb_id b = k"
    then obtain v b where vb: "resolves d r v b" "mb_id b = k" by blast
    then have "resolves d' r (?g v) (?f b)" unfolding resolves_def d' keep by blast
    moreover have "mb_id (?f b) = k" using vb(2) keep(3) by simp
    ultimately show "\<exists>v b. resolves d' r v b \<and> mb_id b = k" by blast
  qed
qed

lemma box_of_delivered:
  assumes "db_ok d" "db_ok d'" "d' = delivered_db d u box dl dm recipient msg n now"
  shows "box_of d' r = box_of d r"
proof -
  have "box_of d' r = Some k \<longleftrightarrow> box_of d r = Some k" for k
    unfolding box_of_iff [OF assms(1)] box_of_iff [OF assms(2)] by (rule resolves_delivered [OF assms(3)])
  then show ?thesis by (metis option.exhaust)
qed

lemma deliver_view:
  assumes "deliver w r i n now s = (Ok (), s')" "db_ok (st_db s)"
  obtains box where "db_ok (st_db s')" "box_of (st_db s) r = Some (mb_id box)" "box \<in> set (mailboxes (st_db s))"
    "\<And>r. box_of (st_db s') r = box_of (st_db s) r"
    "mailboxes (st_db s') = map (\<lambda>m. if mb_id m = mb_id box
       then m\<lparr>mb_uidnext := mb_uidnext m + 1, mb_event_seq := mb_event_seq m + 1\<rparr> else m) (mailboxes (st_db s))"
    "\<And>k. mailbox_view (st_db s') k = mailbox_view (st_db s) k @ (if k = mb_id box then [(mb_uidnext box, i)] else [])"
proof -
  from assms(1) obtain u box dl dm where u: "resolves (st_db s) r u box"
    and eq: "st_db s' = delivered_db (st_db s) u box dl dm r i n now" and ok: "db_ok (st_db s')"
    using assms(2) by (elim deliver_Ok) auto
  have "box \<in> set (mailboxes (st_db s))" using u by (simp add: resolves_def)
  moreover have "box_of (st_db s) r = Some (mb_id box)" using u box_of_iff [OF assms(2)] by blast
  moreover have "mailbox_view (st_db s') k = mailbox_view (st_db s) k @ (if k = mb_id box then [(mb_uidnext box, i)] else [])" for k
    by (auto simp: eq mailbox_view_def delivered_db_def)
  moreover have "mailboxes (st_db s') = map (\<lambda>m. if mb_id m = mb_id box
       then m\<lparr>mb_uidnext := mb_uidnext m + 1, mb_event_seq := mb_event_seq m + 1\<rparr> else m) (mailboxes (st_db s))"
    by (simp add: eq delivered_db_def)
  ultimately show thesis using that ok box_of_delivered [OF assms(2) ok eq] by blast
qed

lemma map_upt_shift: "(u, i) # map (\<lambda>j. (u + 1 + int j, i)) [0..<n] = map (\<lambda>j. (u + int j, i)) [0..<Suc n]"
  unfolding upt_conv_Cons [OF zero_less_Suc] map_Suc_upt [symmetric] by (simp add: comp_def add.assoc)

lemma deliver_all_resolve:
  assumes "for_each (\<lambda>r. deliver w r i n now) rs s = (Ok (), s')" "db_ok (st_db s)"
  shows "\<forall>r\<in>set rs. box_of (st_db s) r \<noteq> None"
  using assms
proof (induction rs arbitrary: s)
  case (Cons r rs)
  then obtain s1 where d: "deliver w r i n now s = (Ok (), s1)" and f: "for_each (\<lambda>r. deliver w r i n now) rs s1 = (Ok (), s')"
    by (auto simp: tx_simps)
  have "db_ok (st_db s1) \<and> box_of (st_db s) r \<noteq> None \<and> (\<forall>r. box_of (st_db s1) r = box_of (st_db s) r)"
    using d Cons.prems(2) by (rule deliver_view) simp
  with Cons.IH [OF f] show ?case by simp
qed simp

lemma deliver_all_view:
  assumes "for_each (\<lambda>r. deliver w r i n now) rs s = (Ok (), s')" "db_ok (st_db s)" "box \<in> set (mailboxes (st_db s))"
  shows "mailbox_view (st_db s') (mb_id box) = mailbox_view (st_db s) (mb_id box)
      @ map (\<lambda>j. (mb_uidnext box + int j, i)) [0..<arrivals (st_db s) rs (mb_id box)]"
  using assms
proof (induction rs arbitrary: s box)
  case (Cons r rs)
  then obtain s1 where d: "deliver w r i n now s = (Ok (), s1)" and f: "for_each (\<lambda>r. deliver w r i n now) rs s1 = (Ok (), s')"
    by (auto simp: tx_simps)
  from d Cons.prems(2) obtain b where b: "db_ok (st_db s1)" "box_of (st_db s) r = Some (mb_id b)" "b \<in> set (mailboxes (st_db s))"
    and same: "\<And>r. box_of (st_db s1) r = box_of (st_db s) r"
    and boxes: "mailboxes (st_db s1) = map (\<lambda>m. if mb_id m = mb_id b
     then m\<lparr>mb_uidnext := mb_uidnext m + 1, mb_event_seq := mb_event_seq m + 1\<rparr> else m) (mailboxes (st_db s))"
    and view: "\<And>k. mailbox_view (st_db s1) k = mailbox_view (st_db s) k @ (if k = mb_id b then [(mb_uidnext b, i)] else [])"
    by (rule deliver_view) blast
  let ?box = "if mb_id box = mb_id b then box\<lparr>mb_uidnext := mb_uidnext box + 1, mb_event_seq := mb_event_seq box + 1\<rparr> else box"
  have "?box \<in> set (mailboxes (st_db s1))" using Cons.prems(3) unfolding boxes by auto
  from Cons.IH [OF f b(1) this] have ih: "mailbox_view (st_db s') (mb_id box) = mailbox_view (st_db s1) (mb_id box)
    @ map (\<lambda>j. (mb_uidnext ?box + int j, i)) [0..<arrivals (st_db s1) rs (mb_id box)]" by (simp split: if_splits)
  have arr: "arrivals (st_db s1) rs k = arrivals (st_db s) rs k" for k by (simp add: arrivals_def same)
  show ?case
  proof (cases "mb_id box = mb_id b")
    case True
    then have "box = b" using Cons.prems(2,3) b(3)
      by (intro mb.keyed_same [of "mailboxes (st_db s)"]) (auto simp: db_ok_def keys_ok_def)
    then have "arrivals (st_db s) (r # rs) (mb_id box) = Suc (arrivals (st_db s) rs (mb_id box))" using b(2) by (simp add: arrivals_def)
    then show ?thesis using ih \<open>box = b\<close> view [of "mb_id box"] map_upt_shift [of "mb_uidnext box" i] by (simp add: arr)
  next
    case False
    then show ?thesis using ih b(2) view [of "mb_id box"] by (simp add: arr) (simp add: arrivals_def)
  qed
qed (auto simp: tx_simps arrivals_def)

lemma box_of_frame:
  "accounts d' = accounts d \<Longrightarrow> addresses d' = addresses d \<Longrightarrow> mailboxes d' = mailboxes d \<Longrightarrow> box_of d' r = box_of d r"
  by (simp add: box_of_def target_rows_def)

lemma insert_relay_mailboxes:
  assumes "insert_relay w i rs body age now s = (Ok (), s')"
  shows "mailbox_messages (st_db s') = mailbox_messages (st_db s)"
proof -
  have f: "mailbox_messages (st_db s') = mailbox_messages (st_db s)" if "for_each (relay_delivery w i now ex) rs s = (Ok (), s')" for ex s s'
    using that by (induction rs arbitrary: s) (auto simp: tx_simps relay_delivery_def insert_delivery_def res_simps)
  show ?thesis using assms unfolding insert_relay_def by (auto simp: tx_simps insert_queue_message_def res_simps dest: f)
qed

lemma record_message_view:
  assumes "record_message w pm plan account rl s = (Ok (r, c), s')" "db_ok (st_db s)"
  shows "(\<forall>k\<in>set (local_keys plan). box_of (st_db s) k \<noteq> None)
    \<and> (\<forall>box\<in>set (mailboxes (st_db s)). mailbox_view (st_db s') (mb_id box) = mailbox_view (st_db s) (mb_id box)
      @ map (\<lambda>j. (mb_uidnext box + int j, am_id r)) [0..<arrivals (st_db s) (local_keys plan) (mb_id box)])"
  using assms(1)
proof (cases rule: record_message_Ok)
  case (1 i now d1 d2 s2 s3)
  have ok: "db_ok (st_db s2)" using insert_message_ok [OF 1(4) insert_blob_ok [OF 1(3) assms(2)]] 1(7) by simp
  have same: "accounts d2 = accounts (st_db s)" "addresses d2 = addresses (st_db s)" "mailboxes d2 = mailboxes (st_db s)"
    "mailbox_messages d2 = mailbox_messages (st_db s)"
    using 1(3,4) by (auto simp: insert_blob_def insert_message_def res_simps)
  have box: "box_of (st_db s2) k = box_of (st_db s) k" for k unfolding 1(7) by (rule box_of_frame [OF same(1-3)])
  have "mailbox_messages (st_db s') = mailbox_messages (st_db s3)"
    using 1(6) by (cases rl) (auto simp: tx_simps dest: insert_relay_mailboxes)
  then have v: "mailbox_view (st_db s') k = mailbox_view (st_db s3) k" for k by (simp add: mailbox_view_def)
  have v2: "mailbox_view (st_db s2) k = mailbox_view (st_db s) k" for k unfolding 1(7) by (simp add: mailbox_view_def same)
  have arr: "arrivals (st_db s2) ks k = arrivals (st_db s) ks k" for ks k by (simp add: arrivals_def box)
  show ?thesis
    using deliver_all_resolve [OF 1(5) ok] deliver_all_view [OF 1(5) ok] same(3) 1(2,7) unfolding v v2 arr box by simp
qed

section \<open>Correctness of acceptance\<close>

definition sample_mail_db :: database where
  "sample_mail_db = sample_identity_db\<lparr>
     addresses := [\<lparr>ad_address = ''a@b.c'', ad_account = 1, ad_receive = True, ad_send = True\<rparr>],
     mailboxes := [\<lparr>mb_id = 4, mb_account = 1, mb_name = inbox_name, mb_uidvalidity = 9, mb_uidnext = 1, mb_event_seq = 0\<rparr>]\<rparr>"

definition sample_prepared :: prepared where
  "sample_prepared = \<lparr>pr_id = replicate 32 CHR ''b'', pr_size = 5, pr_hash = replicate 64 CHR ''0'', pr_reservation = 5\<rparr>"

definition sample_plan :: acceptance where
  "sample_plan = \<lparr>ap_operation = replicate 32 CHR ''c'', ap_sender = Some (Address ''a@b.c''), ap_recipients = [Address ''A@b.c'']\<rparr>"

definition sample_identity :: submission_identity where
  "sample_identity = \<lparr>si_principal = sample_principal, si_author = Address ''a@b.c''\<rparr>"

definition sample_accept :: "(store_error + accepted_message) \<times> store" where
  "sample_accept = accept_inner quiet_world True sample_prepared sample_plan (Some sample_identity) None (store_of sample_mail_db)"

lemma sample_mail_inv: "mail_inv sample_mail_db" "db_ok sample_mail_db"
proof -
  show ok: "db_ok sample_mail_db"
    by (simp add: db_ok_def keys_ok_def refs_ok_def rows_ok_def sample_mail_db_def sample_identity_db_def empty_database_def
        keyed_by_def has_key_def account_ok_def mailbox_ok_def in_i64_def i64_min_def i64_max_def)
  show "mail_inv sample_mail_db"
    using ok by (simp add: mail_inv_def quota_mismatches_def uid_mismatches_def delivery_mismatches_def quota_kept_def
        stored_bytes_def max_of_def sample_mail_db_def sample_identity_db_def empty_database_def)
qed

definition sample_accepted :: accepted_message where
  "sample_accepted = \<lparr>am_id = ''0600'' @ replicate 28 CHR ''0'', am_already = False\<rparr>"

lemma sample_accept_Ok: "fst sample_accept = Ok sample_accepted"
  by code_simp

lemma sample_accept_run:
  "accept_inner quiet_world True sample_prepared sample_plan (Some sample_identity) None (store_of sample_mail_db)
     = (Ok sample_accepted, snd sample_accept)"
  using sample_accept_Ok unfolding sample_accept_def by (metis prod.collapse)

text \<open>Property C25. A fresh acceptance puts the message into exactly the mailboxes its recipients resolve to, once per
  recipient, under the next UIDs of each mailbox and after everything that was there, and
  keeps the integrity of the database: schema, quota, UID and delivery counts.\<close>

theorem accept_delivers:
  assumes "accept_inner w root pm plan who rl s = (Ok r, s')" "\<not> am_already r" "mail_inv (st_db s)"
  shows "(\<forall>k\<in>set (local_keys plan). box_of (st_db s) k \<noteq> None)
    \<and> (\<forall>box\<in>set (mailboxes (st_db s)). mailbox_view (st_db s') (mb_id box) = mailbox_view (st_db s) (mb_id box)
        @ map (\<lambda>j. (mb_uidnext box + int j, am_id r)) [0..<arrivals (st_db s) (local_keys plan) (mb_id box)])
    \<and> mail_inv (st_db s')"
proof -
  from assms(1) have t: "transact w accept_commit (accept_body w pm plan who rl) s = (Ok r, s')"
    by (auto simp: accept_inner_def tx_simps split: if_splits)
  obtain c s2 where b: "accept_body w pm plan who rl (tick s) = (Ok (r, c), s2)" "st_db s' = (if c then st_db s2 else st_db s)"
    using transact_OkD [OF t] by blast
  have inv: "mail_inv (st_db s')" using accept_inner_within(1) assms(1,3) unfolding within_def mail_le_def by blast
  from b(1) show ?thesis
  proof (cases rule: accept_body_Ok)
    case (old m b)
    with assms(2) show ?thesis by simp
  next
    case (new s1)
    with record_message_view [OF new(4)] mail_inv_ok [OF assms(3)] inv b(2) show ?thesis by simp
  qed
qed

theorem accept_delivers_witness:
  "mailbox_view (st_db (snd sample_accept)) 4 = [(1, am_id sample_accepted)]"
proof -
  let ?d = "st_db (store_of sample_mail_db)"
  have "mail_inv ?d" "\<not> am_already sample_accepted" using sample_mail_inv by (simp_all add: store_of_def sample_accepted_def)
  note v = accept_delivers [OF sample_accept_run this(2,1), THEN conjunct2, THEN conjunct1, rule_format]
  have k: "arrivals ?d (local_keys sample_plan) 4 = 1" by code_simp
  have e: "mailbox_view ?d 4 = []" by (simp add: store_of_def mailbox_view_def sample_mail_db_def sample_identity_db_def empty_database_def)
  let ?box = "\<lparr>mb_id = 4, mb_account = 1, mb_name = inbox_name, mb_uidvalidity = 9, mb_uidnext = 1, mb_event_seq = 0\<rparr> :: mailbox_row"
  have "?box \<in> set (mailboxes ?d)" by (simp add: store_of_def sample_mail_db_def)
  from v [OF this] k e show ?thesis by simp
qed

text \<open>A submission is accepted only if, in the database the acceptance is committed to, the
  principal is current with the mail scope and may send as the envelope sender and as the author of
  the header.\<close>

lemma submission_authorised:
  assumes "accept_inner w root pm plan (Some i) rl s = (Ok r, s')" "db_ok (st_db s)"
  shows "pn_scope (si_principal i) = ScopeMail \<and> current_db (si_principal i) (st_db s)
    \<and> (\<exists>a. ap_sender plan = Some a \<and> send_enabled_db (pn_account (si_principal i)) (local_key a) (st_db s))
    \<and> send_enabled_db (pn_account (si_principal i)) (local_key (si_author i)) (st_db s)"
  using assms by (cases rule: accept_inner_cases) (auto simp: permitted_def may_send_now_def split: option.splits)

text \<open>Property C27. An acceptance that reports an error leaves the database as it was, except for the unknown
  outcome, after which the message is either absent or completely recorded.\<close>

theorem accept_error_definite:
  assumes "accept_inner w root pm plan who rl s = (Err e, s')" "db_ok (st_db s)"
  shows "st_db s' = st_db s \<or> (e = OutcomeUnknown
    \<and> (\<exists>i. recorded pm plan (map_option (\<lambda>i. pn_account (si_principal i)) who) rl i (st_db s')))"
  using assms by (cases rule: accept_inner_cases) auto

theorem accept_error_definite_witness:
  "st_db (snd (accept_inner quiet_world False sample_prepared sample_plan None None (store_of sample_mail_db))) = sample_mail_db"
proof -
  have "accept_inner quiet_world False sample_prepared sample_plan None None (store_of sample_mail_db) = (Err InvalidInput, store_of sample_mail_db)"
    by (simp add: accept_inner_def accept_arguments_def throw_def)
  from accept_error_definite [OF this] sample_mail_inv this show ?thesis by (simp add: store_of_def)
qed

text \<open>Property C26. Retrying is safe: after a success, and after an unknown outcome that did take effect, the same
  request with the same operation identifier is recognised, answers with the identifier of the
  message already stored and changes nothing.\<close>

theorem accept_retry_recognised:
  assumes "accept_inner w root pm plan who rl s = (out, s')" "db_ok (st_db s)"
    and "out = Ok r \<or> (out = Err OutcomeUnknown \<and> st_db s' \<noteq> st_db s)"
    and "st_db s2 = st_db s'" "permitted (st_db s2) plan who" "\<forall>n. \<not> w_fails w2 n"
  shows "\<exists>i s3. accept_inner w2 root pm plan who rl s2 = (Ok \<lparr>am_id = i, am_already = True\<rparr>, s3)
    \<and> st_db s3 = st_db s2 \<and> (out = Ok r \<longrightarrow> am_id r = i)"
  using assms(1,2)
proof (cases rule: accept_inner_cases)
  case (refused e)
  with assms(3) show ?thesis by simp
next
  case (accepted r')
  with accept_recorded_again [of w2 root plan rl s2 who pm "am_id r'"] assms show ?thesis by auto
next
  case (unknown i)
  with accept_recorded_again [of w2 root plan rl s2 who pm i] assms show ?thesis by auto
qed

theorem accept_retry_recognised_witness:
  "\<exists>s3. accept_inner quiet_world True sample_prepared sample_plan (Some sample_identity) None (snd sample_accept)
     = (Ok \<lparr>am_id = am_id sample_accepted, am_already = True\<rparr>, s3)"
proof -
  have "permitted (st_db (snd sample_accept)) sample_plan (Some sample_identity)" by code_simp
  moreover have "\<forall>n. \<not> w_fails quiet_world n" by (simp add: quiet_world_def)
  ultimately show ?thesis
    using accept_retry_recognised [OF sample_accept_run _ disjI1 [OF refl] refl] sample_mail_inv by (auto simp: store_of_def)
qed

end
