(* ===== verification/Queue.thy ===== *)
theory Queue
  imports Acceptance
begin

text \<open>
  The durable relay queue, \<open>crates/store/src/queue.rs\<close>: the policy, the guarded clock, expiry,
  recovery and claiming of deliveries, leases and what their owners may do with them, and the
  administrator's operations. A \<open>QueueLease\<close> carries its guard; which guards are still owned is the list
  \<open>q_live\<close> of the store's runtime, from which the environment removes them (\<open>drop_guard\<close>). The
  hash that spreads the retries is a parameter.
\<close>

section \<open>Policy and clock\<close>

definition BATCH :: nat where
  "BATCH = 128"

record queue_policy =
  po_concurrency :: nat
  po_per_domain :: nat
  po_lease_seconds :: nat
  po_retry_seconds :: "nat list"
  po_jitter_percent :: nat

definition default_policy :: queue_policy where
  "default_policy = \<lparr>po_concurrency = 16, po_per_domain = 2, po_lease_seconds = 300,
     po_retry_seconds = [1800, 3600, 7200, 14400], po_jitter_percent = 20\<rparr>"

definition policy_validate :: "queue_policy \<Rightarrow> store_error + unit" where
  "policy_validate p =
     (if \<not> (1 \<le> po_concurrency p \<and> po_concurrency p \<le> BATCH)
        \<or> \<not> (1 \<le> po_per_domain p \<and> po_per_domain p \<le> po_concurrency p)
        \<or> \<not> (1 \<le> po_lease_seconds p \<and> po_lease_seconds p \<le> 3600)
        \<or> po_retry_seconds p = [] \<or> length (po_retry_seconds p) > 32
        \<or> list_ex (\<lambda>n. \<not> (1 \<le> n \<and> n \<le> 86400)) (po_retry_seconds p)
        \<or> po_jitter_percent p > 50
      then Err InvalidInput else Ok ())"

text \<open>\<open>hash\<close> is the number formed by the first eight bytes of the digest of the identifier and the attempt.\<close>

definition delay_ms :: "(string \<Rightarrow> nat \<Rightarrow> nat) \<Rightarrow> queue_policy \<Rightarrow> string \<Rightarrow> nat \<Rightarrow> int" where
  "delay_ms hash p i attempts =
     (let index = min (attempts - 1) (length (po_retry_seconds p) - 1);
          base = po_retry_seconds p ! index * 1000;
          spread = base * po_jitter_percent p div 100
      in int (base + hash i attempts mod (spread + 1)))"

definition clock_skewed :: "queue_runtime \<Rightarrow> int \<Rightarrow> nat \<Rightarrow> bool" where
  "clock_skewed q now m \<longleftrightarrow>
     (case q_clock q of
        None \<Rightarrow> False
      | Some (old_wall, old_mono) \<Rightarrow>
          (case q_last_wall q of None \<Rightarrow> False | Some old \<Rightarrow> now < old) \<or> m < old_mono
          \<or> \<bar>(now - old_wall) - (int m - int old_mono)\<bar> > 60000)"

text \<open>\<open>QueueRuntime::now\<close>: once the wall clock and the monotonic clock disagree, it fails for good.\<close>

definition runtime_now :: "int \<Rightarrow> nat \<Rightarrow> queue_runtime \<Rightarrow> (store_error + int) \<times> queue_runtime" where
  "runtime_now now m q =
     (let changed = q_clock_changed q \<or> clock_skewed q now m;
          q1 = q\<lparr>q_clock := (case q_clock q of None \<Rightarrow> Some (now, m) | Some c \<Rightarrow> Some c), q_clock_changed := changed\<rparr>
      in if changed then (Err ClockChanged, q1) else (Ok now, q1\<lparr>q_last_wall := Some now\<rparr>))"

definition queue_now :: "world \<Rightarrow> int action" where
  "queue_now w = andthen (read_clock w) (\<lambda>now s.
     let (r, q) = runtime_now now (w_mono w (st_step s)) (st_queue s) in (r, (tick s)\<lparr>st_queue := q\<rparr>))"

definition modify_queue :: "(queue_runtime \<Rightarrow> queue_runtime) \<Rightarrow> unit action" where
  "modify_queue f s = (Ok (), s\<lparr>st_queue := f (st_queue s)\<rparr>)"

definition get_queue :: "queue_runtime action" where
  "get_queue s = (Ok (st_queue s), s)"

definition is_alive :: "queue_runtime \<Rightarrow> lease_guard \<Rightarrow> bool" where
  "is_alive q g \<longleftrightarrow> gd_number g \<in> set (q_live q)"

definition any_active :: "queue_runtime \<Rightarrow> bool" where
  "any_active q \<longleftrightarrow> list_ex (\<lambda>(i, g). is_alive q g) (q_active q)"

text \<open>The last owner of a guard goes away.\<close>

definition drop_guard :: "nat \<Rightarrow> unit action" where
  "drop_guard n = modify_queue (\<lambda>q. q\<lparr>q_live := removeAll n (q_live q)\<rparr>)"

section \<open>Looking at the queue\<close>

record queue_summary =
  qs_id :: string
  qs_message :: string
  qs_recipient :: string
  qs_domain :: string
  qs_state :: delivery_state
  qs_attempts :: nat
  qs_generation :: nat
  qs_next :: int
  qs_expires :: int
  qs_lease_until :: "int option"
  qs_code :: "nat option"
  qs_diagnostic :: "string option"
  qs_reason :: "lifecycle_reason option"
  qs_possibly :: bool
  qs_closed :: "int option"
  qs_note :: notification_state
  qs_note_error :: "string option"
  qs_note_due :: int
  qs_report :: "string option"

definition summary :: "delivery_row \<times> string option \<Rightarrow> store_error + queue_summary" where
  "summary x = (case x of (r, report) \<Rightarrow>
     rbind (unsigned_column (de_attempts r)) (\<lambda>attempts.
     rbind (unsigned_column (de_generation r)) (\<lambda>generation.
     Ok \<lparr>qs_id = de_id r, qs_message = de_message r, qs_recipient = de_recipient r, qs_domain = de_domain r,
         qs_state = de_state r, qs_attempts = attempts, qs_generation = generation, qs_next = de_next r,
         qs_expires = de_expires r, qs_lease_until = de_until r, qs_code = de_code r,
         qs_diagnostic = de_diagnostic r, qs_reason = de_reason r, qs_possibly = de_possibly r,
         qs_closed = de_closed r, qs_note = de_note r, qs_note_error = de_note_error r,
         qs_note_due = de_note_due r, qs_report = report\<rparr>)))"

definition report_of :: "string \<Rightarrow> database \<Rightarrow> string option" where
  "report_of i d = map_option no_report (first_row (\<lambda>n. no_delivery n = i) (notifications d))"

definition with_report :: "database \<Rightarrow> delivery_row \<Rightarrow> delivery_row \<times> string option" where
  "with_report d r = (r, report_of (de_id r) d)"

definition queue_list :: "world \<Rightarrow> string \<Rightarrow> nat \<Rightarrow> queue_summary list action" where
  "queue_list w after_id lim =
     (if (after_id \<noteq> [] \<and> \<not> valid_id after_id) \<or> \<not> (1 \<le> lim \<and> lim \<le> BATCH) then throw InvalidInput
      else andthen (query w (\<lambda>d. map (with_report d) (take lim (sort_key de_id
             (filter (\<lambda>r. de_route r = RouteRelay \<and> after_id < de_id r) (deliveries d)))))) (\<lambda>rows.
           lift_res (collect_results (map summary rows))))"

definition queue_show :: "world \<Rightarrow> string \<Rightarrow> queue_summary action" where
  "queue_show w i =
     (if \<not> valid_id i then throw InvalidId
      else andthen (query w (\<lambda>d. map_option (with_report d) (first_row (\<lambda>r. de_id r = i) (deliveries d)))) (\<lambda>row.
           case row of None \<Rightarrow> throw NotFound | Some x \<Rightarrow> lift_res (summary x)))"

definition queue_report_deliveries :: "world \<Rightarrow> string \<Rightarrow> queue_summary list action" where
  "queue_report_deliveries w i =
     (if \<not> valid_id i then throw InvalidId
      else andthen (query w (\<lambda>d. map (with_report d) (take 128 (sort_key de_recipient
             (filter (\<lambda>r. report_of i d = Some (de_message r)) (deliveries d)))))) (\<lambda>rows.
           lift_res (collect_results (map summary rows))))"

definition queue_history :: "world \<Rightarrow> string \<Rightarrow> int \<Rightarrow> nat \<Rightarrow> admin_event_row list action" where
  "queue_history w i after_id lim =
     (if \<not> valid_id i \<or> after_id < 0 \<or> \<not> (1 \<le> lim \<and> lim \<le> BATCH) then throw InvalidInput
      else query w (\<lambda>d. take lim (sort_key qa_id (filter (\<lambda>q. qa_delivery q = i \<and> qa_id q > after_id) (admin_events d)))))"

section \<open>Expiry and recovery\<close>

definition waiting :: "delivery_row \<Rightarrow> bool" where
  "waiting r \<longleftrightarrow> de_route r = RouteRelay \<and> (de_state r = StPending \<or> de_state r = StDeferred)"

definition expired_ids :: "int \<Rightarrow> nat \<Rightarrow> database \<Rightarrow> string list" where
  "expired_ids now lim d =
     map de_id (take lim (sort_key (\<lambda>r. (de_expires r, de_id r)) (filter (\<lambda>r. waiting r \<and> de_expires r \<le> now) (deliveries d))))"

definition expire_row :: "int \<Rightarrow> delivery_row \<Rightarrow> delivery_row" where
  "expire_row now r = r\<lparr>
     de_state := (if de_possibly r then StUncertain else StFailed), de_reason := Some Expired,
     de_diagnostic := Some (if de_possibly r then ''expired retry; earlier outcome remains unknown''
                            else ''delivery lifetime exceeded''),
     de_note_due := now\<rparr>"

definition queue_expire :: "world \<Rightarrow> nat \<Rightarrow> nat action" where
  "queue_expire w lim =
     (if \<not> (1 \<le> lim \<and> lim \<le> BATCH) then throw InvalidInput
      else andthen (queue_now w) (\<lambda>now.
        transact w queue_commit
          (andthen (query w (expired_ids now lim)) (\<lambda>ids.
           andthen (for_each (\<lambda>i. exec w (update_deliveries (\<lambda>r. de_id r = i) (expire_row now))) ids) (\<lambda>_.
           return (length ids, ids \<noteq> []))))))"

definition retain_live :: "queue_runtime \<Rightarrow> queue_runtime" where
  "retain_live q = q\<lparr>q_active := filter (\<lambda>(i, g). is_alive q g) (q_active q)\<rparr>"

definition recoverable :: "string \<Rightarrow> nat \<Rightarrow> database \<Rightarrow> (string \<times> bool) list" where
  "recoverable cursor lim d = take lim (sort_key fst
     [(de_id r, ql_phase l = PhaseBody \<or> de_possibly r). r \<leftarrow> deliveries d, l \<leftarrow> queue_leases d,
        ql_delivery l = de_id r \<and> de_route r = RouteRelay \<and> de_state r = StLeased \<and> cursor < de_id r])"

definition recover_row :: "bool \<Rightarrow> int \<Rightarrow> delivery_row \<Rightarrow> delivery_row" where
  "recover_row unknown due r = r\<lparr>de_state := (if unknown then StUncertain else StDeferred), de_token := None,
     de_until := None, de_next := due, de_code := None, de_diagnostic := Some ''attempt owner disappeared'',
     de_possibly := unknown\<rparr>"

fun recover_loop :: "world \<Rightarrow> int \<Rightarrow> string list \<Rightarrow> (string \<times> bool) list \<Rightarrow> nat \<Rightarrow> nat action" where
  "recover_loop w now active [] n = return n"
| "recover_loop w now active ((i, unknown) # rows) n =
     (if i \<in> set active then recover_loop w now active rows n
      else andthen (lift_res (later now 1800000)) (\<lambda>due.
           andthen (exec w (update_deliveries (\<lambda>r. de_id r = i) (recover_row unknown due))) (\<lambda>_.
           andthen (exec w (delete_lease i)) (\<lambda>_.
           recover_loop w now active rows (n + 1)))))"

text \<open>A scan that recovered nothing ends with a rollback, a statement like any other.\<close>

definition end_scan :: "world \<Rightarrow> nat \<Rightarrow> unit action" where
  "end_scan w n = (if n > 0 then return () else query w (\<lambda>_. ()))"

definition queue_recover :: "world \<Rightarrow> nat \<Rightarrow> nat action" where
  "queue_recover w lim =
     (if \<not> (1 \<le> lim \<and> lim \<le> BATCH) then throw InvalidInput
      else andthen (modify_queue retain_live) (\<lambda>_.
        andthen (read_clock w) (\<lambda>now.
        andthen get_queue (\<lambda>q.
        andthen (transact w queue_commit
          (andthen (query w (recoverable (q_recovery_cursor q) lim)) (\<lambda>rows.
           andthen (recover_loop w now (map fst (q_active q)) rows 0) (\<lambda>n.
           andthen (end_scan w n) (\<lambda>_. return ((n, rows), n > 0)))))) (\<lambda>(n, rows).
        andthen (modify_queue (\<lambda>q. q\<lparr>q_recovery_cursor :=
          (if length rows = lim then fst (last rows) else [])\<rparr>)) (\<lambda>_.
        return n))))))"

section \<open>Leases\<close>

record queue_lease =
  ls_id :: string
  ls_token :: string
  ls_generation :: int
  ls_guard :: lease_guard
  ls_retry_ms :: int
  ls_message :: string
  ls_recipient :: address
  ls_sender :: "address option"
  ls_body :: queue_body
  ls_blob :: string
  ls_stored_size :: nat
  ls_submission :: bool

definition omitted_prefix :: "queue_lease \<Rightarrow> string" where
  "omitted_prefix l = (if ls_submission l then ''Return-Path: <'' @ sender_text (ls_sender l) @ ''>'' @ CRLF else [])"

definition lease_row_db :: "queue_lease \<Rightarrow> database \<Rightarrow> lease_phase option" where
  "lease_row_db l d = first_of
     [ql_phase q. r \<leftarrow> deliveries d, q \<leftarrow> queue_leases d,
        ql_delivery q = de_id r \<and> de_id r = ls_id l \<and> de_route r = RouteRelay \<and> de_state r = StLeased
        \<and> de_token r = Some (ls_token l) \<and> de_generation r = ls_generation l]"

definition check_lease :: "world \<Rightarrow> queue_lease \<Rightarrow> lease_phase action" where
  "check_lease w l s =
     (if gd_instance (ls_guard l) \<noteq> st_instance s then (Err StaleLease, s)
      else andthen (query w (lease_row_db l)) (\<lambda>p. lift_res (ok_or p StaleLease)) s)"

definition message_facts :: "string \<Rightarrow> database \<Rightarrow> (message_row \<times> queue_body \<times> blob_row) option" where
  "message_facts i d = first_of
     [(m, qm_body q, b). m \<leftarrow> messages d, q \<leftarrow> queue_messages d, b \<leftarrow> blob_rows d,
        qm_message q = ms_id m \<and> bl_id b = ms_blob m \<and> ms_id m = i]"

definition parse_stored :: "string \<Rightarrow> store_error + address" where
  "parse_stored t = (case parse t of Err _ \<Rightarrow> Err Integrity | Ok a \<Rightarrow> Ok a)"

definition parse_sender :: "string \<Rightarrow> store_error + address option" where
  "parse_sender t = (if t = [] then Ok None else rbind (parse_stored t) (\<lambda>a. Ok (Some a)))"

definition candidates_db :: "int \<Rightarrow> int \<times> string \<Rightarrow> database \<Rightarrow> delivery_row list" where
  "candidates_db now cursor d = take 128 (sort_key (\<lambda>r. (de_next r, de_id r))
     (filter (\<lambda>r. waiting r \<and> de_next r \<le> now \<and> cursor < (de_next r, de_id r)) (deliveries d)))"

definition lease_row :: "string \<Rightarrow> int \<Rightarrow> delivery_row \<Rightarrow> delivery_row" where
  "lease_row token til r = r\<lparr>de_state := StLeased, de_attempts := de_attempts r + 1,
     de_generation := de_generation r + 1, de_token := Some token, de_until := Some til\<rparr>"

definition exhaust_row :: "delivery_row \<Rightarrow> delivery_row" where
  "exhaust_row r = r\<lparr>de_state := StHold, de_reason := Some Counter, de_diagnostic := Some ''attempt counter exhausted''\<rparr>"

definition domain_count :: "string \<Rightarrow> string list \<Rightarrow> nat" where
  "domain_count dm ds = length (filter (\<lambda>x. x = dm) ds)"

definition new_guard :: "string \<Rightarrow> lease_guard action" where
  "new_guard dm s = (Ok \<lparr>gd_number = st_step s, gd_instance = st_instance s, gd_domain = dm\<rparr>, tick s)"

text \<open>Leasing one candidate, the part of the loop body after its guards.\<close>

definition take_lease :: "world \<Rightarrow> (string \<Rightarrow> nat \<Rightarrow> nat) \<Rightarrow> queue_policy \<Rightarrow> int \<Rightarrow> delivery_row \<Rightarrow> address \<Rightarrow> queue_lease action" where
  "take_lease w hash p now c rcpt =
     andthen (query w (message_facts (de_message c))) (\<lambda>facts.
     andthen (lift_res (ok_or facts Database)) (\<lambda>(m, body, b).
     andthen (lift_res (unsigned_column (bl_size b))) (\<lambda>stored.
     andthen (lift_res (parse_sender (ms_reverse_path m))) (\<lambda>sender.
     andthen (new_uuid w) (\<lambda>token.
     andthen (lift_res (later now (int (po_lease_seconds p) * 1000))) (\<lambda>til.
     andthen (exec w (update_deliveries (\<lambda>r. de_id r = de_id c) (lease_row token til))) (\<lambda>_.
     andthen (exec w (insert_queue_lease \<lparr>ql_delivery = de_id c, ql_phase = PhaseReady\<rparr>)) (\<lambda>_.
     andthen (new_guard (domain rcpt)) (\<lambda>g.
     return \<lparr>ls_id = de_id c, ls_token = token, ls_generation = de_generation c + 1, ls_guard = g,
       ls_retry_ms = delay_ms hash p (de_id c) (nat (de_attempts c + 1)), ls_message = de_message c, ls_recipient = rcpt,
       ls_sender = sender, ls_body = body, ls_blob = ms_blob m, ls_stored_size = stored,
       ls_submission = (ms_source m = SourceSubmission)\<rparr>)))))))))"

text \<open>The loop over the candidates: the leases taken so far and the position of the last candidate looked
  at are carried along; it stops early when enough leases are taken.\<close>

fun claim_loop :: "world \<Rightarrow> (string \<Rightarrow> nat \<Rightarrow> nat) \<Rightarrow> queue_policy \<Rightarrow> int \<Rightarrow> string list \<Rightarrow> nat \<Rightarrow> string list \<Rightarrow>
    queue_lease list \<Rightarrow> (int \<times> string) option \<Rightarrow> delivery_row list \<Rightarrow> (queue_lease list \<times> (int \<times> string) option) action" where
  "claim_loop w hash p now active avail domains leases lst [] = return (leases, lst)"
| "claim_loop w hash p now active avail domains leases lst (c # cs) =
     (let here = Some (de_next c, de_id c) in
      if de_id c \<in> set active then claim_loop w hash p now active avail domains leases here cs
      else if de_expires c \<le> now then claim_loop w hash p now active avail domains leases here cs
      else if de_attempts c = i64_max \<or> de_generation c = i64_max then
        andthen (exec w (update_deliveries (\<lambda>r. de_id r = de_id c) exhaust_row)) (\<lambda>_.
          claim_loop w hash p now active avail domains leases here cs)
      else andthen (lift_res (parse_stored (de_recipient c))) (\<lambda>rcpt.
        if domain_count (domain rcpt) domains \<ge> po_per_domain p
        then claim_loop w hash p now active avail domains leases here cs
        else andthen (take_lease w hash p now c rcpt) (\<lambda>l.
          if length (leases @ [l]) = avail then return (leases @ [l], here)
          else claim_loop w hash p now active avail (domain rcpt # domains) (leases @ [l]) here cs)))"

definition active_domains :: "queue_runtime \<Rightarrow> string list" where
  "active_domains q = map (gd_domain \<circ> snd) (filter (\<lambda>(i, g). is_alive q g) (q_active q))"

text \<open>\<open>BTreeMap::insert\<close> of every lease's weak guard.\<close>

definition activate :: "queue_lease list \<Rightarrow> queue_runtime \<Rightarrow> queue_runtime" where
  "activate leases q = q\<lparr>
     q_active := filter (\<lambda>(i, g). i \<notin> ls_id ` set leases) (q_active q) @ map (\<lambda>l. (ls_id l, ls_guard l)) leases,
     q_live := map (gd_number \<circ> ls_guard) leases @ q_live q\<rparr>"

definition position_of :: "delivery_row list \<Rightarrow> (int \<times> string) option" where
  "position_of cs = (if cs = [] then None else Some (de_next (last cs), de_id (last cs)))"

definition queue_claim :: "world \<Rightarrow> (string \<Rightarrow> nat \<Rightarrow> nat) \<Rightarrow> queue_policy \<Rightarrow> nat \<Rightarrow> queue_lease list action" where
  "queue_claim w hash p lim =
     andthen (lift_res (policy_validate p)) (\<lambda>_.
     if \<not> (1 \<le> lim \<and> lim \<le> BATCH) then throw InvalidInput
     else andthen (queue_now w) (\<lambda>now.
     andthen (queue_recover w BATCH) (\<lambda>_.
     andthen (queue_expire w BATCH) (\<lambda>_.
     andthen get_queue (\<lambda>q.
     let avail = min (po_concurrency p - length (q_active q)) lim in
     if avail = 0 then return []
     else andthen (transact w queue_commit
       (andthen (query w (candidates_db now (case q_ready_cursor q of None \<Rightarrow> (-1, []) | Some c \<Rightarrow> c))) (\<lambda>cands.
        andthen (claim_loop w hash p now (map fst (q_active q)) avail (active_domains q) [] None cands) (\<lambda>(leases, lst).
        return ((cands, leases, lst), True))))) (\<lambda>(cands, leases, lst).
     andthen (modify_queue (\<lambda>q. activate leases (q\<lparr>q_ready_cursor :=
       (if length cands < BATCH \<and> lst = position_of cands then None else lst)\<rparr>))) (\<lambda>_.
     return leases)))))))"

section \<open>What the owner of a lease does\<close>

definition renew_row :: "int \<Rightarrow> delivery_row \<Rightarrow> delivery_row" where
  "renew_row til r = r\<lparr>de_until := map_option (\<lambda>old. max old til) (de_until r)\<rparr>"

definition queue_renew :: "world \<Rightarrow> queue_lease \<Rightarrow> nat \<Rightarrow> unit action" where
  "queue_renew w l seconds =
     (if \<not> (1 \<le> seconds \<and> seconds \<le> 3600) then throw InvalidInput
      else andthen (queue_now w) (\<lambda>now.
        transact w queue_commit
          (andthen (check_lease w l) (\<lambda>_.
           andthen (lift_res (later now (int seconds * 1000))) (\<lambda>til.
           andthen (exec w (update_deliveries (\<lambda>r. de_id r = ls_id l) (renew_row til))) (\<lambda>_.
           return ((), True)))))))"

definition queue_mark_body :: "world \<Rightarrow> queue_lease \<Rightarrow> unit action" where
  "queue_mark_body w l =
     transact w queue_commit
       (andthen (check_lease w l) (\<lambda>_.
        andthen (exec w (update_leases (\<lambda>q. ql_delivery q = ls_id l) (\<lambda>q. q\<lparr>ql_phase := PhaseBody\<rparr>))) (\<lambda>_.
        return ((), True))))"

text \<open>The file a lease's body is read from is what the second argument finds at its path.\<close>

definition queue_open_body :: "world \<Rightarrow> (string \<Rightarrow> path_entry) \<Rightarrow> queue_lease \<Rightarrow> verified_reader action" where
  "queue_open_body w files l =
     andthen (check_lease w l) (\<lambda>_.
     andthen (lift_res (blob_path (ls_blob l))) (\<lambda>path.
     andthen (query w (\<lambda>d. first_row (\<lambda>b. bl_id b = ls_blob l) (blob_rows d))) (\<lambda>row.
     andthen (lift_res (ok_or row Database)) (\<lambda>b.
     andthen (lift_res (unsigned_column (bl_size b))) (\<lambda>n.
     lift_res (open_verified (files path) n (bl_sha256 b)))))))"

datatype queue_result =
    ResDelivered nat | ResTemporary nat | ResPermanent nat | ResConnectionLost | ResHold | ResDeferred

definition result_reason :: "queue_result \<Rightarrow> lifecycle_reason option" where
  "result_reason r = (case r of ResPermanent _ \<Rightarrow> Some SmtpPermanent | ResHold \<Rightarrow> Some ContentReason | _ \<Rightarrow> None)"

definition classify :: "queue_result \<Rightarrow> lease_phase \<Rightarrow> store_error + delivery_state \<times> nat option \<times> string" where
  "classify r phase =
     (case r of
        ResDelivered c \<Rightarrow> if 200 \<le> c \<and> c < 300 \<and> phase = PhaseBody then Ok (StDelivered, Some c, ''remote accepted'') else Err InvalidInput
      | ResTemporary c \<Rightarrow> if 400 \<le> c \<and> c < 500 then Ok (StDeferred, Some c, ''temporary SMTP rejection'') else Err InvalidInput
      | ResPermanent c \<Rightarrow> if 500 \<le> c \<and> c < 600 then Ok (StFailed, Some c, ''permanent SMTP rejection'') else Err InvalidInput
      | ResConnectionLost \<Rightarrow> if phase = PhaseBody then Ok (StUncertain, None, ''connection lost after body boundary'')
                             else Ok (StDeferred, None, ''connection lost before body boundary'')
      | ResHold \<Rightarrow> Ok (StHold, None, ''local outbound content or capability failure'')
      | ResDeferred \<Rightarrow> if phase = PhaseReady then Ok (StDeferred, None, ''relay setup or authentication unavailable'') else Err InvalidInput)"

definition finish_row :: "delivery_state \<Rightarrow> nat option \<Rightarrow> string \<Rightarrow> int \<Rightarrow> lifecycle_reason option \<Rightarrow> int \<Rightarrow> delivery_row \<Rightarrow> delivery_row" where
  "finish_row st cd diag nxt reason due r = r\<lparr>de_state := st, de_token := None, de_until := None, de_code := cd,
     de_diagnostic := Some diag, de_next := nxt, de_reason := reason, de_possibly := (st = StUncertain), de_note_due := due\<rparr>"

text \<open>A clock that has been found wrong does not keep a known result from being recorded.\<close>

definition notification_due :: "world \<Rightarrow> int \<Rightarrow> int action" where
  "notification_due w now s =
     (let (r, s1) = queue_now w s in
      if r = Err ClockChanged then (Ok (case q_last_wall (st_queue s1) of None \<Rightarrow> now | Some t \<Rightarrow> t), s1) else (r, s1))"

definition queue_finish :: "world \<Rightarrow> queue_lease \<Rightarrow> queue_result \<Rightarrow> unit action" where
  "queue_finish w l outcome =
     andthen (read_clock w) (\<lambda>now.
     andthen (notification_due w now) (\<lambda>due.
     transact w queue_commit
       (andthen (check_lease w l) (\<lambda>phase.
        andthen (query w (\<lambda>d. map_option de_possibly (first_row (\<lambda>r. de_id r = ls_id l) (deliveries d)))) (\<lambda>row.
        andthen (lift_res (ok_or row Database)) (\<lambda>was_unknown.
        andthen (lift_res (classify outcome phase)) (\<lambda>(st, cd, diag).
        let (st', diag') = (if was_unknown \<and> st \<noteq> StDelivered
              then (StUncertain, ''retry ended; earlier outcome remains unknown'') else (st, diag)) in
        andthen (exec w (update_deliveries (\<lambda>r. de_id r = ls_id l)
          (finish_row st' cd diag' (saturating_add_i64 now (ls_retry_ms l)) (result_reason outcome) due))) (\<lambda>_.
        andthen (exec w (delete_lease (ls_id l))) (\<lambda>_.
        return ((), True))))))))))"

section \<open>What the administrator does\<close>

definition relay_state :: "string \<Rightarrow> database \<Rightarrow> delivery_state option" where
  "relay_state i d = map_option de_state (first_row (\<lambda>r. de_id r = i \<and> de_route r = RouteRelay) (deliveries d))"

definition update_counted :: "(delivery_row \<Rightarrow> bool) \<Rightarrow> (delivery_row \<Rightarrow> delivery_row) \<Rightarrow> database \<Rightarrow> store_error + nat \<times> database" where
  "update_counted p f d = map_sum id (\<lambda>d'. (length (filter p (deliveries d)), d')) (update_deliveries p f d)"

definition hold_allowed :: "string \<Rightarrow> delivery_row \<Rightarrow> bool" where
  "hold_allowed i r \<longleftrightarrow> de_id r = i \<and> de_route r = RouteRelay \<and> de_closed r = None
     \<and> de_state r \<in> {StPending, StDeferred, StUncertain, StHold}"

definition hold_row :: "delivery_row \<Rightarrow> delivery_row" where
  "hold_row r = r\<lparr>de_state := StHold, de_reason := Some Manual, de_possibly := (de_possibly r \<or> de_state r = StUncertain),
     de_diagnostic := Some ''held by administrator''\<rparr>"

definition queue_hold :: "world \<Rightarrow> string \<Rightarrow> unit action" where
  "queue_hold w i =
     (if \<not> valid_id i then throw InvalidId
      else andthen (read_clock w) (\<lambda>now.
        transact w queue_commit
          (andthen (query w (relay_state i)) (\<lambda>row.
           andthen (lift_res (ok_or row NotFound)) (\<lambda>old.
           andthen (exec_ret w (update_counted (hold_allowed i) hold_row)) (\<lambda>n.
           andthen (ensure (n = 1) InvalidInput) (\<lambda>_.
           andthen (exec w (insert_admin_event i ActionHold old StHold ''operator requested hold'' False False now)) (\<lambda>_.
           return ((), True)))))))))"

definition retry_facts :: "string \<Rightarrow> database \<Rightarrow> (delivery_row \<times> int) option" where
  "retry_facts i d = first_of [(r, qm_age q). r \<leftarrow> deliveries d, q \<leftarrow> queue_messages d,
     qm_message q = de_message r \<and> de_id r = i \<and> de_route r = RouteRelay]"

definition retry_row :: "int \<Rightarrow> int \<Rightarrow> delivery_row \<Rightarrow> delivery_row" where
  "retry_row now expires r = r\<lparr>de_state := StPending, de_next := now, de_expires := expires, de_reason := None,
     de_diagnostic := Some ''explicit administrator retry''\<rparr>"

definition queue_retry :: "world \<Rightarrow> string \<Rightarrow> bool \<Rightarrow> bool \<Rightarrow> unit action" where
  "queue_retry w i allow_duplicate extend_expired =
     (if \<not> valid_id i then throw InvalidId
      else andthen (queue_now w) (\<lambda>now.
        transact w queue_commit
          (andthen (query w (retry_facts i)) (\<lambda>row.
           andthen (lift_res (ok_or row NotFound)) (\<lambda>(r, age).
           andthen (ensure (\<not> (de_state r \<notin> {StDeferred, StUncertain, StHold} \<or> de_closed r \<noteq> None
               \<or> ((de_state r = StUncertain \<or> de_state r = StHold) \<and> \<not> allow_duplicate)
               \<or> (de_expires r \<le> now \<and> \<not> extend_expired))) InvalidInput) (\<lambda>_.
           andthen (if de_expires r \<le> now then lift_res (later now (age * 1000)) else return (de_expires r)) (\<lambda>expires.
           andthen (exec w (update_deliveries (\<lambda>x. de_id x = i) (retry_row now expires))) (\<lambda>_.
           andthen (exec w (insert_admin_event i ActionRetry (de_state r) StPending ''operator requested retry''
             allow_duplicate extend_expired now)) (\<lambda>_.
           return ((), True))))))))))"

definition close_allowed :: "string \<Rightarrow> delivery_row \<Rightarrow> bool" where
  "close_allowed i r \<longleftrightarrow> de_id r = i \<and> de_route r = RouteRelay \<and> (de_state r = StUncertain \<or> de_state r = StHold)
     \<and> de_possibly r \<and> de_closed r = None"

definition close_row :: "int \<Rightarrow> delivery_row \<Rightarrow> delivery_row" where
  "close_row now r = r\<lparr>de_state := StUncertain, de_closed := Some now,
     de_diagnostic := Some ''unknown outcome closed by administrator''\<rparr>"

definition queue_close_unknown :: "world \<Rightarrow> string \<Rightarrow> string \<Rightarrow> unit action" where
  "queue_close_unknown w i note =
     (if \<not> valid_id i \<or> note = [] \<or> length note > 512 \<or> \<not> list_all (\<lambda>b. 32 \<le> code b \<and> code b \<le> 126) note
      then throw InvalidInput
      else andthen (read_clock w) (\<lambda>now.
        transact w queue_commit
          (andthen (query w (relay_state i)) (\<lambda>row.
           andthen (lift_res (ok_or row NotFound)) (\<lambda>old.
           andthen (exec_ret w (update_counted (close_allowed i) (close_row now))) (\<lambda>n.
           andthen (ensure (n = 1) InvalidInput) (\<lambda>_.
           andthen (exec w (insert_admin_event i ActionCloseUnknown old StUncertain note False False now)) (\<lambda>_.
           return ((), True)))))))))"

section \<open>Integrity\<close>

definition delivery_wrong :: "database \<Rightarrow> delivery_row \<Rightarrow> bool" where
  "delivery_wrong d r \<longleftrightarrow>
     (let leased = has_key ql_delivery (de_id r) (queue_leases d) in
      (de_route r = RouteRelay \<and>
        (\<not> has_key qm_message (de_message r) (queue_messages d)
         \<or> (de_state r = StLeased) \<noteq> leased
         \<or> (de_state r = StLeased) \<noteq> (de_token r \<noteq> None)
         \<or> (case de_token r of None \<Rightarrow> False | Some t \<Rightarrow> length t \<noteq> 32)))
      \<or> (de_route r \<noteq> RouteRelay \<and> leased))"

definition lifecycle_wrong :: "database \<Rightarrow> delivery_row \<Rightarrow> bool" where
  "lifecycle_wrong d r \<longleftrightarrow>
     ((de_note r = NoteCreated) \<noteq> has_key no_delivery (de_id r) (notifications d))
   \<or> (de_closed r \<noteq> None \<and> (de_state r \<noteq> StUncertain \<or> \<not> de_possibly r))
   \<or> (de_state r = StFailed \<and> de_possibly r)"

definition queue_integrity_mismatches :: "database \<Rightarrow> nat" where
  "queue_integrity_mismatches d =
     length (filter (delivery_wrong d) (deliveries d))
   + length (filter (\<lambda>q. \<not> list_ex (\<lambda>r. de_message r = qm_message q \<and> de_route r = RouteRelay) (deliveries d)) (queue_messages d))
   + length (filter (lifecycle_wrong d) (deliveries d))"

end
