(* ===== verification/Queue_Invariant.thy ===== *)
theory Queue_Invariant
  imports Queue
begin

text \<open>
  The invariant \<open>store_inv\<close> that the integrity check of the store looks for, the order \<open>delivery_le\<close> in
  which a delivery may change, and the proof that every operation of the queue, of acceptance and
  of the identities keeps both, however its statements and its commit end.
\<close>

section \<open>The invariant of the store\<close>

definition store_inv :: "database \<Rightarrow> bool" where
  "store_inv d \<longleftrightarrow> mail_inv d \<and> queue_integrity_mismatches d = 0"

lemma queue_integrity_0:
  "queue_integrity_mismatches d = 0 \<longleftrightarrow> (\<forall>r\<in>set (deliveries d). \<not> delivery_wrong d r \<and> \<not> lifecycle_wrong d r)
     \<and> (\<forall>q\<in>set (queue_messages d). \<exists>r\<in>set (deliveries d). de_message r = qm_message q \<and> de_route r = RouteRelay)"
  by (auto simp: queue_integrity_mismatches_def filter_empty_conv list_ex_iff)

lemma store_inv_ok: "store_inv d \<Longrightarrow> db_ok d"
  by (simp add: store_inv_def mail_inv_def)

text \<open>How a delivery may change: its identity stays, its counters grow, delivered and failed are final, so is a
  closure, an unknown outcome stays unknown until the peer accepts, and within one generation a lease token is
  never replaced or restored.\<close>

definition delivery_le :: "delivery_row \<Rightarrow> delivery_row \<Rightarrow> bool" where
  "delivery_le r r' \<longleftrightarrow> de_id r' = de_id r \<and> de_message r' = de_message r \<and> de_recipient r' = de_recipient r
     \<and> de_route r' = de_route r \<and> de_domain r' = de_domain r
     \<and> de_attempts r \<le> de_attempts r' \<and> de_generation r \<le> de_generation r'
     \<and> (de_state r = StDelivered \<or> de_state r = StFailed \<longrightarrow> de_state r' = de_state r)
     \<and> (de_closed r \<noteq> None \<longrightarrow> de_closed r' = de_closed r)
     \<and> (de_possibly r \<longrightarrow> de_possibly r' \<or> de_state r' = StDelivered)
     \<and> (de_generation r' = de_generation r \<and> de_token r' \<noteq> None \<longrightarrow> de_token r' = de_token r)"

lemma delivery_le_refl [simp]: "delivery_le r r"
  by (simp add: delivery_le_def)

lemma delivery_le_trans: "delivery_le x y \<Longrightarrow> delivery_le y z \<Longrightarrow> delivery_le x z"
  unfolding delivery_le_def by auto

text \<open>A delivery whose outcome is unknown or that is held leaves this condition only by a retry that the
  administrator asked for in spite of a possible duplicate, and that is on record.\<close>

definition set_aside :: "delivery_row \<Rightarrow> bool" where
  "set_aside r \<longleftrightarrow> de_state r = StUncertain \<or> de_state r = StHold"

definition approvals :: "string \<Rightarrow> database \<Rightarrow> nat" where
  "approvals i d = length (filter (\<lambda>e. qa_delivery e = i \<and> qa_action e = ActionRetry \<and> qa_duplicate e) (admin_events d))"

lemma approvals_simps [simp]:
  "approvals i (d\<lparr>deliveries := t\<rparr>) = approvals i d" "approvals i (d\<lparr>queue_leases := ls\<rparr>) = approvals i d"
  "approvals i (d\<lparr>notifications := ns\<rparr>) = approvals i d"
  by (simp_all add: approvals_def)

definition audit_le :: "database \<Rightarrow> database \<Rightarrow> bool" where
  "audit_le d d' \<longleftrightarrow> (\<forall>i. approvals i d \<le> approvals i d') \<and> (\<forall>r\<in>set (deliveries d). set_aside r \<longrightarrow>
     (\<forall>r'\<in>set (deliveries d'). de_id r' = de_id r \<longrightarrow> set_aside r' \<or> approvals (de_id r) d < approvals (de_id r) d'))"

definition queue_le :: "database \<Rightarrow> database \<Rightarrow> bool" where
  "queue_le d d' \<longleftrightarrow> (store_inv d \<longrightarrow> store_inv d' \<and> rows_le delivery_le (deliveries d) (deliveries d') \<and> audit_le d d')"

lemma store_inv_keyed: "store_inv d \<Longrightarrow> keyed_by de_id (deliveries d)"
  using store_inv_ok by (simp add: db_ok_def keys_ok_def)

lemma audit_le_refl: "store_inv d \<Longrightarrow> audit_le d d"
  unfolding audit_le_def using de.keyed_same [OF store_inv_keyed] by blast

lemma audit_le_trans:
  assumes "audit_le a b" "audit_le b c" "rows_le delivery_le (deliveries a) (deliveries b)"
  shows "audit_le a c"
  unfolding audit_le_def
proof (intro conjI allI ballI impI)
  have mono: "approvals i a \<le> approvals i b" "approvals i b \<le> approvals i c" for i using assms(1,2) by (auto simp: audit_le_def)
  then show "approvals i a \<le> approvals i c" for i using order_trans by blast
  fix r r''
  assume r: "r \<in> set (deliveries a)" "set_aside r" "r'' \<in> set (deliveries c)" "de_id r'' = de_id r"
  obtain r' where r': "r' \<in> set (deliveries b)" "de_id r' = de_id r" using assms(3) r(1) unfolding rows_le_def delivery_le_def by blast
  show "set_aside r'' \<or> approvals (de_id r) a < approvals (de_id r) c"
  proof (cases "set_aside r'")
    case True
    then have "set_aside r'' \<or> approvals (de_id r) b < approvals (de_id r) c"
      using assms(2) r' r(3,4) unfolding audit_le_def by (metis (no_types, lifting))
    then show ?thesis using mono(1) [of "de_id r"] by linarith
  next
    case False
    then have "approvals (de_id r) a < approvals (de_id r) b"
      using assms(1) r' r(1,2) unfolding audit_le_def by blast
    then show ?thesis using mono(2) [of "de_id r"] by linarith
  qed
qed

interpretation queue: db_relation queue_le
proof
  show "queue_le d d" for d by (simp add: queue_le_def rows_le_refl audit_le_refl)
  show "queue_le a b \<Longrightarrow> queue_le b c \<Longrightarrow> queue_le a c" for a b c
    unfolding queue_le_def by (meson rows_le_trans delivery_le_trans audit_le_trans)
qed

text \<open>One relay delivery changes, together with its lease row and its notification.\<close>

lemma queue_row_step:
  assumes inv: "store_inv d" and ok: "db_ok d'" and same: "same_mail d d'"
    and frame: "queue_messages d' = queue_messages d"
    and rows: "deliveries d' = map (\<lambda>r. if de_id r = i then f r else r) (deliveries d)"
    and leases: "\<And>j. j \<noteq> i \<Longrightarrow> has_key ql_delivery j (queue_leases d') = has_key ql_delivery j (queue_leases d)"
      "has_key ql_delivery i (queue_leases d') \<longleftrightarrow> de_state (f r) = StLeased"
    and reports: "\<And>j. j \<noteq> i \<Longrightarrow> has_key no_delivery j (notifications d') = has_key no_delivery j (notifications d)"
      "has_key no_delivery i (notifications d') \<longleftrightarrow> de_note (f r) = NoteCreated"
    and row: "r \<in> set (deliveries d)" "de_id r = i" "de_route r = RouteRelay" "delivery_le r (f r)"
    and audit: "\<And>j. approvals j d \<le> approvals j d'" "set_aside r \<Longrightarrow> set_aside (f r) \<or> approvals i d < approvals i d'"
    and fine: "de_state (f r) = StLeased \<longleftrightarrow> de_token (f r) \<noteq> None" "\<And>t. de_token (f r) = Some t \<Longrightarrow> length t = 32"
      "de_closed (f r) \<noteq> None \<Longrightarrow> de_state (f r) = StUncertain \<and> de_possibly (f r)"
      "de_state (f r) = StFailed \<Longrightarrow> \<not> de_possibly (f r)"
  shows "queue_le d d'"
proof -
  have key: "keyed_by de_id (deliveries d)" by (rule store_inv_keyed [OF inv])
  have only: "x = r" if "x \<in> set (deliveries d)" "de_id x = i" for x
    using de.keyed_same [OF key that(1) row(1)] that row by simp
  have fid: "de_id (f r) = i" "de_route (f r) = RouteRelay" "de_message (f r) = de_message r"
    using row by (auto simp: delivery_le_def)
  have set': "set (deliveries d') = insert (f r) {x \<in> set (deliveries d). de_id x \<noteq> i}"
    using de.keyed_set_update [OF key row(1), of f] unfolding rows row(2) .
  have old: "\<forall>x\<in>set (deliveries d). \<not> delivery_wrong d x \<and> \<not> lifecycle_wrong d x"
    "\<forall>q\<in>set (queue_messages d). \<exists>x\<in>set (deliveries d). de_message x = qm_message q \<and> de_route x = RouteRelay"
    using inv by (auto simp: store_inv_def queue_integrity_0)
  have "\<not> delivery_wrong d' x \<and> \<not> lifecycle_wrong d' x" if "x \<in> set (deliveries d)" "de_id x \<noteq> i" for x
    using old(1) that frame leases(1) reports(1) by (auto simp: delivery_wrong_def lifecycle_wrong_def Let_def)
  moreover have "\<not> delivery_wrong d' (f r)"
    using old(1) row(1,3) frame leases(2) fid fine(1,2) by (auto simp: delivery_wrong_def Let_def split: option.splits)
  moreover have "\<not> lifecycle_wrong d' (f r)"
    using old(1) row(1,2) reports(2) fid fine by (auto simp: lifecycle_wrong_def)
  moreover have "\<exists>x\<in>set (deliveries d'). de_message x = qm_message q \<and> de_route x = RouteRelay" if "q \<in> set (queue_messages d')" for q
    using old(2) that frame fid only unfolding set' by (metis (mono_tags, lifting) insert_iff mem_Collect_eq)
  ultimately have "queue_integrity_mismatches d' = 0" unfolding queue_integrity_0 set' by blast
  moreover have "mail_inv d'"
  proof (rule mail_frame [OF same _ ok])
    show "mail_inv d" using inv by (simp add: store_inv_def)
    fix x
    assume "x \<in> set (deliveries d')"
    then show "x \<in> set (deliveries d) \<or> de_id x \<notin> de_id ` set (deliveries d)
        \<or> (\<exists>y\<in>set (deliveries d). de_id y = de_id x \<and> de_route y \<noteq> RouteLocal)"
      unfolding set' using row(1-3) fid(1) by auto
  qed
  moreover have "rows_le delivery_le (deliveries d) (deliveries d')"
    unfolding rows_le_def set' using row(4) only by (metis (mono_tags, lifting) delivery_le_refl insert_iff mem_Collect_eq)
  moreover have "audit_le d d'"
    unfolding audit_le_def
  proof (intro conjI allI ballI impI)
    fix x x'
    assume x: "x \<in> set (deliveries d)" "set_aside x" "x' \<in> set (deliveries d')" "de_id x' = de_id x"
    show "set_aside x' \<or> approvals (de_id x) d < approvals (de_id x) d'"
    proof (cases "de_id x = i")
      case True
      with x only fid(1) set' have "x = r" "x' = f r" by auto
      with audit(2) x(2) row(2) show ?thesis by simp
    next
      case False
      with x set' fid(1) have "x' \<in> set (deliveries d)" by auto
      with de.keyed_same [OF key this x(1) x(4)] x(2) show ?thesis by simp
    qed
  qed (rule audit(1))
  ultimately show ?thesis by (simp add: queue_le_def store_inv_def)
qed

lemma queue_step:
  assumes inv: "store_inv d" and ok: "db_ok d'" and same: "same_mail d d'"
    and frame: "notifications d' = notifications d" "queue_messages d' = queue_messages d"
    and rows: "deliveries d' = map (\<lambda>r. if de_id r = i then f r else r) (deliveries d)"
    and leases: "\<And>j. j \<noteq> i \<Longrightarrow> has_key ql_delivery j (queue_leases d') = has_key ql_delivery j (queue_leases d)"
      "has_key ql_delivery i (queue_leases d') \<longleftrightarrow> de_state (f r) = StLeased"
    and row: "r \<in> set (deliveries d)" "de_id r = i" "de_route r = RouteRelay" "delivery_le r (f r)"
    and audit: "\<And>j. approvals j d \<le> approvals j d'" "set_aside r \<Longrightarrow> set_aside (f r) \<or> approvals i d < approvals i d'"
    and fine: "de_state (f r) = StLeased \<longleftrightarrow> de_token (f r) \<noteq> None" "\<And>t. de_token (f r) = Some t \<Longrightarrow> length t = 32"
      "de_note (f r) = de_note r"
      "de_closed (f r) \<noteq> None \<Longrightarrow> de_state (f r) = StUncertain \<and> de_possibly (f r)"
      "de_state (f r) = StFailed \<Longrightarrow> \<not> de_possibly (f r)"
  shows "queue_le d d'"
proof (rule queue_row_step [OF inv ok same frame(2) rows leases _ _ _ _ _ _ audit])
  have "has_key no_delivery i (notifications d) \<longleftrightarrow> de_note r = NoteCreated"
    using inv row by (auto simp: store_inv_def queue_integrity_0 lifecycle_wrong_def)
  then show "has_key no_delivery i (notifications d') \<longleftrightarrow> de_note (f r) = NoteCreated" using frame fine by simp
qed (use row frame fine in auto)

lemma row_facts:
  assumes "store_inv d" "r \<in> set (deliveries d)"
  shows "de_route r = RouteRelay \<Longrightarrow> de_state r = StLeased \<longleftrightarrow> de_token r \<noteq> None"
    "de_route r = RouteRelay \<Longrightarrow> de_state r = StLeased \<longleftrightarrow> has_key ql_delivery (de_id r) (queue_leases d)"
    "de_route r = RouteRelay \<Longrightarrow> de_token r = Some t \<Longrightarrow> length t = 32"
    "de_closed r \<noteq> None \<Longrightarrow> de_state r = StUncertain \<and> de_possibly r"
    "de_state r = StFailed \<Longrightarrow> \<not> de_possibly r"
proof -
  have "\<not> delivery_wrong d r" "\<not> lifecycle_wrong d r" using assms by (auto simp: store_inv_def queue_integrity_0)
  then show "de_route r = RouteRelay \<Longrightarrow> de_state r = StLeased \<longleftrightarrow> de_token r \<noteq> None"
    "de_route r = RouteRelay \<Longrightarrow> de_state r = StLeased \<longleftrightarrow> has_key ql_delivery (de_id r) (queue_leases d)"
    "de_route r = RouteRelay \<Longrightarrow> de_token r = Some t \<Longrightarrow> length t = 32"
    "de_closed r \<noteq> None \<Longrightarrow> de_state r = StUncertain \<and> de_possibly r"
    "de_state r = StFailed \<Longrightarrow> \<not> de_possibly r"
    by (auto simp: delivery_wrong_def lifecycle_wrong_def Let_def)
qed

lemma update_deliveries_eq:
  "update_deliveries p f d = Ok d' \<Longrightarrow> d' = d\<lparr>deliveries := map (\<lambda>r. if p r then f r else r) (deliveries d)\<rparr>"
  by (auto simp: update_deliveries_def res_simps)

text \<open>Updates that keep the identity of a delivery.\<close>

definition keeps_identity :: "(delivery_row \<Rightarrow> delivery_row) \<Rightarrow> bool" where
  "keeps_identity f \<longleftrightarrow> (\<forall>r. de_id (f r) = de_id r \<and> de_message (f r) = de_message r \<and> de_recipient (f r) = de_recipient r
     \<and> de_route (f r) = de_route r \<and> de_domain (f r) = de_domain r \<and> de_note (f r) = de_note r)"

lemma row_updates_keep_identity [simp]:
  "keeps_identity (expire_row now)" "keeps_identity (recover_row u due)" "keeps_identity (lease_row t til)"
  "keeps_identity exhaust_row" "keeps_identity (renew_row til)" "keeps_identity (finish_row st cd diag nxt reason due)"
  "keeps_identity hold_row" "keeps_identity (retry_row now ex)" "keeps_identity (close_row now)"
  by (simp_all add: keeps_identity_def expire_row_def recover_row_def lease_row_def exhaust_row_def renew_row_def finish_row_def
      hold_row_def retry_row_def close_row_def)

lemma update_deliveries_keeps_ok:
  "update_deliveries p f d = Ok d' \<Longrightarrow> keeps_identity f \<Longrightarrow> db_ok d \<Longrightarrow> db_ok d'"
  by (erule update_deliveries_ok) (auto simp: keeps_identity_def)

text \<open>A delivery that is not leased changes to a state that is not leased either.\<close>

lemma queue_update:
  assumes u: "update_deliveries (\<lambda>x. de_id x = i) f d = Ok d'" and inv: "store_inv d" and f: "keeps_identity f"
    and row: "r \<in> set (deliveries d)" "de_id r = i" "de_route r = RouteRelay" "de_state r \<noteq> StLeased" "delivery_le r (f r)"
      "set_aside r \<Longrightarrow> set_aside (f r)"
    and fine: "de_state (f r) \<noteq> StLeased" "de_token (f r) = None"
      "de_closed (f r) \<noteq> None \<Longrightarrow> de_state (f r) = StUncertain \<and> de_possibly (f r)"
      "de_state (f r) = StFailed \<Longrightarrow> \<not> de_possibly (f r)"
  shows "queue_le d d'"
proof (rule queue_step [OF inv, where i = i and f = f and r = r])
  show "db_ok d'" by (rule update_deliveries_keeps_ok [OF u f store_inv_ok [OF inv]])
  show "deliveries d' = map (\<lambda>r. if de_id r = i then f r else r) (deliveries d)"
    using update_deliveries_eq [OF u] by simp
  show "has_key ql_delivery i (queue_leases d') \<longleftrightarrow> de_state (f r) = StLeased"
    using update_deliveries_eq [OF u] row_facts(2) [OF inv row(1,3)] row fine(1) by simp
qed (use update_deliveries_eq [OF u] f row fine in \<open>auto simp: same_mail_def keeps_identity_def\<close>)

lemma queue_untouched:
  assumes "db_ok d \<Longrightarrow> db_ok d'" "same_mail d d'" "deliveries d' = deliveries d" "notifications d' = notifications d"
    "queue_messages d' = queue_messages d" "\<And>j. has_key ql_delivery j (queue_leases d') = has_key ql_delivery j (queue_leases d)"
    "\<And>j. approvals j d \<le> approvals j d'"
  shows "queue_le d d'"
  unfolding queue_le_def
proof
  assume inv: "store_inv d"
  have "mail_inv d'" using mail_untouched [OF assms(1-3)] inv by (simp add: mail_le_def store_inv_def)
  moreover have "queue_integrity_mismatches d' = queue_integrity_mismatches d"
    by (simp add: queue_integrity_mismatches_def delivery_wrong_def lifecycle_wrong_def assms cong: filter_cong)
  moreover have "audit_le d d'" using audit_le_refl [OF inv] assms(3,7) by (auto simp: audit_le_def)
  ultimately show "store_inv d' \<and> rows_le delivery_le (deliveries d) (deliveries d') \<and> audit_le d d'"
    using inv assms(3) by (simp add: store_inv_def rows_le_refl)
qed

lemma waiting_facts:
  assumes "store_inv d" "r \<in> set (deliveries d)" "waiting r"
  shows "de_route r = RouteRelay" "de_state r \<noteq> StLeased" "de_token r = None" "de_closed r = None"
    "de_state r \<noteq> StDelivered" "de_state r \<noteq> StFailed" "\<not> has_key ql_delivery (de_id r) (queue_leases d)" "\<not> set_aside r"
  using row_facts [OF assms(1,2)] assms(3) by (auto simp: waiting_def set_aside_def)

subsection \<open>Expiry\<close>

lemma queue_now_db: "queue_now w s = (r, s') \<Longrightarrow> st_db s' = st_db s"
  by (auto simp: queue_now_def andthen_def read_clock_def Let_def split: sum.splits prod.splits)

lemma read_only_queue:
  "st_db (snd (queue_now w s)) = st_db s" "st_db (snd (get_queue s)) = st_db s" "st_db (snd (modify_queue f s)) = st_db s"
  "st_db (snd (new_guard dm s)) = st_db s" "st_db (snd (notification_due w now s)) = st_db s" "st_db (snd (check_lease w l s)) = st_db s"
  "st_db (snd (end_scan w n s)) = st_db s"
proof -
  show "st_db (snd (queue_now w s)) = st_db s" using queue_now_db [of w s] by (metis prod.collapse)
  obtain v s1 where q: "queue_now w s = (v, s1)" by fastforce
  show "st_db (snd (notification_due w now s)) = st_db s"
    using queue_now_db [OF q] by (simp add: notification_due_def q)
qed (auto simp: get_queue_def modify_queue_def new_guard_def check_lease_def end_scan_def andthen_def query_def lift_res_def return_def split: sum.splits)

context db_relation
begin

lemma within_queue_reads [simp]:
  "within R (queue_now w)" "within R get_queue" "within R (modify_queue f)" "within R (new_guard dm)"
  "within R (notification_due w now)" "within R (check_lease w l)" "within R (end_scan w n)"
  by (rule within_read, rule read_only_queue)+

end

lemma post_read: "(\<And>s. st_db (snd (m s)) = st_db s) \<Longrightarrow> (\<And>x. Q x d) \<Longrightarrow> post m d Q"
  unfolding post_def
proof (intro allI impI)
  fix s x s'
  assume "\<And>s. st_db (snd (m s)) = st_db s" "\<And>x. Q x d" "st_db s = d" "m s = (Ok x, s')"
  then show "Q x (st_db s')" by (metis snd_conv)
qed

lemmas post_queue_reads = post_read [OF read_only_queue(1)] post_read [OF read_only_queue(2)] post_read [OF read_only_queue(3)]
  post_read [OF read_only_queue(4)] post_read [OF read_only_queue(5)]

lemma queue_leI: "(store_inv d \<Longrightarrow> queue_le d d') \<Longrightarrow> queue_le d d'"
  by (auto simp: queue_le_def)

lemma queue_le_inv: "queue_le d d' \<Longrightarrow> store_inv d \<Longrightarrow> store_inv d'"
  by (simp add: queue_le_def)

lemma expire_update:
  assumes "update_deliveries (\<lambda>x. de_id x = i) (expire_row now) d = Ok d'" "store_inv d"
    "r \<in> set (deliveries d)" "de_id r = i" "waiting r"
  shows "queue_le d d'"
  by (rule queue_update [OF assms(1,2) _ assms(3,4)])
    (use waiting_facts [OF assms(2,3,5)] in \<open>auto simp: expire_row_def delivery_le_def\<close>)

lemma update_other_rows:
  assumes "update_deliveries (\<lambda>x. de_id x = i) f d = Ok d'" "j \<noteq> i" "de_id r = j" "r \<in> set (deliveries d)"
  shows "r \<in> set (deliveries d')"
  using update_deliveries_eq [OF assms(1)] assms(2-4) by (auto intro: rev_image_eqI)

lemma distinct_sorted_ids:
  assumes "db_ok d"
  shows "distinct (map de_id (take n (sort_key k (filter p (deliveries d)))))"
proof -
  have "distinct (map de_id (deliveries d))" using assms by (simp add: db_ok_def keys_ok_def keyed_by_def)
  then have "distinct (map de_id (filter p (deliveries d)))" by (rule distinct_map_filter)
  then have "distinct (map de_id (sort_key k (filter p (deliveries d))))"
    by (metis distinct_map distinct_sort set_sort)
  then show ?thesis by (metis distinct_take take_map)
qed

lemma expired_ids_rows:
  assumes "i \<in> set (expired_ids now lim d)"
  shows "\<exists>r\<in>set (deliveries d). de_id r = i \<and> waiting r"
  using assms by (auto simp: expired_ids_def dest!: in_set_takeD)

lemma queue_expire_within: "within queue_le (queue_expire w lim)"
proof -
  have body: "post (andthen (query w (expired_ids now lim)) (\<lambda>ids.
      andthen (for_each (\<lambda>i. exec w (update_deliveries (\<lambda>r. de_id r = i) (expire_row now))) ids) (\<lambda>_. return (length ids, ids \<noteq> []))))
      d (\<lambda>(x, c) d'. c \<longrightarrow> queue_le d d')" for now d
  proof (cases "store_inv d")
    case True
    let ?I = "\<lambda>ids d1. queue_le d d1 \<and> distinct ids \<and> (\<forall>i\<in>set ids. \<exists>r\<in>set (deliveries d1). de_id r = i \<and> waiting r)"
    have "post (for_each (\<lambda>i. exec w (update_deliveries (\<lambda>r. de_id r = i) (expire_row now))) (expired_ids now lim d)) d (\<lambda>_ d'. queue_le d d')"
    proof (rule post_for_each [where I = ?I])
      show "?I (expired_ids now lim d) d"
        using expired_ids_rows distinct_sorted_ids [OF store_inv_ok [OF True]] by (auto simp: expired_ids_def queue.R_refl)
      fix i ids d1
      assume I: "?I (i # ids) d1"
      show "post (exec w (update_deliveries (\<lambda>r. de_id r = i) (expire_row now))) d1 (\<lambda>_ d'. ?I ids d')"
      proof (rule post_exec)
        fix d2
        assume u: "update_deliveries (\<lambda>r. de_id r = i) (expire_row now) d1 = Ok d2"
        from I obtain r where "r \<in> set (deliveries d1)" "de_id r = i" "waiting r" by auto
        then have "queue_le d1 d2" using expire_update [OF u] queue_le_inv I True by blast
        moreover have "\<exists>r\<in>set (deliveries d2). de_id r = j \<and> waiting r" if "j \<in> set ids" for j
          using I that update_other_rows [OF u, of j] by (metis distinct.simps(2) list.set_intros(2))
        ultimately show "?I ids d2" using I queue.R_trans by auto
      qed
    qed simp
    then show ?thesis by (intro post_andthen post_query) (erule post_weaken, auto intro: post_return)
  qed (auto simp: queue_le_def post_def)
  show ?thesis
    unfolding queue_expire_def
    by (intro queue.within_if queue.within_andthen queue.within_queue_reads queue.within_reads within_fromI transact_post
        queue.R_refl body)
qed

subsection \<open>Recovery\<close>

lemma delete_lease_eq: "delete_lease i d = Ok d' \<Longrightarrow> d' = d\<lparr>queue_leases := filter (\<lambda>q. ql_delivery q \<noteq> i) (queue_leases d)\<rparr>"
  by (auto simp: delete_lease_def)

text \<open>A leased delivery loses its lease: the update of the row and the deletion of the lease row together.\<close>

lemma release_pair:
  assumes u: "update_deliveries (\<lambda>x. de_id x = i) f d = Ok d1" and del: "delete_lease i d1 = Ok d2" and inv: "store_inv d"
    and f: "keeps_identity f" and row: "r \<in> set (deliveries d)" "de_id r = i" "de_route r = RouteRelay" "delivery_le r (f r)" "\<not> set_aside r"
    and fine: "de_state (f r) \<noteq> StLeased" "de_token (f r) = None" "de_closed (f r) = None"
      "de_state (f r) = StFailed \<Longrightarrow> \<not> de_possibly (f r)"
  shows "queue_le d d2"
proof (rule queue_step [OF inv, where i = i and f = f and r = r])
  show "db_ok d2" by (rule delete_lease_ok [OF del update_deliveries_keeps_ok [OF u f store_inv_ok [OF inv]]])
  show "deliveries d2 = map (\<lambda>r. if de_id r = i then f r else r) (deliveries d)"
    using update_deliveries_eq [OF u] delete_lease_eq [OF del] by simp
  show "has_key ql_delivery i (queue_leases d2) \<longleftrightarrow> de_state (f r) = StLeased"
    using delete_lease_eq [OF del] fine(1) by (auto simp: has_key_def)
  show "has_key ql_delivery j (queue_leases d2) = has_key ql_delivery j (queue_leases d)" if "j \<noteq> i" for j
    using update_deliveries_eq [OF u] delete_lease_eq [OF del] that by (auto simp: has_key_def)
qed (use update_deliveries_eq [OF u] delete_lease_eq [OF del] f row fine in \<open>auto simp: same_mail_def keeps_identity_def\<close>)

definition leased_row :: "database \<Rightarrow> string \<Rightarrow> delivery_row \<Rightarrow> bool" where
  "leased_row d i r \<longleftrightarrow> r \<in> set (deliveries d) \<and> de_id r = i \<and> de_route r = RouteRelay \<and> de_state r = StLeased"

lemma leased_facts: "store_inv d \<Longrightarrow> leased_row d i r \<Longrightarrow> de_closed r = None \<and> \<not> set_aside r"
  by (cases "de_closed r") (auto simp: leased_row_def set_aside_def dest: row_facts(4))

lemma recover_pair:
  assumes "update_deliveries (\<lambda>x. de_id x = i) (recover_row u due) d = Ok d1" "delete_lease i d1 = Ok d2" "store_inv d"
    "leased_row d i r" "de_possibly r \<longrightarrow> u"
  shows "queue_le d d2"
  using assms(4,5) leased_facts [OF assms(3,4)]
  by (intro release_pair [OF assms(1-3), where r = r]) (auto simp: recover_row_def delivery_le_def leased_row_def)

lemma leased_other:
  assumes "update_deliveries (\<lambda>x. de_id x = i) f d = Ok d1" "delete_lease i d1 = Ok d2" "leased_row d j r" "j \<noteq> i"
  shows "leased_row d2 j r"
  using update_other_rows [OF assms(1,4)] assms(3) delete_lease_eq [OF assms(2)] by (auto simp: leased_row_def)

lemma recover_loop_post:
  assumes "store_inv d" "queue_le d d1" "distinct (map fst rows)"
    "\<forall>(i, u)\<in>set rows. \<exists>r. leased_row d1 i r \<and> (de_possibly r \<longrightarrow> u)"
  shows "post (recover_loop w now active rows n) d1 (\<lambda>_ d'. queue_le d d')"
  using assms(2-)
proof (induction rows arbitrary: d1 n)
  case Nil
  then show ?case by (simp add: post_return)
next
  case (Cons row rows)
  obtain i u where row: "row = (i, u)" by fastforce
  have "post (recover_loop w now active rows (n + 1)) d3 (\<lambda>_ d'. queue_le d d')"
    if up: "update_deliveries (\<lambda>r. de_id r = i) (recover_row u due) d1 = Ok d2" "delete_lease i d2 = Ok d3" for due d2 d3
  proof (rule Cons.IH)
    from Cons.prems(3) row obtain r where "leased_row d1 i r" "de_possibly r \<longrightarrow> u" by auto
    then have "queue_le d1 d3" by (rule recover_pair [OF up queue_le_inv [OF Cons.prems(1) assms(1)]])
    with Cons.prems(1) show "queue_le d d3" by (rule queue.R_trans)
    have "j \<noteq> i" if "(j, v) \<in> set rows" for j v using Cons.prems(2) row that by force
    then show "\<forall>(j, v)\<in>set rows. \<exists>r. leased_row d3 j r \<and> (de_possibly r \<longrightarrow> v)"
      using Cons.prems(3) leased_other [OF up] row by fastforce
  qed (use Cons.prems(2) in simp)
  moreover have "post (recover_loop w now active rows n) d1 (\<lambda>_ d'. queue_le d d')"
    using Cons.prems by (intro Cons.IH) auto
  ultimately show ?case unfolding row recover_loop.simps by (intro post_if post_andthen post_lift post_exec) auto
qed

lemma distinct_join:
  assumes "distinct (map k xs)" "distinct (map h ys)"
  shows "distinct (map fst [(k x, v x y). x \<leftarrow> xs, y \<leftarrow> ys, h y = k x \<and> p x y])"
  using assms(1)
proof (induction xs)
  case (Cons x xs)
  let ?inner = "\<lambda>x. [(k x, v x y). y \<leftarrow> ys, h y = k x \<and> p x y]"
  have "distinct (map fst (?inner x))" using assms(2)
    by (induction ys) (auto split: if_splits, metis imageI)
  moreover have "fst ` set (?inner x) \<subseteq> {k x}" for x by auto
  ultimately show ?case using Cons by (auto split: if_splits)
qed simp

lemma recoverable_rows:
  assumes "store_inv d"
  shows "distinct (map fst (recoverable cursor lim d))"
    "\<forall>(i, u)\<in>set (recoverable cursor lim d). \<exists>r. leased_row d i r \<and> (de_possibly r \<longrightarrow> u)"
proof -
  let ?rows = "[(de_id r, ql_phase l = PhaseBody \<or> de_possibly r). r \<leftarrow> deliveries d, l \<leftarrow> queue_leases d,
        ql_delivery l = de_id r \<and> de_route r = RouteRelay \<and> de_state r = StLeased \<and> cursor < de_id r]"
  have "distinct (map de_id (deliveries d))" "distinct (map ql_delivery (queue_leases d))"
    using store_inv_ok [OF assms] by (simp_all add: db_ok_def keys_ok_def keyed_by_def)
  from distinct_join [OF this] have "distinct (map fst ?rows)" .
  then have "distinct (map fst (sort_key fst ?rows))" by (simp only: distinct_map distinct_sort set_sort)
  then show "distinct (map fst (recoverable cursor lim d))" unfolding recoverable_def take_map [symmetric] by (rule distinct_take)
  show "\<forall>(i, u)\<in>set (recoverable cursor lim d). \<exists>r. leased_row d i r \<and> (de_possibly r \<longrightarrow> u)"
    unfolding recoverable_def by (auto dest!: in_set_takeD simp: leased_row_def)
qed

lemma post_scan: "Q () d \<Longrightarrow> post (end_scan w n) d Q"
  unfolding end_scan_def by (intro post_if post_return post_query)

lemma queue_recover_within: "within queue_le (queue_recover w lim)"
proof -
  have body: "post (andthen (query w (recoverable cursor lim)) (\<lambda>rows. andthen (recover_loop w now active rows 0) (\<lambda>n. andthen (end_scan w n) (\<lambda>_. return ((n, rows), n > 0)))))
      d (\<lambda>(x, c) d'. c \<longrightarrow> queue_le d d')" for cursor now active d
  proof (cases "store_inv d")
    case True
    have "post (recover_loop w now active (recoverable cursor lim d) 0) d (\<lambda>_ d'. queue_le d d')"
      by (rule recover_loop_post [OF True queue.R_refl recoverable_rows [OF True]])
    then show ?thesis by (intro post_andthen post_query) (erule post_weaken, auto intro!: post_andthen post_scan post_return)
  qed (auto simp: queue_le_def post_def)
  have "within queue_le (transact w queue_commit (andthen (query w (recoverable cursor lim)) (\<lambda>rows.
      andthen (recover_loop w now active rows 0) (\<lambda>n. andthen (end_scan w n) (\<lambda>_. return ((n, rows), n > 0))))))" for cursor now active
    by (intro within_fromI transact_post queue.R_refl body)
  then show ?thesis
    unfolding queue_recover_def
    by (intro queue.within_if queue.within_andthen queue.within_queue_reads queue.within_reads) (auto split: prod.splits)
qed

subsection \<open>Claiming\<close>

text \<open>A lease is valid when the store would accept it.\<close>

lemma first_of_None: "(first_of xs \<noteq> None) = (xs \<noteq> [])"
  by (cases xs) (auto simp: first_of_def)

definition lease_valid :: "queue_lease \<Rightarrow> database \<Rightarrow> bool" where
  "lease_valid l d \<longleftrightarrow> lease_row_db l d \<noteq> None"

lemma lease_valid_iff:
  "lease_valid l d \<longleftrightarrow> (\<exists>r. leased_row d (ls_id l) r \<and> de_token r = Some (ls_token l) \<and> de_generation r = ls_generation l)
     \<and> has_key ql_delivery (ls_id l) (queue_leases d)"
proof -
  let ?rows = "[ql_phase q. r \<leftarrow> deliveries d, q \<leftarrow> queue_leases d,
        ql_delivery q = de_id r \<and> de_id r = ls_id l \<and> de_route r = RouteRelay \<and> de_state r = StLeased
        \<and> de_token r = Some (ls_token l) \<and> de_generation r = ls_generation l]"
  have "lease_valid l d \<longleftrightarrow> ?rows \<noteq> []"
    unfolding lease_valid_def lease_row_db_def first_of_None ..
  also have "\<dots> \<longleftrightarrow> (\<exists>r\<in>set (deliveries d). \<exists>q\<in>set (queue_leases d). ql_delivery q = de_id r \<and> de_id r = ls_id l
      \<and> de_route r = RouteRelay \<and> de_state r = StLeased \<and> de_token r = Some (ls_token l) \<and> de_generation r = ls_generation l)"
    by (auto simp: concat_eq_Nil_conv split: if_splits)
  finally show ?thesis unfolding leased_row_def has_key_def image_iff by metis
qed

definition others_kept :: "string \<Rightarrow> database \<Rightarrow> database \<Rightarrow> bool" where
  "others_kept i d d' \<longleftrightarrow> (\<forall>x\<in>set (deliveries d). de_id x \<noteq> i \<longrightarrow> x \<in> set (deliveries d'))
     \<and> (\<forall>j. j \<noteq> i \<longrightarrow> has_key ql_delivery j (queue_leases d) \<longrightarrow> has_key ql_delivery j (queue_leases d'))"

lemma lease_valid_others: "others_kept i d d' \<Longrightarrow> ls_id l \<noteq> i \<Longrightarrow> lease_valid l d \<Longrightarrow> lease_valid l d'"
  unfolding lease_valid_iff others_kept_def leased_row_def by (elim conjE exE) (intro conjI exI, auto)

lemma lease_pair:
  assumes u: "update_deliveries (\<lambda>x. de_id x = de_id c) (lease_row token til) d = Ok d1"
    and ins: "insert_queue_lease \<lparr>ql_delivery = de_id c, ql_phase = PhaseReady\<rparr> d1 = Ok d2"
    and inv: "store_inv d" and c: "c \<in> set (deliveries d)" "waiting c" and t: "length token = 32"
  shows "queue_le d d2" "others_kept (de_id c) d d2"
    "leased_row d2 (de_id c) (lease_row token til c)" "has_key ql_delivery (de_id c) (queue_leases d2)"
proof -
  note eq = update_deliveries_eq [OF u]
  have eq2: "d2 = d1\<lparr>queue_leases := queue_leases d1 @ [\<lparr>ql_delivery = de_id c, ql_phase = PhaseReady\<rparr>]\<rparr>"
    using ins by (auto simp: insert_queue_lease_def res_simps)
  note facts = waiting_facts [OF inv c]
  show "queue_le d d2"
  proof (rule queue_step [OF inv, where i = "de_id c" and f = "lease_row token til" and r = c])
    show "db_ok d2" by (rule insert_queue_lease_ok [OF ins update_deliveries_keeps_ok [OF u _ store_inv_ok [OF inv]]]) simp
  qed (use eq eq2 facts c t in \<open>auto simp: same_mail_def lease_row_def delivery_le_def\<close>)
  show "others_kept (de_id c) d d2"
    using eq eq2 update_other_rows [OF u] by (auto simp: others_kept_def)
  show "leased_row d2 (de_id c) (lease_row token til c)" "has_key ql_delivery (de_id c) (queue_leases d2)"
    using eq eq2 c facts(1) by (auto simp: leased_row_def lease_row_def intro!: image_eqI [of _ _ c])
qed

definition uuid_ok :: "world \<Rightarrow> bool" where
  "uuid_ok w \<longleftrightarrow> (\<forall>n. length (w_uuid w n) = 16)"

lemma post_guard: "(\<And>n k. Q \<lparr>gd_number = n, gd_instance = k, gd_domain = dm\<rparr> d) \<Longrightarrow> post (new_guard dm) d Q"
  by (auto simp: post_def new_guard_def)

definition leases_one :: "database \<Rightarrow> delivery_row \<Rightarrow> address \<Rightarrow> queue_lease \<Rightarrow> database \<Rightarrow> bool" where
  "leases_one d c rcpt l d' \<longleftrightarrow> queue_le d d' \<and> others_kept (de_id c) d d' \<and> lease_valid l d'
    \<and> ls_id l = de_id c \<and> gd_domain (ls_guard l) = domain rcpt"

lemma take_lease_post:
  assumes "uuid_ok w" "store_inv d" "c \<in> set (deliveries d)" "waiting c"
  shows "post (take_lease w hash p now c rcpt) d (leases_one d c rcpt)"
proof -
  have len: "length (uuid_simple (w_uuid w n)) = 32" for n using assms(1) by (simp add: uuid_ok_def)
  have "leases_one d c rcpt l d2"
    if "update_deliveries (\<lambda>r. de_id r = de_id c) (lease_row (uuid_simple (w_uuid w n)) til) d = Ok d1"
      "insert_queue_lease \<lparr>ql_delivery = de_id c, ql_phase = PhaseReady\<rparr> d1 = Ok d2"
      "ls_id l = de_id c" "ls_token l = uuid_simple (w_uuid w n)" "ls_generation l = de_generation c + 1"
      "gd_domain (ls_guard l) = domain rcpt" for n til d1 d2 l
    using lease_pair [OF that(1,2) assms(2-4) len] that(3-)
    unfolding leases_one_def lease_valid_iff by (auto simp: lease_row_def)
  then show ?thesis
    unfolding take_lease_def by (intro post_rules post_guard) auto
qed

lemma exhaust_update:
  assumes "update_deliveries (\<lambda>x. de_id x = de_id c) exhaust_row d = Ok d'" "store_inv d" "c \<in> set (deliveries d)" "waiting c"
  shows "queue_le d d'" "others_kept (de_id c) d d'"
proof -
  show "queue_le d d'"
    by (rule queue_update [OF assms(1,2) _ assms(3)])
      (use waiting_facts [OF assms(2,3,4)] in \<open>auto simp: exhaust_row_def delivery_le_def\<close>)
  show "others_kept (de_id c) d d'"
    using update_deliveries_eq [OF assms(1)] update_other_rows [OF assms(1)] by (auto simp: others_kept_def)
qed

text \<open>What a run of the loop adds to the leases it was given.\<close>

definition claim_ok :: "queue_policy \<Rightarrow> nat \<Rightarrow> string list \<Rightarrow> string list \<Rightarrow> queue_lease list \<Rightarrow> database \<Rightarrow> queue_lease list \<Rightarrow> database \<Rightarrow> bool" where
  "claim_ok p avail active domains leases d ls d' \<longleftrightarrow> queue_le d d' \<and>
     (\<exists>new. ls = leases @ new \<and> length ls \<le> avail \<and> distinct (map ls_id ls) \<and> set (map ls_id new) \<inter> set active = {}
       \<and> (\<forall>l\<in>set ls. lease_valid l d')
       \<and> (\<forall>dm. domain_count dm (map (gd_domain \<circ> ls_guard) new @ domains) \<le> max (po_per_domain p) (domain_count dm domains)))"

lemma claim_ok_refl:
  "queue_le d d1 \<Longrightarrow> length leases \<le> avail \<Longrightarrow> distinct (map ls_id leases) \<Longrightarrow> \<forall>l\<in>set leases. lease_valid l d1
     \<Longrightarrow> claim_ok p avail active domains leases d leases d1"
  by (simp add: claim_ok_def)

lemma claim_ok_Cons:
  assumes "claim_ok p avail active (domain rcpt # domains) (leases @ [l]) d ls d'"
    "domain_count (domain rcpt) domains < po_per_domain p" "gd_domain (ls_guard l) = domain rcpt" "ls_id l \<notin> set active"
  shows "claim_ok p avail active domains leases d ls d'"
proof -
  from assms(1) obtain new where n: "ls = leases @ [l] @ new" "length ls \<le> avail" "distinct (map ls_id ls)"
    "set (map ls_id new) \<inter> set active = {}" "\<forall>l\<in>set ls. lease_valid l d'" "queue_le d d'"
    and c: "\<And>dm. domain_count dm (map (gd_domain \<circ> ls_guard) new @ domain rcpt # domains)
        \<le> max (po_per_domain p) (domain_count dm (domain rcpt # domains))"
    by (auto simp: claim_ok_def)
  have "domain_count dm (map (gd_domain \<circ> ls_guard) (l # new) @ domains) \<le> max (po_per_domain p) (domain_count dm domains)" for dm
    using c [of dm] assms(2,3) by (auto simp: domain_count_def split: if_splits)
  with n assms(4) show ?thesis unfolding claim_ok_def by (intro conjI exI [of _ "l # new"]) auto
qed

lemma claim_loop_post:
  assumes "uuid_ok w" "store_inv d" "queue_le d d1" "distinct (map de_id cs)" "\<forall>c\<in>set cs. c \<in> set (deliveries d1) \<and> waiting c"
    "length leases < avail" "distinct (map ls_id leases)" "set (map ls_id leases) \<inter> set (map de_id cs) = {}"
    "\<forall>l\<in>set leases. lease_valid l d1"
  shows "post (claim_loop w hash p now active avail domains leases lst cs) d1 (\<lambda>(ls, _) d'. claim_ok p avail active domains leases d ls d')"
  using assms(3-)
proof (induction cs arbitrary: d1 domains leases lst)
  case Nil
  then show ?case by (auto intro!: post_return claim_ok_refl)
next
  case (Cons c cs)
  let ?Q = "\<lambda>(ls, _) d'. claim_ok p avail active domains leases d ls d'"
  let ?here = "Some (de_next c, de_id c)"
  have c: "c \<in> set (deliveries d1)" "waiting c" using Cons.prems(3) by auto
  have inv: "store_inv d1" by (rule queue_le_inv [OF Cons.prems(1) assms(2)])
  have ne: "\<forall>c'\<in>set cs. de_id c' \<noteq> de_id c" using Cons.prems(2) by (simp add: image_iff) metis
  have rest: "\<forall>c'\<in>set cs. c' \<in> set (deliveries d2) \<and> waiting c'" if "others_kept (de_id c) d1 d2" for d2
    using that Cons.prems(3) ne by (auto simp: others_kept_def)
  have "ls_id l \<noteq> de_id c" if "l \<in> set leases" for l using Cons.prems(6) imageI [OF that, of ls_id] by auto
  then have keep: "\<forall>l\<in>set leases. lease_valid l d2" if "others_kept (de_id c) d1 d2" for d2
    using Cons.prems(7) lease_valid_others [OF that] by blast
  have skip: "post (claim_loop w hash p now active avail domains leases ?here cs) d1 ?Q"
    using Cons.prems by (intro Cons.IH) auto
  have exhausted: "post (claim_loop w hash p now active avail domains leases ?here cs) d2 ?Q"
    if u: "update_deliveries (\<lambda>r. de_id r = de_id c) exhaust_row d1 = Ok d2" for d2
  proof -
    note e = exhaust_update [OF u inv c]
    show ?thesis using Cons.prems e(1) rest [OF e(2)] keep [OF e(2)] by (intro Cons.IH) (auto intro: queue.R_trans)
  qed
  have taken: "post (if length (leases @ [l]) = avail then return (leases @ [l], ?here)
        else claim_loop w hash p now active avail (domain rcpt # domains) (leases @ [l]) ?here cs) d2 ?Q"
    if t: "leases_one d1 c rcpt l d2" and dm: "domain_count (domain rcpt) domains < po_per_domain p" and a: "de_id c \<notin> set active" for rcpt l d2
  proof -
    have t': "queue_le d d2" "others_kept (de_id c) d1 d2" "lease_valid l d2" "ls_id l = de_id c" "gd_domain (ls_guard l) = domain rcpt"
      using t Cons.prems(1) by (auto simp: leases_one_def intro: queue.R_trans)
    have ids: "distinct (map ls_id (leases @ [l]))" "set (map ls_id (leases @ [l])) \<inter> set (map de_id cs) = {}"
      "\<forall>l'\<in>set (leases @ [l]). lease_valid l' d2"
      using Cons.prems(2,5,6) t'(3,4) keep [OF t'(2)] by auto
    have lifted: "claim_ok p avail active domains leases d ls d'" if "claim_ok p avail active (domain rcpt # domains) (leases @ [l]) d ls d'" for ls d'
      by (rule claim_ok_Cons [OF that dm t'(5)]) (simp add: t'(4) a)
    show ?thesis
    proof (intro post_if)
      assume "length (leases @ [l]) = avail"
      then have "claim_ok p avail active (domain rcpt # domains) (leases @ [l]) d (leases @ [l]) d2"
        using t'(1) ids by (intro claim_ok_refl) auto
      then show "post (return (leases @ [l], ?here)) d2 ?Q" by (auto intro!: post_return lifted)
    next
      assume "length (leases @ [l]) \<noteq> avail"
      then have "post (claim_loop w hash p now active avail (domain rcpt # domains) (leases @ [l]) ?here cs) d2
          (\<lambda>(ls, _) d'. claim_ok p avail active (domain rcpt # domains) (leases @ [l]) d ls d')"
        using Cons.prems(2,4) t'(1) rest [OF t'(2)] ids by (intro Cons.IH) auto
      then show "post (claim_loop w hash p now active avail (domain rcpt # domains) (leases @ [l]) ?here cs) d2 ?Q"
        by (rule post_weaken) (auto intro: lifted)
    qed
  qed
  show ?case
    unfolding claim_loop.simps Let_def
    by (intro post_if post_andthen post_lift post_exec skip exhausted post_weaken [OF take_lease_post [OF assms(1) inv c]] taken) auto
qed

lemma candidates_rows:
  assumes "store_inv d"
  shows "distinct (map de_id (candidates_db now cursor d))" "\<forall>c\<in>set (candidates_db now cursor d). c \<in> set (deliveries d) \<and> waiting c"
  using distinct_sorted_ids [OF store_inv_ok [OF assms]] by (auto simp: candidates_db_def dest!: in_set_takeD)

lemma claim_body_post:
  assumes "uuid_ok w" "0 < avail"
  shows "post (andthen (query w (candidates_db now cursor)) (\<lambda>cands.
      andthen (claim_loop w hash p now active avail domains [] None cands) (\<lambda>(leases, lst). return ((cands, leases, lst), True))))
    d (\<lambda>((cands, leases, lst), c) d'. store_inv d \<longrightarrow> claim_ok p avail active domains [] d leases d')"
proof (cases "store_inv d")
  case True
  have "post (claim_loop w hash p now active avail domains [] None (candidates_db now cursor d)) d
      (\<lambda>(ls, _) d'. claim_ok p avail active domains [] d ls d')"
    by (rule claim_loop_post [OF assms(1) True queue.R_refl candidates_rows [OF True]]) (use assms(2) in auto)
  then show ?thesis by (intro post_andthen post_query) (erule post_weaken, auto intro!: post_return)
qed (auto simp: post_def)

lemma claim_ok_le: "claim_ok p avail active domains leases d ls d' \<Longrightarrow> queue_le d d'"
  by (simp add: claim_ok_def)

lemma within_cond: "(b \<Longrightarrow> within R m) \<Longrightarrow> (\<not> b \<Longrightarrow> within R m') \<Longrightarrow> within R (if b then m else m')"
  by simp

lemma queue_claim_within:
  assumes "uuid_ok w"
  shows "within queue_le (queue_claim w hash p lim)"
proof -
  have tx: "within queue_le (transact w queue_commit (andthen (query w (candidates_db now cursor)) (\<lambda>cands.
      andthen (claim_loop w hash p now active avail domains [] None cands) (\<lambda>(leases, lst). return ((cands, leases, lst), True)))))"
    if "avail \<noteq> 0" for now cursor active avail domains
  proof (intro within_fromI transact_post queue.R_refl)
    fix d
    have pos: "0 < avail" using that by simp
    show "post (andthen (query w (candidates_db now cursor)) (\<lambda>cands.
      andthen (claim_loop w hash p now active avail domains [] None cands) (\<lambda>(leases, lst). return ((cands, leases, lst), True))))
      d (\<lambda>(x, c) d'. c \<longrightarrow> queue_le d d')"
      by (rule post_weaken [OF claim_body_post [OF assms pos]]) (auto simp: queue_le_def claim_ok_def)
  qed
  show ?thesis
    unfolding queue_claim_def Let_def
    by (intro within_cond queue.within_andthen queue.within_queue_reads queue.within_reads queue_recover_within queue_expire_within tx)
      (auto split: prod.splits)
qed

subsection \<open>The owner of a lease\<close>

lemma check_lease_Ok:
  assumes "check_lease w l s = (Ok ph, s')"
  shows "gd_instance (ls_guard l) = st_instance s" "lease_row_db l (st_db s) = Some ph" "st_db s' = st_db s"
  using assms by (auto simp: check_lease_def tx_simps res_simps split: if_splits)

lemma post_check_lease: "(\<And>ph. lease_row_db l d = Some ph \<Longrightarrow> Q ph d) \<Longrightarrow> post (check_lease w l) d Q"
proof (rule postI)
  fix s ph s'
  assume Q: "\<And>ph. lease_row_db l d = Some ph \<Longrightarrow> Q ph d" and "st_db s = d" "check_lease w l s = (Ok ph, s')"
  with check_lease_Ok [OF this(3)] show "Q ph (st_db s')" by simp
qed

lemma lease_row_facts:
  assumes "lease_row_db l d = Some ph"
  obtains r where "leased_row d (ls_id l) r" "de_token r = Some (ls_token l)" "de_generation r = ls_generation l"
    "has_key ql_delivery (ls_id l) (queue_leases d)"
proof -
  have "lease_valid l d" using assms by (simp add: lease_valid_def)
  then show thesis using that by (auto simp: lease_valid_iff)
qed

lemma post_commit: "R d d' \<Longrightarrow> post (return (x, True)) d' (\<lambda>(x, c) d'. c \<longrightarrow> R d d')"
  by (simp add: post_def tx_simps)

lemma renew_update:
  assumes u: "update_deliveries (\<lambda>x. de_id x = i) (renew_row til) d = Ok d'" and inv: "store_inv d" and r: "leased_row d i r"
  shows "queue_le d d'"
proof (rule queue_step [OF inv, where i = i and f = "renew_row til" and r = r])
  show "db_ok d'" by (rule update_deliveries_keeps_ok [OF u _ store_inv_ok [OF inv]]) simp
  show "de_closed (renew_row til r) \<noteq> None \<Longrightarrow> de_state (renew_row til r) = StUncertain \<and> de_possibly (renew_row til r)"
    using leased_facts [OF inv r] by (simp add: renew_row_def)
qed (use update_deliveries_eq [OF u] r row_facts [OF inv, of r] in \<open>auto simp: same_mail_def renew_row_def delivery_le_def leased_row_def set_aside_def\<close>)

lemma queue_renew_within: "within queue_le (queue_renew w l seconds)"
proof -
  have body: "post (andthen (check_lease w l) (\<lambda>_. andthen (lift_res (later now (int seconds * 1000))) (\<lambda>til.
      andthen (exec w (update_deliveries (\<lambda>r. de_id r = ls_id l) (renew_row til))) (\<lambda>_. return ((), True)))))
      d (\<lambda>(x, c) d'. c \<longrightarrow> queue_le d d')" for now d
  proof (intro post_andthen post_check_lease post_lift post_exec post_commit)
    fix ph til d'
    assume "lease_row_db l d = Some ph" and u: "update_deliveries (\<lambda>r. de_id r = ls_id l) (renew_row til) d = Ok d'"
    then obtain r where r: "leased_row d (ls_id l) r" by (elim lease_row_facts)
    show "queue_le d d'" by (rule queue_leI) (rule renew_update [OF u _ r])
  qed
  show ?thesis
    unfolding queue_renew_def
    by (intro queue.within_if queue.within_andthen queue.within_queue_reads queue.within_reads within_fromI transact_post queue.R_refl body)
qed

lemma mark_body_update:
  assumes "update_leases (\<lambda>q. ql_delivery q = i) (\<lambda>q. q\<lparr>ql_phase := PhaseBody\<rparr>) d = Ok d'"
  shows "queue_le d d'"
proof (rule queue_untouched)
  show "db_ok d \<Longrightarrow> db_ok d'" by (rule update_leases_ok [OF assms]) simp_all
  show "has_key ql_delivery j (queue_leases d') = has_key ql_delivery j (queue_leases d)" for j
    using assms by (auto simp: update_leases_def res_simps)
qed (use assms in \<open>auto simp: update_leases_def res_simps same_mail_def\<close>)

lemma queue_mark_body_within: "within queue_le (queue_mark_body w l)"
  unfolding queue_mark_body_def
  by (intro within_fromI transact_post queue.R_refl post_rules post_check_lease) (auto intro!: mark_body_update)

lemma queue_open_body_within: "within queue_le (queue_open_body w files l)"
  unfolding queue_open_body_def by (intro queue.within_andthen queue.within_queue_reads queue.within_reads)

lemma finish_pair:
  assumes "update_deliveries (\<lambda>x. de_id x = i) (finish_row st cd diag nxt reason due) d = Ok d1" "delete_lease i d1 = Ok d2" "store_inv d"
    "leased_row d i r" "st \<noteq> StLeased" "de_possibly r \<longrightarrow> st = StUncertain \<or> st = StDelivered"
  shows "queue_le d d2"
  using assms(4-6) leased_facts [OF assms(3,4)]
  by (intro release_pair [OF assms(1-3), where r = r]) (auto simp: finish_row_def delivery_le_def leased_row_def)

lemma classify_not_leased: "classify outcome ph = Ok (st, cd, diag) \<Longrightarrow> st \<noteq> StLeased"
  by (auto simp: classify_def split: queue_result.splits if_splits)

lemma possibly_row:
  assumes "db_ok d" "leased_row d i r" "map_option de_possibly (first_row (\<lambda>r. de_id r = i) (deliveries d)) = Some b"
  shows "b = de_possibly r"
proof -
  have "first_row (\<lambda>x. de_id x = de_id r) (deliveries d) = Some r"
    by (rule de.keyed_first_row) (use assms in \<open>auto simp: db_ok_def keys_ok_def leased_row_def\<close>)
  with assms show ?thesis by (auto simp: leased_row_def)
qed

lemma queue_finish_within: "within queue_le (queue_finish w l outcome)"
proof -
  let ?st = "\<lambda>b st. if b \<and> st \<noteq> StDelivered then StUncertain else st"
  have fin: "queue_le d d2"
    if "lease_row_db l d = Some ph" "map_option de_possibly (first_row (\<lambda>r. de_id r = ls_id l) (deliveries d)) = Some b"
      "classify outcome ph = Ok (st, cd, diag)"
      "update_deliveries (\<lambda>r. de_id r = ls_id l) (finish_row (?st b st) cd diag' nxt reason due) d = Ok d1"
      "delete_lease (ls_id l) d1 = Ok d2" for d ph b st cd diag diag' nxt reason due d1 d2
  proof (rule queue_leI)
    assume inv: "store_inv d"
    from that(1) obtain r where r: "leased_row d (ls_id l) r" by (rule lease_row_facts)
    have "b = de_possibly r" by (rule possibly_row [OF store_inv_ok [OF inv] r that(2)])
    then show "queue_le d d2" using classify_not_leased [OF that(3)] by (intro finish_pair [OF that(4,5) inv r]) auto
  qed
  show ?thesis
    unfolding queue_finish_def
    by (intro queue.within_andthen queue.within_queue_reads queue.within_reads within_fromI transact_post queue.R_refl post_rules post_check_lease)
      (auto simp: res_simps Let_def intro!: post_rules fin split: if_splits)
qed

subsection \<open>The administrator's operations\<close>

lemma update_counted_one:
  assumes "update_counted p f d = Ok (n, d')" "n = 1" "\<And>x. p x \<Longrightarrow> de_id x = i" "db_ok d"
  obtains r where "r \<in> set (deliveries d)" "p r" "update_deliveries (\<lambda>x. de_id x = i) f d = Ok d'"
proof -
  have u: "update_deliveries p f d = Ok d'" and n: "length (filter p (deliveries d)) = 1"
    using assms(1,2) by (auto simp: update_counted_def res_simps)
  then obtain r where "filter p (deliveries d) = [r]" by (auto simp: length_Suc_conv)
  then have "r \<in> set (filter p (deliveries d))" by simp
  then have r: "r \<in> set (deliveries d)" "p r" by auto
  have key: "keyed_by de_id (deliveries d)" using assms(4) by (simp add: db_ok_def keys_ok_def)
  have "p x \<longleftrightarrow> de_id x = i" if "x \<in> set (deliveries d)" for x
    using de.keyed_same [OF key that r(1)] assms(3) [OF r(2)] r(2) assms(3) by auto
  then have "update_deliveries (\<lambda>x. de_id x = i) f d = Ok d'"
    using u by (auto simp: update_deliveries_def res_simps)
  with r that show thesis by blast
qed

lemma admin_event_le: "insert_admin_event i act old new note dup ex now d = Ok d' \<Longrightarrow> queue_le d d'"
proof (rule queue_untouched)
  assume a: "insert_admin_event i act old new note dup ex now d = Ok d'"
  show "db_ok d \<Longrightarrow> db_ok d'" by (rule insert_admin_event_ok [OF a])
qed (auto simp: insert_admin_event_def Let_def res_simps same_mail_def approvals_def)

lemma hold_update:
  assumes "update_counted (hold_allowed i) hold_row d = Ok (n, d')" "n = 1"
  shows "queue_le d d'"
proof (rule queue_leI)
  assume inv: "store_inv d"
  obtain r where r: "r \<in> set (deliveries d)" "hold_allowed i r" and u: "update_deliveries (\<lambda>x. de_id x = i) hold_row d = Ok d'"
    by (rule update_counted_one [OF assms _ store_inv_ok [OF inv]]) (auto simp: hold_allowed_def)
  show "queue_le d d'"
    by (rule queue_update [OF u inv _ r(1)])
      (use r row_facts [OF inv r(1)] in \<open>auto simp: hold_allowed_def hold_row_def delivery_le_def set_aside_def\<close>)
qed

lemma close_update:
  assumes "update_counted (close_allowed i) (close_row now) d = Ok (n, d')" "n = 1"
  shows "queue_le d d'"
proof (rule queue_leI)
  assume inv: "store_inv d"
  obtain r where r: "r \<in> set (deliveries d)" "close_allowed i r" and u: "update_deliveries (\<lambda>x. de_id x = i) (close_row now) d = Ok d'"
    by (rule update_counted_one [OF assms _ store_inv_ok [OF inv]]) (auto simp: close_allowed_def)
  show "queue_le d d'"
    by (rule queue_update [OF u inv _ r(1)])
      (use r row_facts [OF inv r(1)] in \<open>auto simp: close_allowed_def close_row_def delivery_le_def set_aside_def\<close>)
qed

lemma first_of_Some: "first_of xs = Some x \<Longrightarrow> x \<in> set xs"
  by (cases xs) (auto simp: first_of_def)

lemma retry_pair:
  assumes u: "update_deliveries (\<lambda>x. de_id x = i) (retry_row now ex) d = Ok d1"
    and e: "insert_admin_event i ActionRetry old StPending note dup ext now d1 = Ok d2"
    and f: "retry_facts i d = Some (r, age)" and st: "de_state r \<in> {StDeferred, StUncertain, StHold}" "de_closed r = None" "set_aside r \<longrightarrow> dup"
  shows "queue_le d d2"
proof (rule queue_leI)
  assume inv: "store_inv d"
  have r: "r \<in> set (deliveries d)" "de_id r = i" "de_route r = RouteRelay"
    using first_of_Some [OF f [unfolded retry_facts_def]] by auto
  note eq = update_deliveries_eq [OF u]
  have ok: "db_ok d2"
    by (rule insert_admin_event_ok [OF e update_deliveries_keeps_ok [OF u _ store_inv_ok [OF inv]]]) simp
  from e obtain x where eq2: "d2 = d1\<lparr>admin_events := admin_events d1 @ [x]\<rparr>"
    and x: "qa_delivery x = i" "qa_action x = ActionRetry" "qa_duplicate x = dup"
    by (auto simp: insert_admin_event_def Let_def res_simps)
  have more: "approvals j d \<le> approvals j d2" "dup \<Longrightarrow> approvals i d < approvals i d2" for j
    by (simp_all add: approvals_def eq eq2 x)
  have d2: "same_mail d d2" "notifications d2 = notifications d" "queue_messages d2 = queue_messages d" "queue_leases d2 = queue_leases d"
    "deliveries d2 = map (\<lambda>r. if de_id r = i then retry_row now ex r else r) (deliveries d)"
    by (simp_all add: eq eq2 same_mail_def)
  note facts = row_facts [OF inv r(1)]
  have idle: "de_state r \<noteq> StLeased" "de_token r = None" using st(1) facts(1) r(3) by auto
  show "queue_le d d2"
  proof (rule queue_step [OF inv ok d2(1-3) d2(5) _ _ r])
    show "has_key ql_delivery i (queue_leases d2) \<longleftrightarrow> de_state (retry_row now ex r) = StLeased"
      using facts(2) r idle(1) by (simp add: d2(4) retry_row_def)
    show "delivery_le r (retry_row now ex r)" using st(1,2) idle by (auto simp: retry_row_def delivery_le_def)
    show "set_aside r \<Longrightarrow> set_aside (retry_row now ex r) \<or> approvals i d < approvals i d2" using st(3) more(2) by blast
  qed (use st(2) idle more(1) in \<open>simp_all add: d2(4) retry_row_def\<close>)
qed

lemma queue_hold_within: "within queue_le (queue_hold w i)"
proof -
  have "post (andthen (query w (relay_state i)) (\<lambda>row. andthen (lift_res (ok_or row NotFound)) (\<lambda>old.
      andthen (exec_ret w (update_counted (hold_allowed i) hold_row)) (\<lambda>n. andthen (ensure (n = 1) InvalidInput) (\<lambda>_.
      andthen (exec w (insert_admin_event i ActionHold old StHold ''operator requested hold'' False False now)) (\<lambda>_.
      return ((), True))))))) d (\<lambda>(x, c) d'. c \<longrightarrow> queue_le d d')" for now d
    by (intro post_andthen post_query post_lift post_exec_ret post_ensure post_exec post_commit)
      (rule queue.R_trans [OF hold_update admin_event_le])
  then show ?thesis
    unfolding queue_hold_def
    by (intro queue.within_if queue.within_andthen queue.within_reads within_fromI transact_post queue.R_refl)
qed

lemma queue_close_unknown_within: "within queue_le (queue_close_unknown w i note)"
proof -
  have "post (andthen (query w (relay_state i)) (\<lambda>row. andthen (lift_res (ok_or row NotFound)) (\<lambda>old.
      andthen (exec_ret w (update_counted (close_allowed i) (close_row now))) (\<lambda>n. andthen (ensure (n = 1) InvalidInput) (\<lambda>_.
      andthen (exec w (insert_admin_event i ActionCloseUnknown old StUncertain note False False now)) (\<lambda>_.
      return ((), True))))))) d (\<lambda>(x, c) d'. c \<longrightarrow> queue_le d d')" for now d
    by (intro post_andthen post_query post_lift post_exec_ret post_ensure post_exec post_commit)
      (rule queue.R_trans [OF close_update admin_event_le])
  then show ?thesis
    unfolding queue_close_unknown_def
    by (intro queue.within_if queue.within_andthen queue.within_reads within_fromI transact_post queue.R_refl)
qed

lemma queue_retry_within: "within queue_le (queue_retry w i dup ext)"
proof -
  have step: "queue_le d d2"
    if "ok_or (retry_facts i d) NotFound = Ok (r, age)" "de_state r \<in> {StDeferred, StUncertain, StHold}" "de_closed r = None"
      "set_aside r \<longrightarrow> dup"
      "update_deliveries (\<lambda>x. de_id x = i) (retry_row now ex) d = Ok d1"
      "insert_admin_event i ActionRetry (de_state r) StPending ''operator requested retry'' dup ext now d1 = Ok d2" for d d1 d2 r age now ex
  proof -
    have "retry_facts i d = Some (r, age)" using that(1) by (auto simp: res_simps)
    from retry_pair [OF that(5,6) this that(2-4)] show ?thesis .
  qed
  have "post (andthen (query w (retry_facts i)) (\<lambda>row.
           andthen (lift_res (ok_or row NotFound)) (\<lambda>(r, age).
           andthen (ensure (\<not> (de_state r \<notin> {StDeferred, StUncertain, StHold} \<or> de_closed r \<noteq> None
               \<or> ((de_state r = StUncertain \<or> de_state r = StHold) \<and> \<not> dup)
               \<or> (de_expires r \<le> now \<and> \<not> ext))) InvalidInput) (\<lambda>_.
           andthen (if de_expires r \<le> now then lift_res (later now (age * 1000)) else return (de_expires r)) (\<lambda>expires.
           andthen (exec w (update_deliveries (\<lambda>x. de_id x = i) (retry_row now expires))) (\<lambda>_.
           andthen (exec w (insert_admin_event i ActionRetry (de_state r) StPending ''operator requested retry''
             dup ext now)) (\<lambda>_.
           return ((), True)))))))) d (\<lambda>(x, c) d'. c \<longrightarrow> queue_le d d')" for now d
    by (intro post_andthen post_query post_lift post_prod post_ensure post_if post_return post_exec post_commit) (rule step; auto simp: set_aside_def)+
  then show ?thesis
    unfolding queue_retry_def
    by (intro queue.within_if queue.within_andthen queue.within_queue_reads queue.within_reads within_fromI transact_post queue.R_refl)
qed

subsection \<open>Operations that add deliveries\<close>

text \<open>New deliveries are neither leased nor decided by the queue; leases and notifications stay.\<close>

definition plain_row :: "delivery_row \<Rightarrow> bool" where
  "plain_row r \<longleftrightarrow> de_token r = None \<and> de_state r \<noteq> StLeased \<and> de_state r \<noteq> StFailed \<and> de_closed r = None \<and> de_note r = NotePending"

definition plain_grow :: "database \<Rightarrow> database \<Rightarrow> bool" where
  "plain_grow d d' \<longleftrightarrow> (\<exists>rows. deliveries d' = deliveries d @ rows \<and> (\<forall>r\<in>set rows. plain_row r))
     \<and> queue_leases d' = queue_leases d \<and> notifications d' = notifications d \<and> admin_events d' = admin_events d"

interpretation plain: db_relation plain_grow
proof
  show "plain_grow d d" for d by (simp add: plain_grow_def)
  show "plain_grow a c" if "plain_grow a b" "plain_grow b c" for a b c
  proof -
    from that obtain xs ys where "deliveries b = deliveries a @ xs" "deliveries c = deliveries b @ ys"
      "\<forall>r\<in>set xs. plain_row r" "\<forall>r\<in>set ys. plain_row r" by (auto simp: plain_grow_def)
    then show ?thesis using that unfolding plain_grow_def by (intro conjI exI [of _ "xs @ ys"]) auto
  qed
qed

lemma queue_grow:
  assumes mail: "mail_le d d'" and g: "plain_grow d d'"
    and relay: "\<And>r. r \<in> set (deliveries d') \<Longrightarrow> r \<notin> set (deliveries d) \<Longrightarrow> de_route r = RouteRelay
        \<Longrightarrow> has_key qm_message (de_message r) (queue_messages d')"
    and qs: "set (queue_messages d) \<subseteq> set (queue_messages d')"
      "\<And>q. q \<in> set (queue_messages d') \<Longrightarrow> q \<notin> set (queue_messages d)
        \<Longrightarrow> \<exists>r\<in>set (deliveries d'). de_message r = qm_message q \<and> de_route r = RouteRelay"
  shows "queue_le d d'"
  unfolding queue_le_def
proof
  assume inv: "store_inv d"
  then have m: "mail_inv d'" using mail by (simp add: mail_le_def store_inv_def)
  obtain rows where rows: "deliveries d' = deliveries d @ rows" "\<forall>r\<in>set rows. plain_row r"
    and frame: "queue_leases d' = queue_leases d" "notifications d' = notifications d" "admin_events d' = admin_events d"
    using g by (auto simp: plain_grow_def)
  have new: "de_id r \<notin> de_id ` set (deliveries d)" if "r \<in> set rows" for r
    using mail_inv_ok [OF m] rows(1) that by (auto simp: db_ok_def keys_ok_def keyed_by_def)
  have lease: "\<not> has_key ql_delivery (de_id r) (queue_leases d)" "\<not> has_key no_delivery (de_id r) (notifications d)"
    if "r \<in> set rows" for r
    using new [OF that] refs_okD [OF store_inv_ok [OF inv]] by (auto simp: has_key_def)
  have fine: "\<forall>r\<in>set (deliveries d). \<not> delivery_wrong d r \<and> \<not> lifecycle_wrong d r"
      "\<forall>q\<in>set (queue_messages d). \<exists>r\<in>set (deliveries d). de_message r = qm_message q \<and> de_route r = RouteRelay"
    using inv by (auto simp: store_inv_def queue_integrity_0)
  have "\<not> delivery_wrong d' r \<and> \<not> lifecycle_wrong d' r" if "r \<in> set (deliveries d)" for r
    using fine(1) that image_mono [OF qs(1), of qm_message] frame by (auto simp: delivery_wrong_def lifecycle_wrong_def Let_def has_key_def)
  moreover have "\<not> delivery_wrong d' r \<and> \<not> lifecycle_wrong d' r" if "r \<in> set rows" for r
    using rows that lease [OF that] frame relay [of r] new [OF that]
    by (auto simp: delivery_wrong_def lifecycle_wrong_def Let_def plain_row_def)
  moreover have "\<exists>r\<in>set (deliveries d'). de_message r = qm_message q \<and> de_route r = RouteRelay" if "q \<in> set (queue_messages d')" for q
    using qs(2) [OF that] fine(2) rows(1) by (cases "q \<in> set (queue_messages d)") auto
  ultimately have "queue_integrity_mismatches d' = 0" unfolding queue_integrity_0 rows(1) by auto
  moreover have "set_aside r' \<or> n" if "r \<in> set (deliveries d)" "set_aside r" "r' \<in> set (deliveries d')" "de_id r' = de_id r" for r r' n
    using de.keyed_same [OF store_inv_keyed [OF inv], of r' r] new that rows(1) by fastforce
  then have "audit_le d d'" using frame by (auto simp: audit_le_def approvals_def)
  ultimately show "store_inv d' \<and> rows_le delivery_le (deliveries d) (deliveries d') \<and> audit_le d d'"
    using m rows(1) unfolding store_inv_def rows_le_def by (metis Un_iff delivery_le_refl set_append)
qed

lemma plain_inserts:
  "insert_delivery (new_delivery i m r rt dm StPending nxt ex) d = Ok d' \<Longrightarrow> plain_grow d d'"
  "insert_delivery (new_delivery i m r rt dm StDelivered nxt ex) d = Ok d' \<Longrightarrow> plain_grow d d'"
  "insert_blob b d = Ok d' \<Longrightarrow> plain_grow d d'" "insert_message x d = Ok d' \<Longrightarrow> plain_grow d d'"
  "insert_queue_message q d = Ok d' \<Longrightarrow> plain_grow d d'"
  by (auto simp: plain_grow_def insert_delivery_def insert_blob_def insert_message_def insert_queue_message_def res_simps
      plain_row_def new_delivery_def)

lemma insert_relay_plain: "within plain_grow (insert_relay w i rs body age now)"
  unfolding insert_relay_def relay_delivery_def
  by (intro plain.within_reads plain.within_andthen plain.within_exec plain.within_for_each; erule plain_inserts)

lemma deliver_plain: "deliver w r i n now s = (Ok (), s') \<Longrightarrow> plain_grow (st_db s) (st_db s')"
  by (erule deliver_Ok) (auto simp: plain_grow_def delivered_db_def new_delivery_def plain_row_def)

lemma insert_relay_queue:
  assumes "insert_relay w i rs body age now s = (Ok (), s')" "rs \<noteq> []"
  shows "queue_messages (st_db s') = queue_messages (st_db s) @ [\<lparr>qm_message = i, qm_body = body, qm_age = int age\<rparr>]"
    "\<And>r. r \<in> set (deliveries (st_db s')) \<Longrightarrow> r \<notin> set (deliveries (st_db s)) \<Longrightarrow> de_message r = i"
    "\<exists>r\<in>set (deliveries (st_db s')). de_message r = i \<and> de_route r = RouteRelay"
proof -
  note e = insert_relay_effect [OF assms(1)]
  show "queue_messages (st_db s') = queue_messages (st_db s) @ [\<lparr>qm_message = i, qm_body = body, qm_age = int age\<rparr>]" by (rule e(2))
  from e(1) obtain rows where r: "deliveries (st_db s') = deliveries (st_db s) @ rows" "map de_recipient rows = rs"
    "\<forall>r\<in>set rows. de_message r = i \<and> de_route r = RouteRelay" by (auto simp: appended_def)
  then show "\<And>r. r \<in> set (deliveries (st_db s')) \<Longrightarrow> r \<notin> set (deliveries (st_db s)) \<Longrightarrow> de_message r = i" by auto
  from r(2) assms(2) obtain x where "x \<in> set rows" by (cases rows) auto
  with r show "\<exists>r\<in>set (deliveries (st_db s')). de_message r = i \<and> de_route r = RouteRelay" by auto
qed

lemma ordered_set_empty [simp]: "ordered_set xs = [] \<longleftrightarrow> xs = []"
  unfolding ordered_set_def by (metis remdups_eq_nil_iff set_empty set_sort)

lemma record_message_queue:
  assumes "record_message w pm plan account rl s = (Ok (r, c), s')" "accept_arguments root plan rl"
  shows "queue_le (st_db s) (st_db s')"
  using assms(1)
proof (cases rule: record_message_Ok)
  case (1 i now d1 d2 s2 s3)
  have q2: "deliveries d2 = deliveries (st_db s)" "queue_messages d2 = queue_messages (st_db s)"
    using 1(3,4) by (auto simp: insert_blob_def insert_message_def res_simps)
  have q3: "queue_messages (st_db s3) = queue_messages (st_db s)" using deliver_all_queue [OF 1(5)] 1(7) q2 by simp
  have a3: "appended i RouteLocal (local_keys plan) (st_db s2) (st_db s3)"
    by (rule for_each_appended [OF 1(5)]) (rule deliver_appended)
  have p3: "plain_grow (st_db s) (st_db s3)"
    using plain.R_trans [OF plain_inserts(3) [OF 1(3)] plain_inserts(4) [OF 1(4)]] 1(7)
      plain.for_each_within [OF 1(5) deliver_plain] by (auto intro: plain.R_trans)
  note mail = conjunct1 [OF record_message_within [OF assms(1)]]
  show ?thesis
  proof (cases rl)
    case None
    then have "s' = s3" using 1(6) by (simp add: return_def)
    show ?thesis
      by (rule queue_grow [OF mail]) (use p3 q3 a3 q2 1(7) \<open>s' = s3\<close> in \<open>auto simp: appended_def\<close>)
  next
    case (Some q)
    then have ir: "insert_relay w i (remote_keys rl) (ra_body q) (ra_age q) now s3 = (Ok (), s')" using 1(6) by simp
    have ne: "remote_keys rl \<noteq> []" using assms(2) Some by (auto simp: accept_arguments_def Let_def remote_keys_def)
    note e = insert_relay_queue [OF ir ne]
    show ?thesis
    proof (rule queue_grow [OF mail])
      show "plain_grow (st_db s) (st_db s')"
        using p3 insert_relay_plain ir by (auto simp: within_def intro: plain.R_trans)
      fix x assume x: "x \<in> set (deliveries (st_db s'))" "x \<notin> set (deliveries (st_db s))" "de_route x = RouteRelay"
      have "x \<notin> set (deliveries (st_db s3))" using x(2,3) a3 q2 1(7) by (auto simp: appended_def)
      from e(2) [OF x(1) this] show "has_key qm_message (de_message x) (queue_messages (st_db s'))" by (simp add: e(1) has_key_def)
    qed (use e(1,3) q3 in auto)
  qed
qed

lemma enqueue_record_queue:
  assumes "enqueue_record w pm plan now s = (Ok (r, c), s')" "qp_recipients plan \<noteq> []" "mail_le (st_db s) (st_db s')"
  shows "queue_le (st_db s) (st_db s')"
  using assms(1)
proof (cases rule: enqueue_record_Ok)
  case (1 i d1 d2 s2)
  have q2: "deliveries d2 = deliveries (st_db s)" "queue_messages d2 = queue_messages (st_db s)"
    using 1(3,4) by (auto simp: insert_blob_def insert_message_def res_simps)
  have ne: "queue_keys plan \<noteq> []" using assms(2) by (auto simp: queue_keys_def)
  note e = insert_relay_queue [OF 1(5) ne]
  show ?thesis
  proof (rule queue_grow [OF assms(3)])
    show "plain_grow (st_db s) (st_db s')"
      using plain.R_trans [OF plain_inserts(3) [OF 1(3)] plain_inserts(4) [OF 1(4)]] insert_relay_plain 1(5,6)
      by (auto simp: within_def intro: plain.R_trans)
    fix x assume x: "x \<in> set (deliveries (st_db s'))" "x \<notin> set (deliveries (st_db s))"
    from e(2) [OF x(1)] x(2) q2 1(6) show "has_key qm_message (de_message x) (queue_messages (st_db s'))" by (simp add: e(1) has_key_def)
  qed (use e(1,3) q2 1(6) in auto)
qed

lemma accept_inner_queue: "within queue_le (accept_inner w root pm plan who rl)"
proof -
  have "queue_le (st_db s) (st_db s')" if "accept_arguments root plan rl" "accept_body w pm plan who rl s = (Ok (r, c), s')" for s r c s'
    using that(2)
  proof (cases rule: accept_body_Ok)
    case (new s1)
    with record_message_queue [OF new(4) that(1)] show ?thesis by simp
  qed (auto simp: queue.R_refl)
  then show ?thesis unfolding accept_inner_def by (intro within_cond queue.within_transact queue.within_reads) auto
qed

lemma enqueue_record_mail:
  assumes "enqueue_record w pm plan now s = (Ok (r, c), s')"
  shows "mail_le (st_db s) (st_db s')"
  using assms
proof (cases rule: enqueue_record_Ok)
  case (1 i d1 d2 s2)
  have "mail_le (st_db s2) (st_db s')" using insert_relay_within(1) 1(5) by (auto simp: within_def)
  with mail_insert_message [OF 1(3,4)] show ?thesis unfolding 1(6) by (simp, meson mail.R_trans)
qed

lemma enqueue_queue: "within queue_le (enqueue w root pm plan)"
proof -
  have rep: "st_db s' = st_db s" if "enqueue_replay w pm plan m b q s = (Ok (r, c), s')" for m b q s r c s'
    using that unfolding enqueue_replay_def by (auto simp: tx_simps)
  have body: "queue_le (st_db s) (st_db s')"
    if "qp_recipients plan \<noteq> []" "(case prev of Some (m, b, q) \<Rightarrow> enqueue_replay w pm plan m b q | None \<Rightarrow> enqueue_record w pm plan now) s = (Ok (r, c), s')"
    for prev now s r c s'
    using that by (auto split: option.splits prod.splits simp: queue.R_refl dest: rep intro: enqueue_record_queue enqueue_record_mail)
  show ?thesis
    unfolding enqueue_def
    by (intro within_cond queue.within_andthen queue.within_transact queue.within_reads)
      (simp only: andthen_Ok query_Ok, elim exE conjE, drule body [rotated], simp_all)
qed

text \<open>Operations on identities and accounts leave the queue alone.\<close>

definition same_queue :: "database \<Rightarrow> database \<Rightarrow> bool" where
  "same_queue d d' \<longleftrightarrow> deliveries d' = deliveries d \<and> queue_messages d' = queue_messages d \<and> queue_leases d' = queue_leases d
     \<and> notifications d' = notifications d \<and> admin_events d' = admin_events d"

interpretation sameq: db_relation same_queue
  by unfold_locales (auto simp: same_queue_def)

lemma same_queue_le: "within mail_le m \<Longrightarrow> within same_queue m \<Longrightarrow> within queue_le m"
  unfolding within_def
proof (intro allI impI)
  fix s r s'
  assume a: "\<forall>s r s'. m s = (r, s') \<longrightarrow> mail_le (st_db s) (st_db s')" "\<forall>s r s'. m s = (r, s') \<longrightarrow> same_queue (st_db s) (st_db s')"
    and r: "m s = (r, s')"
  have "mail_le (st_db s) (st_db s')" "same_queue (st_db s) (st_db s')" using a r by blast+
  then show "queue_le (st_db s) (st_db s')" by (intro queue_grow) (auto simp: same_queue_def plain_grow_def)
qed

lemmas same_queue_defs = same_queue_def update_accounts_def update_credentials_def update_addresses_def insert_credential_def
  insert_account_def insert_address_def insert_mailbox_def insert_subscription_def upsert_send_as_def touch_credential_def
  revoke_rows_def bump_epoch_def disable_rows_def set_quota_def Let_def res_simps

lemma same_queue_statements:
  "touch_credential i now d = Ok d' \<Longrightarrow> same_queue d d'" "revoke_rows p now d = Ok d' \<Longrightarrow> same_queue d d'"
  "bump_epoch i d = Ok d' \<Longrightarrow> same_queue d d'" "disable_rows i d = Ok d' \<Longrightarrow> same_queue d d'"
  "set_quota login n d = Ok d' \<Longrightarrow> same_queue d d'" "insert_address u d = Ok d' \<Longrightarrow> same_queue d d'"
  "insert_mailbox i name v d = Ok d' \<Longrightarrow> same_queue d d'" "insert_subscription i name d = Ok d' \<Longrightarrow> same_queue d d'"
  "upsert_send_as adr i on d = Ok d' \<Longrightarrow> same_queue d d'"
  "insert_credential i sel lab phc sc now d = Ok (x, d') \<Longrightarrow> same_queue d d'"
  "insert_account login q now d = Ok (x, d') \<Longrightarrow> same_queue d d'"
  by (auto simp: same_queue_defs split: if_splits)

lemma identity_operations_same:
  "within same_queue (finish_authentication w p)"
  "within same_queue (create_credential w login sel lab sc phc)"
  "within same_queue (revoke_credential w sel)"
  "within same_queue (disable_account w login)"
  "within same_queue (set_send_as w login adr on)"
  unfolding finish_authentication_def create_credential_def revoke_credential_def disable_account_def set_send_as_def current_def
  by (auto intro!: sameq.within_rules dest: same_queue_statements)

lemmas identity_operations_queue =
  same_queue_le [OF identity_operations_mail(1) identity_operations_same(1)]
  same_queue_le [OF identity_operations_mail(2) identity_operations_same(2)]
  same_queue_le [OF identity_operations_mail(3) identity_operations_same(3)]
  same_queue_le [OF identity_operations_mail(4) identity_operations_same(4)]
  same_queue_le [OF identity_operations_mail(5) identity_operations_same(5)]

lemma random_same_queue [simp]: "within same_queue (random_u32 w)"
  by (rule sameq.within_read) (simp add: random_u32_def)

lemma account_operations_queue:
  "within queue_le (set_account_quota w adr n)" "within queue_le (create_account w adr n)"
proof -
  have "within same_queue (set_account_quota w adr n)"
    unfolding set_account_quota_def
    by (auto intro!: sameq.within_rules dest: same_queue_statements split: option.splits)
  with set_account_quota_keeps(1) show "within queue_le (set_account_quota w adr n)" by (rule same_queue_le)
  have "within same_queue (create_account w adr n)"
    unfolding create_account_def create_mailbox_def
    by (auto intro!: sameq.within_rules dest: same_queue_statements)
  with create_account_keeps(1) show "within queue_le (create_account w adr n)" by (rule same_queue_le)
qed

section \<open>A small queue\<close>

definition sample_delivery :: delivery_row where
  "sample_delivery = new_delivery (replicate 32 CHR ''d'') (replicate 32 CHR ''e'') ''x@y.z'' RouteRelay ''y.z'' StPending 0 1000000"

definition sample_queue_db :: database where
  "sample_queue_db = sample_mail_db\<lparr>
     blob_rows := [\<lparr>bl_id = replicate 32 CHR ''f'', bl_size = 5, bl_sha256 = replicate 64 CHR ''0'', bl_created = 0\<rparr>],
     messages := [\<lparr>ms_id = replicate 32 CHR ''e'', ms_ingest_key = replicate 32 CHR ''9'', ms_blob = replicate 32 CHR ''f'',
        ms_source = SourceSubmission, ms_reverse_path = ''a@b.c'', ms_account = Some 1, ms_accepted = 0\<rparr>],
     deliveries := [sample_delivery],
     queue_messages := [\<lparr>qm_message = replicate 32 CHR ''e'', qm_body = SevenBitBody, qm_age = 1000\<rparr>]\<rparr>"

lemmas sample_queue_defs = sample_queue_db_def sample_delivery_def new_delivery_def sample_mail_db_def sample_identity_db_def empty_database_def

lemmas integrity_defs = db_ok_def keys_ok_def refs_ok_def rows_ok_def keyed_by_def has_key_def optional_key_def account_ok_def mailbox_ok_def
  blob_ok_def message_ok_def delivery_ok_def queue_message_ok_def in_i64_def i64_min_def i64_max_def store_inv_def mail_inv_def quota_mismatches_def
  uid_mismatches_def delivery_mismatches_def quota_kept_def stored_bytes_def max_of_def queue_integrity_mismatches_def delivery_wrong_def
  lifecycle_wrong_def

lemma sample_queue_inv: "store_inv sample_queue_db"
  by (simp add: integrity_defs sample_queue_defs)

end
