(* ===== verification/Queue_Laws.thy ===== *)
theory Queue_Laws
  imports Queue_Invariant "HOL-Library.Code_Target_Nat"
begin

text \<open>
  What the queue promises to the workers that drive it: bounds on what a claim hands out, bounds on the
  delays, what recording a result does, that a lease which is gone is refused for ever, and the clock
  the queue works with.
\<close>

section \<open>Which operations touch the table of active leases\<close>

definition keeps_active :: "'a action \<Rightarrow> bool" where
  "keeps_active m \<longleftrightarrow> (\<forall>s r s'. m s = (r, s') \<longrightarrow> q_active (st_queue s') = q_active (st_queue s) \<and> q_live (st_queue s') = q_live (st_queue s))"

lemma keeps_activeD:
  "keeps_active m \<Longrightarrow> m s = (r, s') \<Longrightarrow> q_active (st_queue s') = q_active (st_queue s)"
  "keeps_active m \<Longrightarrow> m s = (r, s') \<Longrightarrow> q_live (st_queue s') = q_live (st_queue s)"
  by (auto simp: keeps_active_def)

lemma keeps_active_basic [simp]:
  "keeps_active (return x)" "keeps_active (throw e)" "keeps_active (query w q)" "keeps_active (exec w f)" "keeps_active (exec_ret w g)"
  "keeps_active (lift_res v)" "keeps_active (new_uuid w)" "keeps_active (new_guard dm)" "keeps_active (ensure b e)" "keeps_active (read_clock w)"
  "keeps_active get_queue"
  by (auto simp: keeps_active_def return_def throw_def query_def exec_def exec_ret_def lift_res_def new_uuid_def new_guard_def ensure_def
      read_clock_def get_queue_def split: if_splits sum.splits)

lemma keeps_active_andthen [intro]: "keeps_active m \<Longrightarrow> (\<And>x. keeps_active (k x)) \<Longrightarrow> keeps_active (andthen m k)"
  unfolding keeps_active_def andthen_def
proof (intro allI impI)
  fix s r s'
  assume m: "\<forall>s r s'. m s = (r, s') \<longrightarrow> q_active (st_queue s') = q_active (st_queue s) \<and> q_live (st_queue s') = q_live (st_queue s)"
    and k: "\<And>x. \<forall>s r s'. k x s = (r, s') \<longrightarrow> q_active (st_queue s') = q_active (st_queue s) \<and> q_live (st_queue s') = q_live (st_queue s)"
    and a: "(case m s of (Inl e, s') \<Rightarrow> (Inl e, s') | (Inr x, s') \<Rightarrow> k x s') = (r, s')"
  obtain v s1 where v: "m s = (v, s1)" by fastforce
  have 1: "q_active (st_queue s1) = q_active (st_queue s)" "q_live (st_queue s1) = q_live (st_queue s)" using m v by auto
  show "q_active (st_queue s') = q_active (st_queue s) \<and> q_live (st_queue s') = q_live (st_queue s)"
    using a v 1 k by (cases v) auto
qed

lemma keeps_active_if [intro]: "keeps_active m \<Longrightarrow> keeps_active m' \<Longrightarrow> keeps_active (if b then m else m')"
  by simp

lemma keeps_active_prod [intro]: "(\<And>a b. keeps_active (f a b)) \<Longrightarrow> keeps_active (case x of (a, b) \<Rightarrow> f a b)"
  by (cases x) simp

lemma keeps_active_hit_all: "hit_all w ps s = (r, s') \<Longrightarrow> st_queue s' = st_queue s"
  by (induction w ps s rule: hit_all.induct) (auto split: if_splits)

lemma keeps_active_transact [intro]:
  assumes "keeps_active body"
  shows "keeps_active (transact w cr body)"
  unfolding keeps_active_def
proof (intro allI impI)
  fix s r s'
  assume t: "transact w cr body s = (r, s')"
  have b: "q_active (st_queue s2) = q_active (st_queue s) \<and> q_live (st_queue s2) = q_live (st_queue s)" if "body (tick s) = (v, s2)" for v s2
    using keeps_activeD [OF assms that] by simp
  have c: "q_active (st_queue s') = q_active (st_queue s2) \<and> q_live (st_queue s') = q_live (st_queue s2)"
    if "commit_tx w cr old x s2 = (r, s')" for old s2 and x
    using that by (auto simp: commit_tx_def split: prod.splits sum.splits commit_outcome.splits dest!: keeps_active_hit_all)
  show "q_active (st_queue s') = q_active (st_queue s) \<and> q_live (st_queue s') = q_live (st_queue s)"
    using t by (auto simp: transact_def query_def split: if_splits prod.splits sum.splits dest!: b c)
qed

lemma keeps_active_for_each [intro]: "(\<And>x. keeps_active (f x)) \<Longrightarrow> keeps_active (for_each f xs)"
  by (induction xs) auto

lemma keeps_active_now [simp]: "keeps_active (queue_now w)"
  by (auto simp: keeps_active_def queue_now_def andthen_def read_clock_def runtime_now_def Let_def split: sum.splits prod.splits if_splits)

lemmas keeps_active_rules = keeps_active_basic keeps_active_now keeps_active_andthen keeps_active_if keeps_active_prod keeps_active_transact
  keeps_active_for_each

lemma keeps_active_scan [simp]: "keeps_active (end_scan w n)"
  unfolding end_scan_def by (intro keeps_active_rules)

lemma keeps_active_expire [simp]: "keeps_active (queue_expire w lim)"
  unfolding queue_expire_def by (intro keeps_active_rules)

lemma keeps_active_recover_loop [simp]: "keeps_active (recover_loop w now active rows n)"
  by (induction w now active rows n rule: recover_loop.induct) (auto intro!: keeps_active_rules)

lemma keeps_active_claim_loop [simp]: "keeps_active (claim_loop w hash p now active avail domains leases lst cs)"
  by (induction cs arbitrary: domains leases lst) (auto simp: Let_def take_lease_def intro!: keeps_active_rules)

lemma queue_recover_active:
  assumes "queue_recover w lim s = (Ok n, s')"
  shows "q_active (st_queue s') = filter (\<lambda>(i, g). is_alive (st_queue s) g) (q_active (st_queue s))" "q_live (st_queue s') = q_live (st_queue s)"
proof -
  let ?body = "\<lambda>now q. andthen (query w (recoverable (q_recovery_cursor q) lim)) (\<lambda>rows.
           andthen (recover_loop w now (map fst (q_active q)) rows 0) (\<lambda>n. andthen (end_scan w n) (\<lambda>_. return ((n, rows), n > 0))))"
  from assms obtain now s1 s2 rows where c: "read_clock w (s\<lparr>st_queue := retain_live (st_queue s)\<rparr>) = (Ok now, s1)"
    and t: "transact w queue_commit (?body now (st_queue s1)) s1 = (Ok (n, rows), s2)"
    and e: "s' = s2\<lparr>st_queue := (st_queue s2)\<lparr>q_recovery_cursor := if length rows = lim then fst (last rows) else []\<rparr>\<rparr>"
    unfolding queue_recover_def modify_queue_def get_queue_def
    by (auto simp: andthen_def return_def throw_def split: if_splits sum.splits prod.splits)
  have k: "keeps_active (transact w queue_commit (?body now (st_queue s1)))" by (intro keeps_active_rules keeps_active_recover_loop keeps_active_scan)
  show "q_active (st_queue s') = filter (\<lambda>(i, g). is_alive (st_queue s) g) (q_active (st_queue s))" "q_live (st_queue s') = q_live (st_queue s)"
    using c keeps_activeD [OF k t] e by (auto simp: read_clock_def retain_live_def)
qed

section \<open>Claiming\<close>

definition alive_leases :: "queue_runtime \<Rightarrow> nat" where
  "alive_leases q = length (filter (\<lambda>(i, g). is_alive q g) (q_active q))"

lemma claim_run:
  assumes run: "queue_claim w hash p lim s = (Ok ls, s')" and inv: "store_inv (st_db s)" and w: "uuid_ok w"
  obtains q where "q_active q = filter (\<lambda>(i, g). is_alive (st_queue s) g) (q_active (st_queue s))" "q_live q = q_live (st_queue s)"
    "store_inv (st_db s')" "length ls \<le> lim" "length ls \<le> po_concurrency p - length (q_active q)" "distinct (map ls_id ls)"
    "set (map ls_id ls) \<inter> set (map fst (q_active q)) = {}" "\<forall>l\<in>set ls. lease_valid l (st_db s')"
    "\<forall>dm. domain_count dm (map (gd_domain \<circ> ls_guard) ls @ active_domains q) \<le> max (po_per_domain p) (domain_count dm (active_domains q))"
    "q_active (st_queue s') = q_active (activate ls q)" "q_live (st_queue s') = q_live (activate ls q)"
proof -
  let ?avail = "\<lambda>q. min (po_concurrency p - length (q_active q)) lim"
  let ?body = "\<lambda>now q. andthen (query w (candidates_db now (case q_ready_cursor q of None \<Rightarrow> (-1, []) | Some c \<Rightarrow> c))) (\<lambda>cands.
        andthen (claim_loop w hash p now (map fst (q_active q)) (?avail q) (active_domains q) [] None cands) (\<lambda>(leases, lst).
        return ((cands, leases, lst), True)))"
  from run obtain now s1 n1 s2 n2 s3 where 1: "queue_now w s = (Ok now, s1)" and 2: "queue_recover w BATCH s1 = (Ok n1, s2)"
    and 3: "queue_expire w BATCH s2 = (Ok n2, s3)"
    and rest: "(if ?avail (st_queue s3) = 0 then return []
       else andthen (transact w queue_commit (?body now (st_queue s3))) (\<lambda>(cands, leases, lst).
         andthen (modify_queue (\<lambda>q. activate leases (q\<lparr>q_ready_cursor :=
           (if length cands < BATCH \<and> lst = position_of cands then None else lst)\<rparr>))) (\<lambda>_. return leases))) s3 = (Ok ls, s')"
    unfolding queue_claim_def get_queue_def Let_def by (auto simp: andthen_Ok tx_simps split: if_splits)
  let ?q = "st_queue s3"
  have act: "q_active ?q = filter (\<lambda>(i, g). is_alive (st_queue s) g) (q_active (st_queue s))" "q_live ?q = q_live (st_queue s)"
    using keeps_activeD [OF keeps_active_now 1] queue_recover_active [OF 2] keeps_activeD [OF keeps_active_expire 3]
    by (auto simp: is_alive_def)
  have le: "queue_le (st_db s) (st_db s3)"
    using queue_now_db [OF 1] queue_recover_within 2 queue_expire_within 3 unfolding within_def by (metis queue.R_trans)
  note inv3 = queue_le_inv [OF le inv]
  show thesis
  proof (cases "?avail ?q = 0")
    case True
    with rest have "ls = []" "s' = s3" by (auto simp: return_def)
    then show thesis using that [of ?q] act inv3 by (simp add: activate_def)
  next
    case False
    from rest False obtain cands lst s4 where t: "transact w queue_commit (?body now ?q) s3 = (Ok (cands, ls, lst), s4)"
      and e: "q_active (st_queue s') = q_active (activate ls (st_queue s4))" "q_live (st_queue s') = q_live (activate ls (st_queue s4))" "st_db s' = st_db s4"
      by (auto simp: tx_simps modify_queue_def activate_def)
    have "keeps_active (transact w queue_commit (?body now ?q))" by (intro keeps_active_rules keeps_active_claim_loop)
    note ka = keeps_activeD [OF this t]
    obtain c s5 where b: "?body now ?q (tick s3) = (Ok ((cands, ls, lst), c), s5)" "st_db s4 = (if c then st_db s5 else st_db s3)"
      using transact_OkD [OF t] by blast
    have c: "c" using b(1) by (auto simp: tx_simps)
    have "claim_ok p (?avail ?q) (map fst (q_active ?q)) (active_domains ?q) [] (st_db s3) ls (st_db s5)"
      using postD [OF claim_body_post [OF w, of "?avail ?q"] b(1)] False inv3 by simp
    then show thesis
      using that [of ?q] act e b(2) c ka queue_le_inv [OF _ inv3] by (auto simp: claim_ok_def activate_def)
  qed
qed

lemma domain_count_append: "domain_count dm (xs @ ys) = domain_count dm xs + domain_count dm ys"
  by (simp add: domain_count_def)

text \<open>
  Property C11. Claiming is bounded. A batch has at most as many leases as asked for, of different deliveries, all
  accepted by the store and all alive; the number of live leases does not exceed the policy's
  concurrency, and for no domain the policy's limit per domain, beyond what was live before; and the
  database stays consistent.
\<close>

theorem claim_bounded:
  assumes "queue_claim w hash p lim s = (Ok ls, s')" "store_inv (st_db s)" "uuid_ok w"
  shows "length ls \<le> lim \<and> distinct (map ls_id ls) \<and> (\<forall>l\<in>set ls. lease_valid l (st_db s') \<and> is_alive (st_queue s') (ls_guard l))
    \<and> alive_leases (st_queue s') \<le> max (po_concurrency p) (alive_leases (st_queue s))
    \<and> (\<forall>dm. domain_count dm (active_domains (st_queue s')) \<le> max (po_per_domain p) (domain_count dm (active_domains (st_queue s))))
    \<and> store_inv (st_db s')"
proof -
  from assms obtain q where a: "q_active q = filter (\<lambda>(i, g). is_alive (st_queue s) g) (q_active (st_queue s))" "q_live q = q_live (st_queue s)"
    and c: "store_inv (st_db s')" "length ls \<le> lim" "length ls \<le> po_concurrency p - length (q_active q)" "distinct (map ls_id ls)"
      "set (map ls_id ls) \<inter> set (map fst (q_active q)) = {}" "\<forall>l\<in>set ls. lease_valid l (st_db s')"
    and dm: "\<forall>dm. domain_count dm (map (gd_domain \<circ> ls_guard) ls @ active_domains q) \<le> max (po_per_domain p) (domain_count dm (active_domains q))"
    and e: "q_active (st_queue s') = q_active (activate ls q)" "q_live (st_queue s') = q_live (activate ls q)" by (rule claim_run)
  have "fst x \<notin> ls_id ` set ls" if "x \<in> set (q_active q)" for x
    using c(5) imageI [OF that, of fst] by auto
  then have "filter (\<lambda>(i, g). i \<notin> ls_id ` set ls) (q_active q) = q_active q" unfolding filter_id_conv case_prod_beta by blast
  then have "q_active (st_queue s') = q_active q @ map (\<lambda>l. (ls_id l, ls_guard l)) ls"
    using e(1) by (simp add: activate_def)
  moreover have alive: "\<forall>(i, g)\<in>set (q_active q). is_alive q g" using a by (auto simp: is_alive_def)
  moreover have live: "\<forall>l\<in>set ls. is_alive (st_queue s') (ls_guard l)" "\<forall>g. is_alive q g \<longrightarrow> is_alive (st_queue s') g"
    using e(2) by (auto simp: is_alive_def activate_def)
  ultimately have all: "filter (\<lambda>(i, g). is_alive (st_queue s') g) (q_active (st_queue s')) = q_active q @ map (\<lambda>l. (ls_id l, ls_guard l)) ls"
    by (auto simp: filter_id_conv)
  have old: "alive_leases (st_queue s) = length (q_active q)" "active_domains q = active_domains (st_queue s)"
    using a alive by (auto simp: alive_leases_def active_domains_def filter_id_conv is_alive_def)
  have "alive_leases (st_queue s') \<le> max (po_concurrency p) (alive_leases (st_queue s))"
    unfolding old using c(3) by (simp add: alive_leases_def all)
  moreover have "active_domains (st_queue s') = active_domains q @ map (gd_domain \<circ> ls_guard) ls"
    using alive by (simp add: active_domains_def all filter_id_conv)
  then have "\<forall>k. domain_count k (active_domains (st_queue s')) \<le> max (po_per_domain p) (domain_count k (active_domains (st_queue s)))"
    using dm old(2) by (simp add: domain_count_append add.commute)
  ultimately show ?thesis using c live by simp
qed

definition sample_claim :: "(store_error + queue_lease list) \<times> store" where
  "sample_claim = queue_claim quiet_world (\<lambda>_ _. 0) default_policy 5 (store_of sample_queue_db)"

lemma sample_claim_Ok: "map_sum id (map ls_id) (fst sample_claim) = Ok [replicate 32 CHR ''d'']"
  by code_simp

lemma quiet_uuid: "uuid_ok quiet_world"
  by (simp add: uuid_ok_def quiet_world_def)

theorem claim_bounded_witness:
  "\<exists>l. fst sample_claim = Ok [l] \<and> lease_valid l (st_db (snd sample_claim)) \<and> alive_leases (st_queue (snd sample_claim)) \<le> 16"
proof -
  obtain ls where ls: "fst sample_claim = Ok ls" "map ls_id ls = [replicate 32 CHR ''d'']"
    using sample_claim_Ok by (auto simp: res_simps)
  then obtain l where l: "ls = [l]" by auto
  have run: "queue_claim quiet_world (\<lambda>_ _. 0) default_policy 5 (store_of sample_queue_db) = (Ok ls, snd sample_claim)"
    using ls(1) unfolding sample_claim_def by (metis prod.collapse)
  have "store_inv (st_db (store_of sample_queue_db))" by (simp add: store_of_def sample_queue_inv)
  moreover have "alive_leases (st_queue (store_of sample_queue_db)) = 0" by (simp add: alive_leases_def store_of_def new_queue_runtime_def)
  ultimately show ?thesis using claim_bounded [OF run _ quiet_uuid] ls(1) l by (simp add: default_policy_def)
qed

section \<open>Delays\<close>

text \<open>
  Under a valid policy the delay before the next attempt is the configured one, plus at most the
  configured percentage of it: at least a second and at most a day and a half, in milliseconds, with
  no overflow, and from the last configured delay on always that one.
\<close>

lemma delay_bounds:
  assumes "policy_validate p = Ok ()" "0 < attempts"
  shows "\<exists>n\<in>set (po_retry_seconds p). n = po_retry_seconds p ! min (attempts - 1) (length (po_retry_seconds p) - 1)
    \<and> int n * 1000 \<le> delay_ms hash p i attempts \<and> delay_ms hash p i attempts \<le> int n * 1000 + int n * 10 * int (po_jitter_percent p)
    \<and> 1000 \<le> delay_ms hash p i attempts \<and> delay_ms hash p i attempts \<le> 129600000"
proof -
  let ?k = "min (attempts - 1) (length (po_retry_seconds p) - 1)"
  let ?n = "po_retry_seconds p ! ?k"
  from assms(1) have v: "po_retry_seconds p \<noteq> []" "\<forall>n\<in>set (po_retry_seconds p). 1 \<le> n \<and> n \<le> 86400" "po_jitter_percent p \<le> 50"
    by (auto simp: policy_validate_def list_ex_iff not_less split: if_splits)
  have m: "?n \<in> set (po_retry_seconds p)" using v(1) by (intro nth_mem) (cases "po_retry_seconds p", auto)
  then have n: "1 \<le> ?n" "?n \<le> 86400" using v(2) by auto
  define spread where "spread = ?n * 1000 * po_jitter_percent p div 100"
  have sp: "spread = ?n * 10 * po_jitter_percent p" unfolding spread_def by simp
  have h: "hash i attempts mod (spread + 1) \<le> spread" using mod_less_divisor [of "spread + 1"] by (simp add: less_Suc_eq_le)
  have d: "delay_ms hash p i attempts = int (?n * 1000 + hash i attempts mod (spread + 1))"
    by (simp add: delay_ms_def Let_def spread_def)
  have "?n * 10 * po_jitter_percent p \<le> 86400 * 10 * 50" using n v(3) by (intro mult_mono) auto
  with h n sp have "?n * 1000 + hash i attempts mod (spread + 1) \<le> 129600000" by linarith
  then have top: "delay_ms hash p i attempts \<le> 129600000" unfolding d by (metis of_nat_le_iff of_nat_numeral)
  have "int (hash i attempts mod (spread + 1)) \<le> int (?n * 10 * po_jitter_percent p)" using h sp by (simp only: of_nat_le_iff)
  then have "delay_ms hash p i attempts \<le> int ?n * 1000 + int ?n * 10 * int (po_jitter_percent p)" unfolding d by simp
  moreover have "int ?n * 1000 \<le> delay_ms hash p i attempts" unfolding d by simp
  moreover have "1000 \<le> int ?n * 1000" using n(1) by linarith
  ultimately show ?thesis using m top by (intro bexI [of _ ?n] conjI refl) auto
qed

section \<open>Leases that are gone\<close>

lemma row_later:
  assumes "queue_le d d'" "store_inv d" "r \<in> set (deliveries d)" "x \<in> set (deliveries d')" "de_id x = de_id r"
  shows "delivery_le r x"
proof -
  have inv: "store_inv d'" "rows_le delivery_le (deliveries d) (deliveries d')" using assms(1,2) by (auto simp: queue_le_def)
  then obtain y where y: "y \<in> set (deliveries d')" "delivery_le r y" using assms(3) by (auto simp: rows_le_def)
  then have "y = x" using de.keyed_same [OF store_inv_keyed [OF inv(1)]] assms(4,5) by (auto simp: delivery_le_def)
  with y show ?thesis by simp
qed

text \<open>A lease that was valid once and no longer is never becomes valid again.\<close>

lemma lease_stays_gone:
  assumes "lease_valid l d0" "queue_le d0 d1" "\<not> lease_valid l d1" "queue_le d1 d2" "store_inv d0"
  shows "\<not> lease_valid l d2"
proof
  assume "lease_valid l d2"
  then obtain r2 where r2: "leased_row d2 (ls_id l) r2" "de_token r2 = Some (ls_token l)" "de_generation r2 = ls_generation l"
    by (auto simp: lease_valid_iff)
  from assms(1) obtain r0 where r0: "leased_row d0 (ls_id l) r0" "de_token r0 = Some (ls_token l)" "de_generation r0 = ls_generation l"
    by (auto simp: lease_valid_iff)
  have inv1: "store_inv d1" by (rule queue_le_inv [OF assms(2,5)])
  obtain r1 where r1: "r1 \<in> set (deliveries d1)" "delivery_le r0 r1"
    using assms(2,5) r0(1) by (auto simp: queue_le_def rows_le_def leased_row_def)
  have 12: "delivery_le r1 r2"
    by (rule row_later [OF assms(4) inv1 r1(1)]) (use r0 r1 r2 in \<open>auto simp: leased_row_def delivery_le_def\<close>)
  have "de_generation r1 = ls_generation l" "de_token r1 = Some (ls_token l)"
    using r1(2) 12 r0 r2 by (auto simp: delivery_le_def)
  then have "lease_valid l d1"
    using row_facts [OF inv1 r1(1)] r0(1) r1 by (auto simp: lease_valid_iff leased_row_def delivery_le_def)
  with assms(3) show False by simp
qed

lemma check_lease_refused:
  assumes "\<not> lease_valid l (st_db s) \<or> gd_instance (ls_guard l) \<noteq> st_instance s"
  obtains e s1 where "check_lease w l s = (Err e, s1)" "e = StaleLease \<or> e = Database" "st_db s1 = st_db s"
proof -
  obtain r s1 where c: "check_lease w l s = (r, s1)" by fastforce
  have "r = Err StaleLease \<or> r = Err Database"
    using c assms by (auto simp: check_lease_def lease_valid_def andthen_def query_def lift_res_def split: if_splits)
  moreover have "st_db s1 = st_db s" using read_only_queue(6) [of w l s] c by simp
  ultimately show thesis using that c by blast
qed

definition refuses :: "'a action \<Rightarrow> store \<Rightarrow> bool" where
  "refuses m s \<longleftrightarrow> (\<exists>e. fst (m s) = Err e) \<and> st_db (snd (m s)) = st_db s"

lemma refuses_after_read:
  assumes "\<And>r s1. m s = (r, s1) \<Longrightarrow> st_db s1 = st_db s \<and> st_instance s1 = st_instance s"
    "\<And>x s1. m s = (Ok x, s1) \<Longrightarrow> st_db s1 = st_db s \<Longrightarrow> st_instance s1 = st_instance s \<Longrightarrow> refuses (k x) s1"
  shows "refuses (andthen m k) s"
proof -
  obtain v s1 where m: "m s = (v, s1)" by fastforce
  note db = assms(1) [OF m]
  show ?thesis
  proof (cases v)
    case (Inl e)
    with m db show ?thesis by (simp add: refuses_def andthen_def)
  next
    case (Inr x)
    with assms(2) [of x s1] m db show ?thesis by (simp add: refuses_def andthen_def)
  qed
qed

lemma refuses_throw: "refuses (throw e) s"
  by (simp add: refuses_def throw_def)

lemma refuses_if: "(b \<Longrightarrow> refuses m s) \<Longrightarrow> (\<not> b \<Longrightarrow> refuses m' s) \<Longrightarrow> refuses (if b then m else m') s"
  by simp

lemma refuses_transact:
  assumes "\<And>s1. st_db s1 = st_db s \<Longrightarrow> st_instance s1 = st_instance s \<Longrightarrow> \<exists>e. fst (body s1) = Err e"
  shows "refuses (transact w cr body) s"
proof -
  obtain e s2 where "body (tick s) = (Err e, s2)" using assms [of "tick s"] by (metis prod.collapse tick_simps)
  then show ?thesis by (simp add: refuses_def transact_def query_def)
qed

lemma clock_reads_keep:
  "read_clock w s = (r, s1) \<Longrightarrow> st_db s1 = st_db s \<and> st_instance s1 = st_instance s"
  "queue_now w s = (r, s1) \<Longrightarrow> st_db s1 = st_db s \<and> st_instance s1 = st_instance s"
  "notification_due w now s = (r, s1) \<Longrightarrow> st_db s1 = st_db s \<and> st_instance s1 = st_instance s"
proof -
  show "read_clock w s = (r, s1) \<Longrightarrow> st_db s1 = st_db s \<and> st_instance s1 = st_instance s" by (auto simp: read_clock_def)
  have q: "st_db s1 = st_db s \<and> st_instance s1 = st_instance s" if "queue_now w s = (r, s1)" for r s1
    using that by (auto simp: queue_now_def andthen_def read_clock_def Let_def split: sum.splits prod.splits)
  then show "queue_now w s = (r, s1) \<Longrightarrow> st_db s1 = st_db s \<and> st_instance s1 = st_instance s" .
  assume n: "notification_due w now s = (r, s1)"
  obtain v s2 where v: "queue_now w s = (v, s2)" by fastforce
  then have "s1 = s2" using n by (auto simp: notification_due_def split: if_splits)
  with q [OF v] show "st_db s1 = st_db s \<and> st_instance s1 = st_instance s" by simp
qed

lemma refused_owner:
  assumes stale: "\<not> lease_valid l (st_db s) \<or> gd_instance (ls_guard l) \<noteq> st_instance s"
  shows "refuses (queue_renew w l n) s" "refuses (queue_mark_body w l) s" "refuses (queue_finish w l out) s" "refuses (queue_open_body w files l) s"
proof -
  have chk: "\<exists>e. fst (andthen (check_lease w l) k s1) = Err e" if "st_db s1 = st_db s" "st_instance s1 = st_instance s"
    for k :: "lease_phase \<Rightarrow> 'b action" and s1
    using check_lease_refused [of l s1 w] stale that by (simp add: andthen_def) fastforce
  have tx: "refuses (transact w cr (andthen (check_lease w l) k)) s1" if "st_db s1 = st_db s" "st_instance s1 = st_instance s"
    for cr and k :: "lease_phase \<Rightarrow> ('c \<times> bool) action" and s1
    by (rule refuses_transact, rule chk) (use that in auto)
  show "refuses (queue_renew w l n) s"
    unfolding queue_renew_def
    by (intro refuses_if refuses_throw refuses_after_read tx) (auto dest: clock_reads_keep)
  show "refuses (queue_mark_body w l) s" unfolding queue_mark_body_def by (rule tx) simp_all
  show "refuses (queue_finish w l out) s"
    unfolding queue_finish_def by (intro refuses_after_read tx) (auto dest: clock_reads_keep)
  show "refuses (queue_open_body w files l) s"
    using check_lease_refused [OF stale, of w] unfolding queue_open_body_def refuses_def by (fastforce simp: andthen_def)
qed

section \<open>Results\<close>

text \<open>The state a result leads to, in one table: a result after an earlier unknown outcome stays unknown
  unless the peer accepted the message now.\<close>

definition result_state :: "queue_result \<Rightarrow> lease_phase \<Rightarrow> bool \<Rightarrow> delivery_state" where
  "result_state out phase was_unknown =
     (case out of
        ResDelivered _ \<Rightarrow> StDelivered
      | ResConnectionLost \<Rightarrow> if was_unknown \<or> phase = PhaseBody then StUncertain else StDeferred
      | ResTemporary _ \<Rightarrow> if was_unknown then StUncertain else StDeferred
      | ResPermanent _ \<Rightarrow> if was_unknown then StUncertain else StFailed
      | ResHold \<Rightarrow> if was_unknown then StUncertain else StHold
      | ResDeferred \<Rightarrow> if was_unknown then StUncertain else StDeferred)"

definition result_allowed :: "queue_result \<Rightarrow> lease_phase \<Rightarrow> bool" where
  "result_allowed out phase =
     (case out of
        ResDelivered c \<Rightarrow> 200 \<le> c \<and> c < 300 \<and> phase = PhaseBody
      | ResTemporary c \<Rightarrow> 400 \<le> c \<and> c < 500
      | ResPermanent c \<Rightarrow> 500 \<le> c \<and> c < 600
      | ResConnectionLost \<Rightarrow> True
      | ResHold \<Rightarrow> True
      | ResDeferred \<Rightarrow> phase = PhaseReady)"

lemma classify_table:
  assumes "classify out phase = Ok (st, cd, diag)"
  shows "result_allowed out phase" "result_state out phase b = (if b \<and> st \<noteq> StDelivered then StUncertain else st)"
  using assms by (auto simp: classify_def result_allowed_def result_state_def split: queue_result.splits if_splits)

lemma finish_effect:
  assumes "queue_finish w l out s = (Ok (), s')" "store_inv (st_db s)"
  shows "\<exists>r ph. r \<in> set (deliveries (st_db s)) \<and> de_id r = ls_id l \<and> lease_row_db l (st_db s) = Some ph \<and> result_allowed out ph
    \<and> (\<exists>r'\<in>set (deliveries (st_db s')). de_id r' = ls_id l \<and> de_state r' = result_state out ph (de_possibly r)
        \<and> (de_possibly r' \<longleftrightarrow> de_state r' = StUncertain))
    \<and> \<not> lease_valid l (st_db s')
    \<and> {x \<in> set (deliveries (st_db s')). de_id x \<noteq> ls_id l} = {x \<in> set (deliveries (st_db s)). de_id x \<noteq> ls_id l}"
proof -
  let ?body = "\<lambda>now due. andthen (check_lease w l) (\<lambda>phase.
        andthen (query w (\<lambda>d. map_option de_possibly (first_row (\<lambda>r. de_id r = ls_id l) (deliveries d)))) (\<lambda>row.
        andthen (lift_res (ok_or row Database)) (\<lambda>was_unknown.
        andthen (lift_res (classify out phase)) (\<lambda>(st, cd, diag).
        let (st', diag') = (if was_unknown \<and> st \<noteq> StDelivered
              then (StUncertain, ''retry ended; earlier outcome remains unknown'') else (st, diag)) in
        andthen (exec w (update_deliveries (\<lambda>r. de_id r = ls_id l)
          (finish_row st' cd diag' (saturating_add_i64 now (ls_retry_ms l)) (result_reason out) due))) (\<lambda>_.
        andthen (exec w (delete_lease (ls_id l))) (\<lambda>_. return ((), True)))))))"
  from assms(1) obtain now s1 due s2 where c: "read_clock w s = (Ok now, s1)" "notification_due w now s1 = (Ok due, s2)"
    and t: "transact w queue_commit (?body now due) s2 = (Ok (), s')"
    by (auto simp: queue_finish_def andthen_Ok)
  have db: "st_db s2 = st_db s" using clock_reads_keep(1) [OF c(1)] clock_reads_keep(3) [OF c(2)] by simp
  let ?d = "st_db s"
  let ?Q = "\<lambda>d'. \<exists>ph b st cd diag diag' nxt d1. lease_row_db l ?d = Some ph
      \<and> map_option de_possibly (first_row (\<lambda>r. de_id r = ls_id l) (deliveries ?d)) = Some b \<and> classify out ph = Ok (st, cd, diag)
      \<and> update_deliveries (\<lambda>r. de_id r = ls_id l) (finish_row (if b \<and> st \<noteq> StDelivered then StUncertain else st) cd diag' nxt (result_reason out) due) ?d = Ok d1
      \<and> delete_lease (ls_id l) d1 = Ok d'"
  have body: "post (?body now due) (st_db (tick s2)) (\<lambda>(x, c) d'. c \<and> Q d')"
    if fin: "\<And>ph b st cd diag diag' nxt d1 d2. lease_row_db l ?d = Some ph \<Longrightarrow>
      map_option de_possibly (first_row (\<lambda>r. de_id r = ls_id l) (deliveries ?d)) = Some b \<Longrightarrow> classify out ph = Ok (st, cd, diag) \<Longrightarrow>
      update_deliveries (\<lambda>r. de_id r = ls_id l) (finish_row (if b \<and> st \<noteq> StDelivered then StUncertain else st) cd diag' nxt (result_reason out) due) ?d = Ok d1 \<Longrightarrow>
      delete_lease (ls_id l) d1 = Ok d2 \<Longrightarrow> Q d2" for Q
    unfolding tick_simps db
    by (intro post_rules post_check_lease) (auto simp: res_simps Let_def intro!: post_rules fin split: if_splits)
  obtain c s3 where b: "?body now due (tick s2) = (Ok ((), c), s3)" "st_db s' = (if c then st_db s3 else st_db s2)"
    using transact_OkD [OF t] by blast
  have "case ((), c) of (x, c) \<Rightarrow> c \<and> ?Q (st_db s3)"
    using postD [OF body [where Q = ?Q] b(1)] by (simp only: prod.case) (drule meta_mp, blast+)
  then have "?Q (st_db s')" using b(2) by (simp only: prod.case if_True)
  then obtain ph b st cd diag diag' nxt d1 where q: "lease_row_db l ?d = Some ph"
      "map_option de_possibly (first_row (\<lambda>r. de_id r = ls_id l) (deliveries ?d)) = Some b" "classify out ph = Ok (st, cd, diag)"
      and u: "update_deliveries (\<lambda>r. de_id r = ls_id l) (finish_row (if b \<and> st \<noteq> StDelivered then StUncertain else st) cd diag' nxt (result_reason out) due) ?d = Ok d1"
      and del: "delete_lease (ls_id l) d1 = Ok (st_db s')" by blast
  let ?f = "finish_row (if b \<and> st \<noteq> StDelivered then StUncertain else st) cd diag' nxt (result_reason out) due"
  from q(1) obtain r where r: "leased_row ?d (ls_id l) r" by (rule lease_row_facts)
  have b: "b = de_possibly r" by (rule possibly_row [OF store_inv_ok [OF assms(2)] r q(2)])
  have eq: "deliveries (st_db s') = map (\<lambda>x. if de_id x = ls_id l then ?f x else x) (deliveries ?d)"
    using update_deliveries_eq [OF u] delete_lease_eq [OF del] by simp
  have "?f r \<in> set (deliveries (st_db s'))" using r by (auto simp: eq leased_row_def intro!: image_eqI [of _ _ r])
  moreover have "\<not> lease_valid l (st_db s')" unfolding lease_valid_iff delete_lease_eq [OF del] by (auto simp: has_key_def)
  moreover have "{x \<in> set (deliveries (st_db s')). de_id x \<noteq> ls_id l} = {x \<in> set (deliveries ?d). de_id x \<noteq> ls_id l}"
    by (auto simp: eq finish_row_def intro: rev_image_eqI)
  ultimately show ?thesis
    using r q(1) classify_table [OF q(3)] b
    by (intro exI [of _ r] exI [of _ ph] conjI bexI [of _ "?f r"]) (auto simp: leased_row_def finish_row_def)
qed


definition sample_lease :: queue_lease where
  "sample_lease = (case fst sample_claim of Inr (l # _) \<Rightarrow> l | _ \<Rightarrow> \<lparr>ls_id = [], ls_token = [], ls_generation = 0,
     ls_guard = \<lparr>gd_number = 0, gd_instance = 0, gd_domain = []\<rparr>, ls_retry_ms = 0, ls_message = [], ls_recipient = Address [], ls_sender = None,
     ls_body = SevenBitBody, ls_blob = [], ls_stored_size = 0, ls_submission = False\<rparr>)"

lemma sample_claim_inv: "store_inv (st_db (snd sample_claim))"
proof -
  have "queue_le (st_db (store_of sample_queue_db)) (st_db (snd sample_claim))"
    using queue_claim_within [OF quiet_uuid] unfolding within_def sample_claim_def by (metis prod.collapse)
  then show ?thesis using sample_queue_inv by (auto simp: store_of_def dest: queue_le_inv)
qed

lemma sample_finish_Ok: "fst (queue_finish quiet_world sample_lease (ResTemporary 450) (snd sample_claim)) = Ok ()"
  by code_simp


section \<open>The guarded clock\<close>

text \<open>A sequence of readings of the wall clock and the monotonic clock, and what the queue makes of each.\<close>

fun clock_run :: "(int \<times> nat) list \<Rightarrow> queue_runtime \<Rightarrow> (store_error + int) list" where
  "clock_run [] q = []"
| "clock_run ((now, m) # readings) q = (case runtime_now now m q of (r, q') \<Rightarrow> r # clock_run readings q')"

lemma clock_run_changed: "q_clock_changed q \<Longrightarrow> list_all (\<lambda>r. r = Err ClockChanged) (clock_run readings q)"
  by (induction readings q rule: clock_run.induct) (auto simp: runtime_now_def Let_def)

lemma clock_run_step:
  assumes "\<not> q_clock_changed q"
  shows "clock_run ((now, m) # readings) q =
    (if clock_skewed q now m then replicate (Suc (length readings)) (Err ClockChanged)
     else Ok now # clock_run readings (q\<lparr>q_clock := (case q_clock q of None \<Rightarrow> Some (now, m) | Some c \<Rightarrow> Some c), q_last_wall := Some now\<rparr>))"
proof -
  have "clock_run rs q' = replicate (length rs) (Err ClockChanged)" if "q_clock_changed q'" for rs q'
    using clock_run_changed [OF that, of rs] that
    by (induction rs q' rule: clock_run.induct) (auto simp: runtime_now_def Let_def)
  moreover have same: "q\<lparr>q_clock := c, q_clock_changed := False, q_last_wall := l\<rparr> = q\<lparr>q_clock := c, q_last_wall := l\<rparr>" for c l
    using assms by (cases q) simp
  ultimately show ?thesis using assms by (simp add: runtime_now_def Let_def same)
qed

lemma clock_run_from:
  assumes "\<not> q_clock_changed q" "q_clock q = Some (w0, m0)" "q_last_wall q = Some lst" "j < length readings" "clock_run readings q ! j = Ok t"
  shows "t = fst (readings ! j) \<and> lst \<le> t \<and> \<bar>(t - w0) - (int (snd (readings ! j)) - int m0)\<bar> \<le> 60000
    \<and> (\<forall>i<j. clock_run readings q ! i = Ok (fst (readings ! i)) \<and> fst (readings ! i) \<le> t)"
  using assms
proof (induction readings arbitrary: q lst j)
  case (Cons x readings)
  obtain now m where x: "x = (now, m)" by fastforce
  note step = clock_run_step [OF Cons.prems(1), of now m readings]
  let ?q = "q\<lparr>q_clock := (case q_clock q of None \<Rightarrow> Some (now, m) | Some c \<Rightarrow> Some c), q_last_wall := Some now\<rparr>"
  have ok: "\<not> clock_skewed q now m" using Cons.prems(4,5) step by (auto simp: x simp del: replicate_Suc split: if_splits)
  with step have run: "clock_run (x # readings) q = Ok now # clock_run readings ?q" by (simp add: x)
  have le: "lst \<le> now" "\<bar>(now - w0) - (int m - int m0)\<bar> \<le> 60000" using ok Cons.prems(2,3) by (auto simp: clock_skewed_def)
  show ?case
  proof (cases j)
    case 0
    with run Cons.prems(5) le show ?thesis by (simp add: x)
  next
    case (Suc k)
    have IH: "t = fst (readings ! k) \<and> now \<le> t \<and> \<bar>(t - w0) - (int (snd (readings ! k)) - int m0)\<bar> \<le> 60000
      \<and> (\<forall>i<k. clock_run readings ?q ! i = Ok (fst (readings ! i)) \<and> fst (readings ! i) \<le> t)"
      by (rule Cons.IH) (use Cons.prems run Suc in auto)
    then show ?thesis using le Suc run by (auto simp: x less_Suc_eq_0_disj)
  qed
qed simp

text \<open>
  Property C17. A time the queue works with comes from an unbroken run of readings: every reading before it was
  accepted too, none of them was later than it, and the wall clock has moved from the first reading
  by the same amount as the monotonic clock, give or take a minute. After one reading that does not fit, no
  further reading is accepted.
\<close>

theorem clock_guard:
  assumes "j < length readings" "clock_run readings new_queue_runtime ! j = Ok t"
  shows "t = fst (readings ! j) \<and> (\<forall>i\<le>j. clock_run readings new_queue_runtime ! i = Ok (fst (readings ! i)) \<and> fst (readings ! i) \<le> t)
    \<and> \<bar>(t - fst (readings ! 0)) - (int (snd (readings ! j)) - int (snd (readings ! 0)))\<bar> \<le> 60000"
proof -
  obtain now m rest where r: "readings = (now, m) # rest" using assms(1) by (cases readings) auto
  let ?q = "new_queue_runtime\<lparr>q_clock := Some (now, m), q_last_wall := Some now\<rparr>"
  have run: "clock_run readings new_queue_runtime = Ok now # clock_run rest ?q"
    using clock_run_step [of new_queue_runtime now m rest] by (simp add: r new_queue_runtime_def clock_skewed_def)
  show ?thesis
  proof (cases j)
    case 0
    with run assms(2) show ?thesis by (simp add: r)
  next
    case (Suc k)
    have past: "t = fst (rest ! k) \<and> now \<le> t \<and> \<bar>(t - now) - (int (snd (rest ! k)) - int m)\<bar> \<le> 60000
      \<and> (\<forall>i<k. clock_run rest ?q ! i = Ok (fst (rest ! i)) \<and> fst (rest ! i) \<le> t)"
      by (rule clock_run_from) (use assms Suc run in \<open>auto simp: r new_queue_runtime_def\<close>)
    have "clock_run readings new_queue_runtime ! i = Ok (fst (readings ! i)) \<and> fst (readings ! i) \<le> t" if "i \<le> j" for i
    proof (cases i)
      case 0
      with run past show ?thesis by (simp add: r)
    next
      case (Suc i')
      with that \<open>j = Suc k\<close> run past assms(2) show ?thesis by (cases "i' = k") (auto simp: r)
    qed
    moreover have "\<bar>(t - fst (readings ! 0)) - (int (snd (readings ! j)) - int (snd (readings ! 0)))\<bar> \<le> 60000" "t = fst (readings ! j)"
      using past Suc by (auto simp: r)
    ultimately show ?thesis by blast
  qed
qed

theorem clock_guard_witness: "clock_run [(1000, 0), (2000, 1000), (1500, 1500), (3000, 2000)] new_queue_runtime ! 1 = Ok 2000 \<and> (1000::int) \<le> 2000"
proof -
  have "clock_run [(1000, 0), (2000, 1000), (1500, 1500), (3000, 2000)] new_queue_runtime ! 1 = Ok 2000"
    by (simp add: runtime_now_def clock_skewed_def new_queue_runtime_def Let_def)
  with clock_guard [OF _ this] show ?thesis by simp
qed

end
