(* ===== verification/Notification.thy ===== *)
theory Notification
  imports Queue_Laws
begin

text \<open>
  Failure reports, \<open>crates/store/src/notification.rs\<close>: the policy, the text of a report, choosing the next
  failed delivery, preparing the report's file and recording report, link and delivery in one
  transaction. The date in a report is written by the \<open>time\<close> package; its rendering of a Unix time is
  a parameter.
\<close>

section \<open>Model\<close>

definition MAX_REPORT :: nat where
  "MAX_REPORT = 16384"

definition RETRY_MS :: int where
  "RETRY_MS = 60000"

record notification_policy =
  np_hostname :: string
  np_local_domains :: "string list"
  np_age :: nat

definition notification_validate :: "notification_policy \<Rightarrow> store_error + address" where
  "notification_validate p =
     (if \<not> valid_domain (np_hostname p) \<or> np_local_domains p = [] \<or> length (np_local_domains p) > 100
        \<or> list_ex (\<lambda>d. \<not> valid_domain d) (np_local_domains p) \<or> \<not> (1 \<le> np_age p \<and> np_age p \<le> 604800)
      then Err InvalidInput
      else case parse (''postmaster@'' @ hd (np_local_domains p)) of Err _ \<Rightarrow> Err InvalidInput | Ok a \<Rightarrow> Ok a)"

record notification_plan =
  pl_delivery :: string
  pl_report :: string
  pl_recipient :: address
  pl_local :: bool
  pl_age :: nat

record failure =
  fl_id :: string
  fl_message :: string
  fl_sender :: string
  fl_recipient :: string
  fl_source :: msg_source
  fl_authenticated :: bool
  fl_reason :: "lifecycle_reason option"
  fl_code :: "nat option"

definition report_status :: "failure \<Rightarrow> string" where
  "report_status f = (if fl_reason f = Some Expired then ''5.4.7'' else ''5.0.0'')"

definition report_diagnostic :: "failure \<Rightarrow> string" where
  "report_diagnostic f =
     (if fl_reason f = Some Expired then ''x-rustymail; delivery lifetime exceeded''
      else case fl_code f of
        Some c \<Rightarrow> if 500 \<le> c \<and> c < 600 then ''smtp; '' @ show_nat c @ '' (remote text omitted)''
                  else ''x-rustymail; permanent delivery failure''
      | None \<Rightarrow> ''x-rustymail; permanent delivery failure'')"

text \<open>The text of a report, line by line; every line ends with CR LF.\<close>

definition report_lines :: "failure \<Rightarrow> notification_plan \<Rightarrow> notification_policy \<Rightarrow> address \<Rightarrow> string \<Rightarrow> address \<Rightarrow> string list" where
  "report_lines f plan policy postmaster date recipient =
     (let boundary = ''rustymail-'' @ pl_report plan in
      (if pl_local plan then [''Return-Path: <>''] else []) @
      [''From: Mail Delivery Subsystem <'' @ as_str postmaster @ ''>'',
       ''To: '' @ as_str (pl_recipient plan),
       ''Date: '' @ date,
       ''Message-ID: <'' @ pl_report plan @ ''@'' @ np_hostname policy @ ''>'',
       ''Subject: Delivery failure'',
       ''Auto-Submitted: auto-generated'',
       ''X-Rustymail-Original-Message: '' @ fl_message f,
       ''MIME-Version: 1.0'',
       ''Content-Type: multipart/report; report-type=delivery-status;'',
       '' boundary='' @ [CHR 0x22] @ boundary @ [CHR 0x22],
       [],
       ''--'' @ boundary,
       ''Content-Type: text/plain; charset=us-ascii'',
       ''Content-Transfer-Encoding: 7bit'',
       [],
       ''Delivery failed for '' @ as_str recipient @ ''.'',
       ''Original acceptance ID: '' @ fl_message f,
       ''Status: '' @ report_status f @ ''. Other recipients, if any, have independent outcomes.'',
       ''Original headers and content are omitted for privacy.'',
       [],
       ''--'' @ boundary,
       ''Content-Type: message/delivery-status'',
       [],
       ''Reporting-MTA: dns; '' @ np_hostname policy,
       [],
       ''Final-Recipient: rfc822; '' @ as_str recipient,
       ''Action: failed'',
       ''Status: '' @ report_status f,
       ''Diagnostic-Code: '' @ report_diagnostic f,
       ''Final-Log-ID: '' @ fl_id f,
       [],
       ''--'' @ boundary @ ''--''])"

definition render :: "(int \<Rightarrow> string option) \<Rightarrow> failure \<Rightarrow> notification_plan \<Rightarrow> notification_policy \<Rightarrow> address \<Rightarrow> int \<Rightarrow> store_error + bytes" where
  "render rfc2822 f plan policy postmaster now =
     rbind (parse_stored (fl_recipient f)) (\<lambda>recipient.
     rbind (ok_or (rfc2822 (now div 1000)) InvalidInput) (\<lambda>date.
     let b = concat (map (\<lambda>l. l @ CRLF) (report_lines f plan policy postmaster date recipient)) in
     if length b > MAX_REPORT then Err SizeLimit else Ok b))"

text \<open>The oldest due failure without a report.\<close>

definition failed_due :: "int \<Rightarrow> delivery_row \<Rightarrow> bool" where
  "failed_due now r \<longleftrightarrow> de_route r = RouteRelay \<and> de_state r = StFailed \<and> de_note r = NotePending \<and> de_note_due r \<le> now"

definition next_failure :: "int \<Rightarrow> database \<Rightarrow> failure option" where
  "next_failure now d = first_of
     [\<lparr>fl_id = de_id r, fl_message = ms_id m, fl_sender = ms_reverse_path m, fl_recipient = de_recipient r,
       fl_source = ms_source m, fl_authenticated = (ms_account m \<noteq> None), fl_reason = de_reason r, fl_code = de_code r\<rparr>.
      r \<leftarrow> sort_key (\<lambda>r. (de_note_due r, de_id r)) (filter (failed_due now) (deliveries d)),
      m \<leftarrow> messages d, ms_id m = de_message r]"

definition suppression :: "failure \<Rightarrow> string option" where
  "suppression f =
     (if fl_source f = SourceDsn then Some ''dsn_loop_suppressed''
      else if fl_sender f = [] then Some ''null_reverse_path''
      else if fl_source f \<noteq> SourceSubmission \<or> \<not> fl_authenticated f then Some ''source_not_eligible''
      else None)"

definition suppress :: "string \<Rightarrow> string \<Rightarrow> database \<Rightarrow> store_error + database" where
  "suppress i reason = update_deliveries (\<lambda>r. de_id r = i \<and> de_note r = NotePending)
     (\<lambda>r. r\<lparr>de_note := NoteSuppressed, de_note_error := Some reason\<rparr>)"

definition failure_reason :: "store_error \<Rightarrow> string" where
  "failure_reason e =
     (if e = Quota then ''recipient_quota''
      else if e = RecipientUnavailable then ''recipient_unavailable''
      else if e = UidExhausted then ''recipient_counter_exhausted''
      else if e = DiskReserve then ''disk_or_temporary_budget''
      else if e = SizeLimit then ''report_size_limit''
      else ''storage_unavailable'')"

definition postpone :: "string \<Rightarrow> string \<Rightarrow> int \<Rightarrow> database \<Rightarrow> store_error + database" where
  "postpone i reason due = update_deliveries (\<lambda>r. de_id r = i \<and> de_state r = StFailed \<and> de_note r = NotePending)
     (\<lambda>r. r\<lparr>de_note_error := Some reason, de_note_due := due\<rparr>)"

definition notification_failed :: "world \<Rightarrow> string \<Rightarrow> store_error \<Rightarrow> unit action" where
  "notification_failed w i e =
     (if \<not> valid_id i then throw InvalidId
      else andthen (queue_now w) (\<lambda>now.
        autocommit w (exec w (postpone i (failure_reason e) (saturating_add_i64 now RETRY_MS)))))"

text \<open>What is done with the chosen failure before its file is created.\<close>

definition compose_report :: "world \<Rightarrow> (int \<Rightarrow> string option) \<Rightarrow> store_options \<Rightarrow> notification_policy \<Rightarrow> address \<Rightarrow> int \<Rightarrow> failure \<Rightarrow>
    (notification_plan \<times> bytes) action" where
  "compose_report w rfc2822 opts policy postmaster now f =
     andthen (lift_res (parse_stored (fl_sender f))) (\<lambda>recipient.
     andthen (new_uuid w) (\<lambda>report.
     let is_local = list_ex (\<lambda>d. eq_ignore_ascii_case d (domain recipient)) (np_local_domains policy);
         plan = \<lparr>pl_delivery = fl_id f, pl_report = report, pl_recipient = recipient, pl_local = is_local, pl_age = np_age policy\<rparr> in
     andthen (lift_res (render rfc2822 f plan policy postmaster now)) (\<lambda>b.
     andthen (if is_local then preflight w (local_key recipient) (length b) else return ()) (\<lambda>_.
     andthen (ensure (length b \<le> min (opt_max_message_bytes opts) MAX_REPORT) SizeLimit) (\<lambda>_.
     return (plan, b))))))"

definition report_options :: "store_options \<Rightarrow> store_options" where
  "report_options opts = opts\<lparr>opt_max_message_bytes := min (opt_max_message_bytes opts) MAX_REPORT,
     opt_stream_buffer_bytes := min (opt_stream_buffer_bytes opts) MAX_REPORT\<rparr>"

record notification_task =
  tk_plan :: notification_plan
  tk_stage :: staged
  tk_bytes :: bytes

datatype notification_work = WorkEmpty | WorkSuppressed | WorkPrepare notification_task

definition select_failure :: "world \<Rightarrow> notification_policy \<Rightarrow> (address \<times> int \<times> failure option) action" where
  "select_failure w policy =
     andthen (lift_res (notification_validate policy)) (\<lambda>postmaster.
     andthen (queue_now w) (\<lambda>now.
     andthen (query w (next_failure now)) (\<lambda>f. return (postmaster, now, f))))"

text \<open>An error is noted at the delivery before it is returned.\<close>

definition give_up :: "world \<Rightarrow> string \<Rightarrow> store_error \<Rightarrow> store \<Rightarrow> disk \<Rightarrow> (store_error + notification_work) \<times> store \<times> disk" where
  "give_up w i e s d =
     (case notification_failed w i e s of (Err e', s') \<Rightarrow> (Err e', s', d) | (Ok _, s') \<Rightarrow> (Err e, s', d))"

text \<open>The size of the file system and the space left on it are what the operating system reports.\<close>

definition notification_next :: "world \<Rightarrow> (int \<Rightarrow> string option) \<Rightarrow> nat \<Rightarrow> nat \<Rightarrow> store_options \<Rightarrow> notification_policy \<Rightarrow>
    store \<Rightarrow> disk \<Rightarrow> (store_error + notification_work) \<times> store \<times> disk" where
  "notification_next w rfc2822 tot available opts policy s d =
     (case select_failure w policy s of
        (Err e, s1) \<Rightarrow> (Err e, s1, d)
      | (Ok (postmaster, now, None), s1) \<Rightarrow> (Ok WorkEmpty, s1, d)
      | (Ok (postmaster, now, Some f), s1) \<Rightarrow>
         (case suppression f of
            Some reason \<Rightarrow>
              (case autocommit w (exec w (suppress (fl_id f) reason)) s1 of
                 (Err e, s2) \<Rightarrow> (Err e, s2, d)
               | (Ok _, s2) \<Rightarrow> (Ok WorkSuppressed, s2, d))
          | None \<Rightarrow>
              (case compose_report w rfc2822 opts policy postmaster now f s1 of
                 (Err e, s2) \<Rightarrow> give_up w (fl_id f) e s2 d
               | (Ok (plan, b), s2) \<Rightarrow>
                  (case create_stage (w_hook w (st_step s2)) tot available (report_options opts) (uuid_simple (w_uuid w (st_step s2))) d of
                     (Err e, d1) \<Rightarrow> give_up w (fl_id f) e (tick s2) d1
                   | (Ok st, d1) \<Rightarrow> (Ok (WorkPrepare \<lparr>tk_plan = plan, tk_stage = st, tk_bytes = b\<rparr>), tick s2, d1)))))"

record prepared_notification =
  pn_plan :: notification_plan
  pn_message :: prepared

text \<open>\<open>NotificationTask::prepare\<close>; the stage and the disk are those at the point where it returned.\<close>

definition prepare_task :: "(bytes \<Rightarrow> string) \<Rightarrow> (fault_point \<Rightarrow> bool) \<Rightarrow> (disk_call \<Rightarrow> bool) \<Rightarrow> write_script \<Rightarrow> notification_task \<Rightarrow> disk \<Rightarrow>
    ((store_error + prepared_notification) \<times> staged \<times> disk) option" where
  "prepare_task sha256 hook fails ws t d =
     (case append_stage hook ws (tk_stage t) d (tk_bytes t) of
        None \<Rightarrow> None
      | Some (Err e, st, d1, _) \<Rightarrow> Some (Err e, st, d1)
      | Some (Ok _, st, d1, ws') \<Rightarrow>
         (case prepare_stage sha256 hook fails ws' st d1 of
            (Err e, st2, d2) \<Rightarrow> Some (Err e, st2, d2)
          | (Ok pm, st2, d2) \<Rightarrow>
              Some (rbind (hit hook NotificationPrepared) (\<lambda>_. Ok \<lparr>pn_plan = tk_plan t, pn_message = pm\<rparr>), st2, d2)))"

definition notification_rule :: commit_rule where
  "notification_rule = \<lparr>before_commit = [(NotificationBeforeCommit, Io OtherIo)], commit_error = QueueOutcomeUnknown,
     after_commit = [(NotificationAfterCommit, QueueOutcomeUnknown)]\<rparr>"

definition eligible_db :: "notification_plan \<Rightarrow> database \<Rightarrow> bool" where
  "eligible_db plan d \<longleftrightarrow> list_ex (\<lambda>r. list_ex (\<lambda>m. ms_id m = de_message r \<and> de_id r = pl_delivery plan \<and> de_state r = StFailed
     \<and> de_route r = RouteRelay \<and> \<not> de_possibly r \<and> de_note r = NotePending \<and> ms_source m = SourceSubmission
     \<and> ms_account m \<noteq> None \<and> ms_reverse_path m = as_str (pl_recipient plan)) (messages d)) (deliveries d)"

definition mark_created :: "string \<Rightarrow> database \<Rightarrow> store_error + database" where
  "mark_created i = update_deliveries (\<lambda>r. de_id r = i) (\<lambda>r. r\<lparr>de_note := NoteCreated, de_note_error := None\<rparr>)"

definition record_report :: "world \<Rightarrow> prepared \<Rightarrow> notification_plan \<Rightarrow> int \<Rightarrow> unit action" where
  "record_report w pm plan now =
     andthen (exec w (insert_blob \<lparr>bl_id = pr_id pm, bl_size = int (pr_size pm), bl_sha256 = pr_hash pm, bl_created = now\<rparr>)) (\<lambda>_.
     andthen (exec w (insert_message \<lparr>ms_id = pl_report plan, ms_ingest_key = ''dsn:'' @ pl_delivery plan, ms_blob = pr_id pm,
        ms_source = SourceDsn, ms_reverse_path = [], ms_account = None, ms_accepted = now\<rparr>)) (\<lambda>_.
     andthen (if pl_local plan then deliver w (local_key (pl_recipient plan)) (pl_report plan) (pr_size pm) now
              else insert_relay w (pl_report plan) [as_str (pl_recipient plan)] SevenBitBody (pl_age plan) now) (\<lambda>_.
     andthen (exec w (insert_notification \<lparr>no_delivery = pl_delivery plan, no_report = pl_report plan, no_created = now\<rparr>)) (\<lambda>_.
     exec w (mark_created (pl_delivery plan))))))"

definition commit_report :: "world \<Rightarrow> prepared \<Rightarrow> notification_plan \<Rightarrow> int \<Rightarrow> (accepted_message \<times> bool) action" where
  "commit_report w pm plan now =
     andthen (query w (report_of (pl_delivery plan))) (\<lambda>old.
       case old of
         Some i \<Rightarrow> return (\<lparr>am_id = i, am_already = True\<rparr>, False)
       | None \<Rightarrow>
           andthen (query w (eligible_db plan)) (\<lambda>eligible.
           andthen (ensure eligible InvalidInput) (\<lambda>_.
           andthen (hit_fault w DatabaseWrite) (\<lambda>_.
           andthen (record_report w pm plan now) (\<lambda>_.
           return (\<lparr>am_id = pl_report plan, am_already = False\<rparr>, True))))))"

definition notification_commit :: "world \<Rightarrow> bool \<Rightarrow> prepared_notification \<Rightarrow> accepted_message action" where
  "notification_commit w same_root p =
     (if \<not> same_root then throw InvalidInput
      else andthen (queue_now w) (\<lambda>now. transact w notification_rule (commit_report w (pn_message p) (pn_plan p) now)))"

section \<open>Notifications and the invariant of the store\<close>

definition same_but_note :: "delivery_row \<Rightarrow> delivery_row \<Rightarrow> bool" where
  "same_but_note r r' \<longleftrightarrow> r'\<lparr>de_note := de_note r, de_note_error := de_note_error r, de_note_due := de_note_due r\<rparr> = r
     \<and> (de_note r' = NoteCreated \<longleftrightarrow> de_note r = NoteCreated)"

lemma note_change:
  assumes u: "update_deliveries p f d = Ok d'" and f: "\<And>r. p r \<Longrightarrow> same_but_note r (f r)"
  shows "queue_le d d'"
  unfolding queue_le_def
proof
  assume inv: "store_inv d"
  define g where "g = (\<lambda>r. if p r then f r else r)"
  have eq: "d' = d\<lparr>deliveries := map g (deliveries d)\<rparr>" using update_deliveries_eq [OF u] by (simp add: g_def)
  have g: "de_id (g r) = de_id r" "de_message (g r) = de_message r" "de_recipient (g r) = de_recipient r" "de_route (g r) = de_route r"
    "de_state (g r) = de_state r" "de_token (g r) = de_token r" "de_closed (g r) = de_closed r" "de_possibly (g r) = de_possibly r"
    "de_note (g r) = NoteCreated \<longleftrightarrow> de_note r = NoteCreated" "delivery_le r (g r)" for r
    using f [of r] by (cases r; cases "f r"; auto simp: g_def same_but_note_def delivery_le_def)+
  have ok: "db_ok d'"
  proof (rule update_deliveries_ok [where f = g and p = p])
    show "update_deliveries p g d = Ok d'" using u by (auto simp: g_def update_deliveries_def res_simps)
    show "db_ok d" by (rule store_inv_ok [OF inv])
  qed (simp_all add: g)
  have "same_mail d d'" by (simp add: eq same_mail_def)
  note stored = stored_bytes_same [OF this]
  have m: "mail_inv d" using inv by (simp add: store_inv_def)
  have "delivery_mismatches d' = 0"
    using m by (auto simp: mail_inv_def delivery_mismatches_0 eq g)
  then have "mail_inv d'"
    using m ok stored by (simp add: mail_inv_def quota_mismatches_def uid_mismatches_def quota_kept_def eq)
  moreover have "queue_integrity_mismatches d' = 0"
    using inv by (auto simp: store_inv_def queue_integrity_0 delivery_wrong_def lifecycle_wrong_def Let_def eq g)
  moreover have "set_aside (g r) = set_aside r" for r by (simp add: set_aside_def g)
  then have "audit_le d d'" using audit_le_refl [OF inv] by (auto simp: audit_le_def eq g)
  ultimately show "store_inv d' \<and> rows_le delivery_le (deliveries d) (deliveries d') \<and> audit_le d d'"
    using g(10) by (auto simp: store_inv_def rows_le_def eq)
qed

lemma suppress_le: "suppress i reason d = Ok d' \<Longrightarrow> queue_le d d'"
  unfolding suppress_def by (erule note_change) (auto simp: same_but_note_def)

lemma postpone_le: "postpone i reason due d = Ok d' \<Longrightarrow> queue_le d d'"
  unfolding postpone_def by (erule note_change) (auto simp: same_but_note_def)

lemma notification_failed_within: "within queue_le (notification_failed w i e)"
  unfolding notification_failed_def
  by (intro queue.within_if queue.within_andthen queue.within_queue_reads queue.within_reads queue.within_single queue.within_exec)
    (erule postpone_le)

lemma created_pair:
  assumes ins: "insert_notification \<lparr>no_delivery = i, no_report = rep, no_created = now\<rparr> d = Ok d1"
    and u: "mark_created i d1 = Ok d2" and inv: "store_inv d"
    and r: "r \<in> set (deliveries d)" "de_id r = i" "de_route r = RouteRelay" "de_state r = StFailed"
  shows "queue_le d d2"
proof (rule queue_row_step [OF inv, where i = i and f = "\<lambda>r. r\<lparr>de_note := NoteCreated, de_note_error := None\<rparr>" and r = r])
  have eq: "d1 = d\<lparr>notifications := notifications d @ [\<lparr>no_delivery = i, no_report = rep, no_created = now\<rparr>]\<rparr>"
    using ins by (auto simp: insert_notification_def res_simps)
  note eq2 = update_deliveries_eq [OF u [unfolded mark_created_def]]
  have ok1: "db_ok d1" by (rule insert_notification_ok [OF ins store_inv_ok [OF inv]])
  show "db_ok d2" by (rule update_deliveries_ok [OF u [unfolded mark_created_def] ok1]) simp_all
  show "same_mail d d2" "queue_messages d2 = queue_messages d" by (simp_all add: eq eq2 same_mail_def)
  show "deliveries d2 = map (\<lambda>r. if de_id r = i then r\<lparr>de_note := NoteCreated, de_note_error := None\<rparr> else r) (deliveries d)"
    by (simp add: eq eq2)
  show "j \<noteq> i \<Longrightarrow> has_key ql_delivery j (queue_leases d2) = has_key ql_delivery j (queue_leases d)" for j by (simp add: eq eq2)
  show "j \<noteq> i \<Longrightarrow> has_key no_delivery j (notifications d2) = has_key no_delivery j (notifications d)" for j
    by (auto simp: eq eq2 has_key_def)
  show "has_key no_delivery i (notifications d2) \<longleftrightarrow> de_note (r\<lparr>de_note := NoteCreated, de_note_error := None\<rparr>) = NoteCreated"
    by (simp add: eq eq2 has_key_def)
  show "has_key ql_delivery i (queue_leases d2) \<longleftrightarrow> de_state (r\<lparr>de_note := NoteCreated, de_note_error := None\<rparr>) = StLeased"
    using row_facts(2) [OF inv r(1,3)] r(2) by (simp add: eq eq2)
  show "approvals j d \<le> approvals j d2" for j by (simp add: eq eq2)
qed (use r row_facts [OF inv r(1)] in \<open>auto simp: delivery_le_def set_aside_def\<close>)

lemma record_report_Ok:
  assumes "record_report w pm plan now s = (Ok (), s')"
  obtains d1 d2 s2 s3 d4 d5 where
    "insert_blob \<lparr>bl_id = pr_id pm, bl_size = int (pr_size pm), bl_sha256 = pr_hash pm, bl_created = now\<rparr> (st_db s) = Ok d1"
    "insert_message \<lparr>ms_id = pl_report plan, ms_ingest_key = ''dsn:'' @ pl_delivery plan, ms_blob = pr_id pm,
        ms_source = SourceDsn, ms_reverse_path = [], ms_account = None, ms_accepted = now\<rparr> d1 = Ok d2"
    "(if pl_local plan then deliver w (local_key (pl_recipient plan)) (pl_report plan) (pr_size pm) now
      else insert_relay w (pl_report plan) [as_str (pl_recipient plan)] SevenBitBody (pl_age plan) now) s2 = (Ok (), s3)"
    "insert_notification \<lparr>no_delivery = pl_delivery plan, no_report = pl_report plan, no_created = now\<rparr> (st_db s3) = Ok d4"
    "mark_created (pl_delivery plan) d4 = Ok d5" "st_db s2 = d2" "st_db s' = d5"
  using assms unfolding record_report_def by (clarsimp simp: tx_simps)

lemma report_delivered:
  assumes b: "insert_blob \<lparr>bl_id = pr_id pm, bl_size = int (pr_size pm), bl_sha256 = pr_hash pm, bl_created = now\<rparr> d = Ok d1"
    and m: "insert_message \<lparr>ms_id = i, ms_ingest_key = k, ms_blob = pr_id pm, ms_source = SourceDsn, ms_reverse_path = [],
        ms_account = None, ms_accepted = now\<rparr> d1 = Ok (st_db s2)"
    and del: "(if loc then deliver w rcpt i (pr_size pm) now else insert_relay w i [rcpt'] body age now) s2 = (Ok (), s3)"
  shows "queue_le d (st_db s3)" "\<forall>r\<in>set (deliveries d). r \<in> set (deliveries (st_db s3))"
proof -
  have q2: "deliveries (st_db s2) = deliveries d" "queue_messages (st_db s2) = queue_messages d"
    using b m by (auto simp: insert_blob_def insert_message_def res_simps)
  have p2: "plain_grow d (st_db s2)" by (rule plain.R_trans [OF plain_inserts(3) [OF b] plain_inserts(4) [OF m]])
  have m2: "mail_le d (st_db s2)" by (rule mail_insert_message [OF b m]) simp
  have size: "message_bytes i (st_db s2) = int (pr_size pm)" if "mail_inv d"
    using message_bytes_insert [OF b m _ mail_inv_ok [OF that]] by simp
  have p3: "plain_grow (st_db s2) (st_db s3)"
    using del insert_relay_plain [unfolded within_def] deliver_plain by (cases loc) auto
  have "\<exists>rows. deliveries (st_db s3) = deliveries d @ rows" using p3 q2 by (auto simp: plain_grow_def)
  then show "\<forall>r\<in>set (deliveries d). r \<in> set (deliveries (st_db s3))" by auto
  show "queue_le d (st_db s3)"
  proof (cases loc)
    case True
    with del have dl: "deliver w rcpt i (pr_size pm) now s2 = (Ok (), s3)" by simp
    show ?thesis
    proof (rule queue_grow [OF _ plain.R_trans [OF p2 p3]])
      show "mail_le d (st_db s3)" using m2 deliver_keeps(1) [OF dl] size by (simp add: mail_le_def)
    qed (use deliver_appended [OF dl] deliver_queue [OF dl] q2 in \<open>auto simp: appended_def\<close>)
  next
    case False
    with del have ir: "insert_relay w i [rcpt'] body age now s2 = (Ok (), s3)" by simp
    note e = insert_relay_queue [OF ir, simplified]
    show ?thesis
    proof (rule queue_grow [OF _ plain.R_trans [OF p2 p3]])
      show "mail_le d (st_db s3)" using m2 insert_relay_within(1) ir by (auto simp: within_def intro: mail.R_trans)
      fix x assume "x \<in> set (deliveries (st_db s3))" "x \<notin> set (deliveries d)"
      with e(2) q2 have "de_message x = i" by simp
      then show "has_key qm_message (de_message x) (queue_messages (st_db s3))" by (simp add: e(1) has_key_def)
    qed (use e(1,3) q2 in auto)
  qed
qed

lemma eligible_row:
  assumes "eligible_db plan d"
  obtains r m where "r \<in> set (deliveries d)" "m \<in> set (messages d)" "ms_id m = de_message r" "de_id r = pl_delivery plan" "de_state r = StFailed"
     "de_route r = RouteRelay" "\<not> de_possibly r" "de_note r = NotePending" "ms_source m = SourceSubmission"
     "ms_account m \<noteq> None" "ms_reverse_path m = as_str (pl_recipient plan)"
  using assms by (auto simp: eligible_db_def list_ex_iff)

lemma record_report_le:
  assumes "record_report w pm plan now s = (Ok (), s')" "eligible_db plan (st_db s)"
  shows "queue_le (st_db s) (st_db s')"
proof (rule queue_leI)
  assume inv: "store_inv (st_db s)"
  obtain r where r: "r \<in> set (deliveries (st_db s))" "de_id r = pl_delivery plan" "de_state r = StFailed" "de_route r = RouteRelay"
    using assms(2) by (rule eligible_row)
  from assms(1) show "queue_le (st_db s) (st_db s')"
  proof (cases rule: record_report_Ok)
    case (1 d1 d2 s2 s3 d4 d5)
    note g = report_delivered [OF 1(1) 1(2) [folded 1(6)] 1(3)]
    have "queue_le (st_db s3) d5"
      using created_pair [OF 1(4,5) queue_le_inv [OF g(1) inv], of r] g(2) r by blast
    with g(1) 1(7) show ?thesis by (auto intro: queue.R_trans)
  qed
qed

lemma commit_report_Ok:
  assumes "commit_report w pm plan now s = (Ok (x, c), s')"
  obtains (old) i where "report_of (pl_delivery plan) (st_db s) = Some i" "x = \<lparr>am_id = i, am_already = True\<rparr>" "\<not> c" "st_db s' = st_db s"
  | (new) s1 where "report_of (pl_delivery plan) (st_db s) = None" "eligible_db plan (st_db s)" "c"
      "x = \<lparr>am_id = pl_report plan, am_already = False\<rparr>" "record_report w pm plan now s1 = (Ok (), s')" "st_db s1 = st_db s"
proof (cases "report_of (pl_delivery plan) (st_db s)")
  case (Some i)
  with assms old show thesis unfolding commit_report_def by (auto simp: tx_simps)
next
  case None
  with assms have a: "eligible_db plan (st_db s)" "c" "x = \<lparr>am_id = pl_report plan, am_already = False\<rparr>"
    unfolding commit_report_def by (auto simp: tx_simps)
  from assms None obtain s1 where "record_report w pm plan now s1 = (Ok (), s')" "st_db s1 = st_db s"
    unfolding commit_report_def by (clarsimp simp: tx_simps)
  with None a new show thesis by blast
qed

lemma notification_commit_within: "within queue_le (notification_commit w root p)"
proof -
  have "queue_le (st_db s) (st_db s')" if "commit_report w pm plan now s = (Ok (x, c), s')" for pm plan now s x c s'
    using that
  proof (cases rule: commit_report_Ok)
    case (new s1)
    with record_report_le [OF new(5)] show ?thesis by simp
  qed (simp add: queue.R_refl)
  then show ?thesis
    unfolding notification_commit_def
    by (intro queue.within_if queue.within_andthen queue.within_queue_reads queue.within_reads queue.within_transact)
qed

section \<open>The text of a report\<close>

definition printable :: "byte \<Rightarrow> bool" where
  "printable c \<longleftrightarrow> 32 \<le> code c \<and> code c \<le> 126"

definition report_line :: "bytes \<Rightarrow> bool" where
  "report_line l \<longleftrightarrow> list_all printable l \<and> length l \<le> 998"

lemma printable_wire_safe: "wire_safe c \<Longrightarrow> printable c"
  by (auto simp: wire_safe_def printable_def is_ascii_byte_def is_ascii_control_def)

lemma printable_domain: "valid_domain d \<Longrightarrow> list_all printable d"
  using valid_domain_bytes domain_byte_wire_safe printable_wire_safe by (auto simp: list_all_iff)

lemma printable_address: "addr_wf a \<Longrightarrow> list_all printable (as_str a)"
  using addr_wf_wire_safe printable_wire_safe by (auto simp: list_all_iff)

lemma printable_id: "valid_id i \<Longrightarrow> list_all printable i"
  by (auto simp: valid_id_def list_all_iff printable_def is_ascii_digit_def)

lemma printable_show_nat: "list_all printable (show_nat n)"
  using show_nat_digits [of n] by (auto simp: list_all_iff printable_def is_ascii_digit_def)

lemma length_show_nat: "n < 1000 \<Longrightarrow> length (show_nat n) \<le> 3"
  by (subst show_nat.simps, subst show_nat.simps, subst show_nat.simps) auto

lemma report_status_line: "list_all printable (report_status f)" "length (report_status f) = 5"
  by (auto simp: report_status_def printable_def code_def)

lemma report_diagnostic_line: "list_all printable (report_diagnostic f)" "length (report_diagnostic f) \<le> 60"
proof -
  have "list_all printable ''smtp; ''" "list_all printable '' (remote text omitted)''"
    "list_all printable ''x-rustymail; delivery lifetime exceeded''" "list_all printable ''x-rustymail; permanent delivery failure''"
    by (simp_all add: printable_def code_def)
  then show "list_all printable (report_diagnostic f)" using printable_show_nat by (auto simp: report_diagnostic_def split: option.split)
  show "length (report_diagnostic f) \<le> 60"
  proof (cases "fl_code f")
    case (Some c)
    then show ?thesis using length_show_nat [of c] by (auto simp: report_diagnostic_def)
  qed (simp add: report_diagnostic_def)
qed

lemma report_lines_safe:
  assumes "valid_id (fl_id f)" "valid_id (fl_message f)" "valid_id (pl_report plan)" "addr_wf (pl_recipient plan)" "addr_wf postmaster"
    "addr_wf recipient" "valid_domain (np_hostname policy)" "report_line date" "length date \<le> 64"
  shows "list_all report_line (report_lines f plan policy postmaster date recipient)"
proof -
  have ids: "length (fl_id f) = 32" "length (fl_message f) = 32" "length (pl_report plan) = 32"
    using assms(1-3) by (auto simp: valid_id_def)
  have ads: "length (as_str (pl_recipient plan)) \<le> 254" "length (as_str postmaster) \<le> 254" "length (as_str recipient) \<le> 254"
    using assms(4-6) by (auto simp: addr_wf_def)
  have dom: "length (np_hostname policy) \<le> 253" using assms(7) by (simp add: valid_domain_def)
  note lens = ids ads dom assms(9) report_status_line(2) report_diagnostic_line(2) [of f]
  note pr = printable_id [OF assms(1)] printable_id [OF assms(2)] printable_id [OF assms(3)] printable_address [OF assms(4)]
    printable_address [OF assms(5)] printable_address [OF assms(6)] printable_domain [OF assms(7)] report_status_line(1) report_diagnostic_line(1)
  have date: "list_all printable date" using assms(8) by (simp add: report_line_def)
  show ?thesis
    using lens pr date unfolding report_lines_def Let_def
    by (simp add: report_line_def printable_def code_def)
qed

lemma notification_validate_Ok:
  assumes "notification_validate policy = Ok a"
  shows "valid_domain (np_hostname policy)" "addr_wf a"
  using assms by (auto simp: notification_validate_def dest: parse_wf split: if_splits sum.splits)

lemma hex_digit_valid: "is_ascii_digit (hex_digit n) \<or> 97 \<le> code (hex_digit n) \<and> code (hex_digit n) \<le> 102"
proof -
  have "list_all (\<lambda>c. is_ascii_digit c \<or> 97 \<le> code c \<and> code c \<le> 102) ''0123456789abcdef''"
    by (simp add: is_ascii_digit_def code_def)
  moreover have "hex_digit n \<in> set ''0123456789abcdef''"
    unfolding hex_digit_def by (rule nth_mem) simp
  ultimately show ?thesis unfolding list_all_iff by blast
qed

lemma uuid_valid_id: "uuid_ok w \<Longrightarrow> valid_id (uuid_simple (w_uuid w n))"
proof -
  assume "uuid_ok w"
  then have "length (uuid_simple (w_uuid w n)) = 32" by (simp add: uuid_ok_def)
  moreover have "list_all (\<lambda>b. is_ascii_digit b \<or> 97 \<le> code b \<and> code b \<le> 102) (uuid_simple bs)" for bs
    using hex_digit_valid by (auto simp: uuid_simple_def list_all_iff)
  ultimately show ?thesis by (simp add: valid_id_def)
qed

text \<open>Where a task comes from.\<close>

lemma next_failure_Some:
  assumes "next_failure now d = Some f"
  obtains r m where "r \<in> set (deliveries d)" "m \<in> set (messages d)" "failed_due now r" "ms_id m = de_message r" "fl_id f = de_id r"
    "fl_message f = ms_id m" "fl_sender f = ms_reverse_path m" "fl_recipient f = de_recipient r" "fl_source f = ms_source m"
    "fl_authenticated f \<longleftrightarrow> ms_account m \<noteq> None"
  using first_of_Some [OF assms [unfolded next_failure_def]] by auto

lemma select_failure_Ok:
  assumes "select_failure w policy s = (Ok (pm, now, f), s1)"
  shows "notification_validate policy = Ok pm" "next_failure now (st_db s) = f" "st_db s1 = st_db s"
proof -
  from assms obtain s2 where v: "notification_validate policy = Ok pm" and q: "queue_now w s = (Ok now, s2)"
    and r: "f = next_failure now (st_db s2)" "st_db s1 = st_db s2"
    unfolding select_failure_def by (auto simp: tx_simps)
  from queue_now_db [OF q] v r show "notification_validate policy = Ok pm" "next_failure now (st_db s) = f" "st_db s1 = st_db s" by auto
qed

lemma compose_report_Ok:
  assumes "compose_report w rfc2822 opts policy pm now f s = (Ok (plan, b), s')"
  shows "st_db s' = st_db s" "pl_delivery plan = fl_id f" "parse_stored (fl_sender f) = Ok (pl_recipient plan)"
    "\<exists>n. pl_report plan = uuid_simple (w_uuid w n)" "render rfc2822 f plan policy pm now = Ok b"
    "pl_local plan \<longleftrightarrow> list_ex (\<lambda>d. eq_ignore_ascii_case d (domain (pl_recipient plan))) (np_local_domains policy)"
proof -
  have pf: "st_db s2 = st_db s1" if "preflight w k n s1 = (v, s2)" for k n s1 v s2
    using that by (auto simp: preflight_def find_target_def andthen_def query_def return_def throw_def lift_res_def split: if_splits sum.splits list.splits prod.splits)
  show "st_db s' = st_db s" "pl_delivery plan = fl_id f" "parse_stored (fl_sender f) = Ok (pl_recipient plan)"
    "\<exists>n. pl_report plan = uuid_simple (w_uuid w n)" "render rfc2822 f plan policy pm now = Ok b"
    "pl_local plan \<longleftrightarrow> list_ex (\<lambda>d. eq_ignore_ascii_case d (domain (pl_recipient plan))) (np_local_domains policy)"
    using assms unfolding compose_report_def Let_def by (auto simp: tx_simps split: if_splits dest!: pf)
qed

lemma task_origin:
  assumes "notification_next w rfc2822 tot avail opts policy s d = (Ok (WorkPrepare t), s', d')"
  obtains pm now f s1 s2 where "select_failure w policy s = (Ok (pm, now, Some f), s1)" "suppression f = None"
    "compose_report w rfc2822 opts policy pm now f s1 = (Ok (tk_plan t, tk_bytes t), s2)" "st_db s' = st_db s2"
  using assms unfolding notification_next_def give_up_def
  by (auto split: prod.splits sum.splits option.splits)

lemma render_Ok:
  assumes "render rfc2822 f plan policy pm now = Ok b"
  obtains recipient date where "parse_stored (fl_recipient f) = Ok recipient" "rfc2822 (now div 1000) = Some date"
    "b = concat (map (\<lambda>l. l @ CRLF) (report_lines f plan policy pm date recipient))" "length b \<le> MAX_REPORT"
  using assms by (auto simp: render_def res_simps Let_def split: if_splits)

lemma parse_stored_wf: "parse_stored t = Ok a \<Longrightarrow> addr_wf a"
  by (auto simp: parse_stored_def dest: parse_wf split: sum.splits)

lemma compose_report_db: "compose_report w rfc2822 opts policy pm now f s = (r, s') \<Longrightarrow> st_db s' = st_db s"
  unfolding compose_report_def preflight_def find_target_def Let_def
  by (auto simp: andthen_def query_def return_def throw_def lift_res_def new_uuid_def ensure_def split: if_splits sum.splits list.splits prod.splits)

lemma give_up_le:
  assumes "give_up w i e s d = (r, s', d')"
  shows "queue_le (st_db s) (st_db s')"
proof -
  obtain v s1 where n: "notification_failed w i e s = (v, s1)" by fastforce
  then have "queue_le (st_db s) (st_db s1)" using notification_failed_within by (auto simp: within_def)
  moreover have "s' = s1" using assms n by (auto simp: give_up_def split: sum.splits)
  ultimately show ?thesis by simp
qed

lemma select_failure_db: "select_failure w policy s = (r, s') \<Longrightarrow> st_db s' = st_db s"
  unfolding select_failure_def
  by (auto simp: andthen_def query_def return_def lift_res_def split: if_splits sum.splits prod.splits dest!: queue_now_db)

lemma notification_next_le:
  assumes "notification_next w rfc2822 tot avail opts policy s d = (r, s', d')"
  shows "queue_le (st_db s) (st_db s')"
proof -
  obtain v s1 where sel: "select_failure w policy s = (v, s1)" by fastforce
  note db = select_failure_db [OF sel]
  have sup: "queue_le (st_db s1) (st_db s2)" if "autocommit w (exec w (suppress i reason)) s1 = (x, s2)" for i reason x s2
    using queue.within_single [OF queue.within_exec, of "suppress i reason" w w] suppress_le that by (auto simp: within_def)
  from assms sel db show ?thesis
    unfolding notification_next_def
    by (auto simp: queue.R_refl split: prod.splits sum.splits option.splits
        dest!: give_up_le sup compose_report_db)
qed

section \<open>Properties\<close>

definition ids_valid :: "database \<Rightarrow> bool" where
  "ids_valid d \<longleftrightarrow> list_all (\<lambda>r. valid_id (de_id r)) (deliveries d) \<and> list_all (\<lambda>m. valid_id (ms_id m)) (messages d)"

definition printable_dates :: "(int \<Rightarrow> string option) \<Rightarrow> bool" where
  "printable_dates rfc2822 \<longleftrightarrow> (\<forall>t dt. rfc2822 t = Some dt \<longrightarrow> report_line dt \<and> length dt \<le> 64)"


definition sample_failed_db :: database where
  "sample_failed_db = sample_queue_db\<lparr>deliveries := [sample_delivery\<lparr>de_state := StFailed, de_reason := Some SmtpPermanent, de_code := Some 550\<rparr>]\<rparr>"

definition sample_policy :: notification_policy where
  "sample_policy = \<lparr>np_hostname = ''q.c'', np_local_domains = [''q.c''], np_age = 3600\<rparr>"

definition sample_next :: "(store_error + notification_work) \<times> store \<times> disk" where
  "sample_next = notification_next quiet_world (\<lambda>_. Some ''Thu, 01 Jan 1970 00:00:01 +0000'') 1000000000 1000000000
     (default_store_options\<lparr>opt_disk_reserve_bytes := 0\<rparr>) sample_policy (store_of sample_failed_db)
     \<lparr>staging = Map.empty, blobs = Map.empty, reserved = 0\<rparr>"

definition is_task :: "store_error + notification_work \<Rightarrow> bool" where
  "is_task r \<longleftrightarrow> (case r of Inl _ \<Rightarrow> False | Inr k \<Rightarrow> (case k of WorkPrepare _ \<Rightarrow> True | _ \<Rightarrow> False))"

lemma sample_next_task: "is_task (fst sample_next)"
  by code_simp


lemma report_of_snoc:
  "report_of i d = None \<Longrightarrow> notifications d' = notifications d @ [\<lparr>no_delivery = i, no_report = k, no_created = t\<rparr>] \<Longrightarrow> report_of i d' = Some k"
  by (simp add: report_of_def first_row_snoc)

lemma record_report_effect:
  assumes "record_report w pm plan now s = (Ok (), s')" "report_of (pl_delivery plan) (st_db s) = None"
  shows "report_of (pl_delivery plan) (st_db s') = Some (pl_report plan)"
    "\<exists>m\<in>set (messages (st_db s')). ms_id m = pl_report plan \<and> ms_source m = SourceDsn \<and> ms_reverse_path m = []"
    "\<forall>r\<in>set (deliveries (st_db s')). de_id r = pl_delivery plan \<longrightarrow> de_note r = NoteCreated"
proof -
  from assms(1) have "report_of (pl_delivery plan) (st_db s') = Some (pl_report plan)
    \<and> (\<exists>m\<in>set (messages (st_db s')). ms_id m = pl_report plan \<and> ms_source m = SourceDsn \<and> ms_reverse_path m = [])
    \<and> (\<forall>r\<in>set (deliveries (st_db s')). de_id r = pl_delivery plan \<longrightarrow> de_note r = NoteCreated)"
  proof (cases rule: record_report_Ok)
    case (1 d1 d2 s2 s3 d4 d5)
    let ?m = "\<lparr>ms_id = pl_report plan, ms_ingest_key = ''dsn:'' @ pl_delivery plan, ms_blob = pr_id pm,
        ms_source = SourceDsn, ms_reverse_path = [], ms_account = None, ms_accepted = now\<rparr> :: message_row"
    have "plain_grow (st_db s2) (st_db s3) \<and> messages (st_db s3) = messages (st_db s2)"
    proof (cases "pl_local plan")
      case True
      with 1(3) deliver_plain deliver_appended show ?thesis by (fastforce simp: appended_def)
    next
      case False
      with 1(3) insert_relay_plain insert_relay_effect(1) show ?thesis by (fastforce simp: appended_def within_def)
    qed
    moreover have "?m \<in> set (messages d2)" "notifications d2 = notifications (st_db s)"
      using 1(1,2) by (auto simp: insert_blob_def insert_message_def res_simps)
    moreover have "notifications d4 = notifications (st_db s3) @ [\<lparr>no_delivery = pl_delivery plan, no_report = pl_report plan, no_created = now\<rparr>]"
      "messages d4 = messages (st_db s3)"
      using 1(4) by (auto simp: insert_notification_def res_simps)
    moreover note eq = update_deliveries_eq [OF 1(5) [unfolded mark_created_def]]
    ultimately have n: "notifications d5 = notifications (st_db s) @ [\<lparr>no_delivery = pl_delivery plan, no_report = pl_report plan, no_created = now\<rparr>]"
      and m: "?m \<in> set (messages d5)" using 1(6) by (simp_all add: plain_grow_def)
    have "\<forall>r\<in>set (deliveries d5). de_id r = pl_delivery plan \<longrightarrow> de_note r = NoteCreated" using eq by auto
    with report_of_snoc [OF assms(2) n] m show ?thesis unfolding 1(7) by (intro conjI bexI [of _ ?m]) auto
  qed
  then show "report_of (pl_delivery plan) (st_db s') = Some (pl_report plan)"
    "\<exists>m\<in>set (messages (st_db s')). ms_id m = pl_report plan \<and> ms_source m = SourceDsn \<and> ms_reverse_path m = []"
    "\<forall>r\<in>set (deliveries (st_db s')). de_id r = pl_delivery plan \<longrightarrow> de_note r = NoteCreated" by blast+
qed

lemma notification_commit_Ok:
  assumes "notification_commit w root p s = (Ok a, s')"
  obtains (old) i where "report_of (pl_delivery (pn_plan p)) (st_db s) = Some i" "a = \<lparr>am_id = i, am_already = True\<rparr>" "st_db s' = st_db s"
  | (new) "report_of (pl_delivery (pn_plan p)) (st_db s) = None" "eligible_db (pn_plan p) (st_db s)"
      "a = \<lparr>am_id = pl_report (pn_plan p), am_already = False\<rparr>"
      "report_of (pl_delivery (pn_plan p)) (st_db s') = Some (pl_report (pn_plan p))"
      "\<exists>m\<in>set (messages (st_db s')). ms_id m = pl_report (pn_plan p) \<and> ms_source m = SourceDsn \<and> ms_reverse_path m = []"
      "\<forall>r\<in>set (deliveries (st_db s')). de_id r = pl_delivery (pn_plan p) \<longrightarrow> de_note r = NoteCreated"
proof -
  from assms obtain now s1 where q: "queue_now w s = (Ok now, s1)"
    and t: "transact w notification_rule (commit_report w (pn_message p) (pn_plan p) now) s1 = (Ok a, s')"
    by (auto simp: notification_commit_def tx_simps split: if_splits)
  note db = queue_now_db [OF q]
  obtain c s2 where b: "commit_report w (pn_message p) (pn_plan p) now (tick s1) = (Ok (a, c), s2)" "st_db s' = (if c then st_db s2 else st_db s1)"
    using transact_OkD [OF t] by blast
  from b(1) show thesis
  proof (cases rule: commit_report_Ok)
    case (old i)
    with that(1) b(2) db show thesis by simp
  next
    case (new s3)
    note e = record_report_effect [OF new(5)]
    from new e that(2) b(2) db show thesis by simp
  qed
qed


definition sample_report :: prepared_notification where
  "sample_report = \<lparr>pn_plan = \<lparr>pl_delivery = replicate 32 CHR ''d'', pl_report = replicate 32 CHR ''7'', pl_recipient = Address ''a@b.c'',
     pl_local = False, pl_age = 3600\<rparr>, pn_message = sample_prepared\<rparr>"

lemma sample_commit_Ok:
  "fst (notification_commit quiet_world True sample_report (store_of sample_failed_db)) = Ok \<lparr>am_id = replicate 32 CHR ''7'', am_already = False\<rparr>"
  by code_simp


end
