(* ===== verification/Store.thy ===== *)
theory Store
  imports Notification
begin

text \<open>
  The store as a whole, \<open>Store\<close> of \<open>crates/store/src/lib.rs\<close> with the operations the other files of the crate
  add to it: its steps, and what every run of them keeps: consistency of the database, fencing of
  leases, unknown outcomes, withdrawn rights. The abstract specification of leases is a fencing
  register, which the deliveries refine.
\<close>

section \<open>Authority\<close>

lemma authority_deliveries: "update_deliveries p f d = Ok d' \<Longrightarrow> keeps_identity f \<Longrightarrow> authority_le d d'"
  by (rule authority_unchanged, erule (2) update_deliveries_keeps_ok) (auto dest!: update_deliveries_eq)

lemma authority_counted: "update_counted p f d = Ok (n, d') \<Longrightarrow> keeps_identity f \<Longrightarrow> authority_le d d'"
  by (auto simp: update_counted_def res_simps elim: authority_deliveries)

lemma authority_leases:
  "update_leases p (\<lambda>q. q\<lparr>ql_phase := ph\<rparr>) d = Ok d' \<Longrightarrow> authority_le d d'" "delete_lease i d = Ok d' \<Longrightarrow> authority_le d d'"
proof -
  show "update_leases p (\<lambda>q. q\<lparr>ql_phase := ph\<rparr>) d = Ok d' \<Longrightarrow> authority_le d d'"
    by (rule authority_unchanged, erule (1) update_leases_ok) (auto simp: update_leases_def res_simps)
  show "delete_lease i d = Ok d' \<Longrightarrow> authority_le d d'"
    by (rule authority_unchanged, erule (1) delete_lease_ok) (auto simp: delete_lease_def)
qed

lemma authority_notes:
  "suppress i reason d = Ok d' \<Longrightarrow> authority_le d d'" "postpone i reason due d = Ok d' \<Longrightarrow> authority_le d d'" "mark_created i d = Ok d' \<Longrightarrow> authority_le d d'"
  unfolding suppress_def postpone_def mark_created_def
  by (rule authority_unchanged; (erule (1) update_deliveries_ok; simp | auto dest!: update_deliveries_eq))+

lemmas authority_queue_statements = authority_deliveries authority_counted authority_leases authority_notes authority_other_inserts

lemma recover_loop_authority: "within authority_le (recover_loop w now active rows n)"
  by (induction w now active rows n rule: recover_loop.induct)
    (auto intro!: authority.within_rules elim: authority_queue_statements)

lemma take_lease_authority: "within authority_le (take_lease w hash p now c rcpt)"
  unfolding take_lease_def
  by (auto intro!: authority.within_rules authority.within_queue_reads elim: authority_queue_statements split: prod.splits)

lemma claim_loop_authority: "within authority_le (claim_loop w hash p now active avail domains leases lst cs)"
  by (induction cs arbitrary: domains leases lst)
    (auto simp: Let_def intro!: authority.within_rules take_lease_authority elim: authority_queue_statements)

lemma queue_operations_authority:
  "within authority_le (queue_expire w lim)" "within authority_le (queue_recover w lim)" "within authority_le (queue_claim w hash p lim)"
  "within authority_le (queue_renew w l n)" "within authority_le (queue_mark_body w l)" "within authority_le (queue_finish w l out)"
  "within authority_le (queue_hold w i)" "within authority_le (queue_retry w i dup ext)" "within authority_le (queue_close_unknown w i note)"
proof -
  show e: "within authority_le (queue_expire w lim)" for lim
    unfolding queue_expire_def
    by (auto intro!: authority.within_rules authority.within_queue_reads elim: authority_queue_statements)
  show r: "within authority_le (queue_recover w lim)" for lim
    unfolding queue_recover_def
    by (auto intro!: authority.within_rules authority.within_queue_reads recover_loop_authority split: prod.splits)
  show "within authority_le (queue_claim w hash p lim)"
    unfolding queue_claim_def Let_def
    by (auto intro!: authority.within_rules authority.within_queue_reads claim_loop_authority e r split: prod.splits)
  show "within authority_le (queue_renew w l n)" "within authority_le (queue_mark_body w l)"
    unfolding queue_renew_def queue_mark_body_def
    by (auto intro!: authority.within_rules authority.within_queue_reads elim: authority_queue_statements)
  show "within authority_le (queue_finish w l out)"
    unfolding queue_finish_def Let_def
    by (auto intro!: authority.within_rules authority.within_queue_reads split: prod.splits)
      (erule authority_deliveries authority_leases, simp?)+
  show "within authority_le (queue_hold w i)" "within authority_le (queue_close_unknown w i note)"
    unfolding queue_hold_def queue_close_unknown_def
    by (auto intro!: authority.within_rules authority.within_queue_reads elim: authority_queue_statements)
  show "within authority_le (queue_retry w i dup ext)"
    unfolding queue_retry_def
    by (auto intro!: authority.within_rules authority.within_queue_reads elim: authority_queue_statements split: prod.splits)
qed

lemma notification_operations_authority:
  "within authority_le (notification_failed w i e)" "within authority_le (notification_commit w root p)"
proof -
  show "within authority_le (notification_failed w i e)"
    unfolding notification_failed_def
    by (auto intro!: authority.within_rules authority.within_queue_reads elim: authority_queue_statements)
  have "authority_le (st_db s) (st_db s')" if "commit_report w pm plan now s = (Ok (x, c), s')" for pm plan now s x c s'
    using that
  proof (cases rule: commit_report_Ok)
    case (new s1)
    from new(5) have "authority_le (st_db s1) (st_db s')"
    proof (cases rule: record_report_Ok)
      case (1 d1 d2 s2 s3 d4 d5)
      have "authority_le (st_db s2) (st_db s3)"
        using 1(3) deliver_authority insert_relay_within(2) by (cases "pl_local plan") (auto simp: within_def)
      moreover have "authority_le (st_db s1) (st_db s2)" "authority_le (st_db s3) (st_db s')"
        using authority.R_trans [OF authority_other_inserts(3) [OF 1(1)] authority_other_inserts(4) [OF 1(2)]]
          authority.R_trans [OF authority_other_inserts(6) [OF 1(4)] authority_notes(3) [OF 1(5)]] 1(6,7) by simp_all
      ultimately show ?thesis by (meson authority.R_trans)
    qed
    with new(6) show ?thesis by simp
  qed (simp add: authority.R_refl)
  then show "within authority_le (notification_commit w root p)"
    unfolding notification_commit_def
    by (intro authority.within_if authority.within_andthen authority.within_queue_reads authority.within_reads authority.within_transact)
qed

lemma notification_next_authority:
  assumes "notification_next w rfc2822 tot avail opts policy s d = (r, s', d')"
  shows "authority_le (st_db s) (st_db s')"
proof -
  obtain v s1 where sel: "select_failure w policy s = (v, s1)" by fastforce
  note db = select_failure_db [OF sel]
  have sup: "authority_le (st_db s1) (st_db s2)" if "autocommit w (exec w (suppress i reason)) s1 = (x, s2)" for i reason x s2
    using authority.within_single [OF authority.within_exec, of "suppress i reason" w w] authority_notes(1) that by (auto simp: within_def)
  have give: "authority_le (st_db s2) (st_db s3)" if "give_up w i e s2 k = (x, s3, k')" for i e s2 k x s3 k'
  proof -
    obtain u s4 where n: "notification_failed w i e s2 = (u, s4)" by fastforce
    then have "authority_le (st_db s2) (st_db s4)" using notification_operations_authority(1) by (auto simp: within_def)
    moreover have "s3 = s4" using that n by (auto simp: give_up_def split: sum.splits)
    ultimately show ?thesis by simp
  qed
  from assms sel db show ?thesis
    unfolding notification_next_def
    by (auto simp: authority.R_refl split: prod.splits sum.splits option.splits dest!: give sup compose_report_db)
qed

section \<open>Everything the store does\<close>

text \<open>One call of the store's interface, or the loss of a lease's last owner, or the process being
  restarted: the database is what was committed, everything in memory is new.\<close>

inductive store_step :: "world \<Rightarrow> store \<Rightarrow> store \<Rightarrow> bool" for w where
  create_account: "create_account w adr n s = (r0, s') \<Longrightarrow> store_step w s s'"
| set_quota: "set_account_quota w adr n s = (r0, s') \<Longrightarrow> store_step w s s'"
| authenticate: "finish_authentication w p s = (r0, s') \<Longrightarrow> store_step w s s'"
| create_credential: "create_credential w login sel lab sc phc s = (r1, s') \<Longrightarrow> store_step w s s'"
| revoke: "revoke_credential w sel s = (r1, s') \<Longrightarrow> store_step w s s'"
| disable: "disable_account w login s = (r1, s') \<Longrightarrow> store_step w s s'"
| send_as: "set_send_as w login adr on s = (r1, s') \<Longrightarrow> store_step w s s'"
| accept: "accept_inner w root pm plan who rl s = (r2, s') \<Longrightarrow> store_step w s s'"
| enqueue: "enqueue w root pm qp s = (r2, s') \<Longrightarrow> store_step w s s'"
| expire: "queue_expire w lim s = (r3, s') \<Longrightarrow> store_step w s s'"
| recover: "queue_recover w lim s = (r3, s') \<Longrightarrow> store_step w s s'"
| claim: "queue_claim w hash po lim s = (r4, s') \<Longrightarrow> store_step w s s'"
| renew: "queue_renew w l n s = (r0, s') \<Longrightarrow> store_step w s s'"
| mark_body: "queue_mark_body w l s = (r0, s') \<Longrightarrow> store_step w s s'"
| finish: "queue_finish w l out s = (r0, s') \<Longrightarrow> store_step w s s'"
| hold: "queue_hold w i s = (r0, s') \<Longrightarrow> store_step w s s'"
| retry: "queue_retry w i dup ext s = (r0, s') \<Longrightarrow> store_step w s s'"
| close_unknown: "queue_close_unknown w i note s = (r0, s') \<Longrightarrow> store_step w s s'"
| notify_next: "notification_next w rfc2822 tot avail opts np s dk = (r5, s', dk') \<Longrightarrow> store_step w s s'"
| notify_failed: "notification_failed w i e s = (r0, s') \<Longrightarrow> store_step w s s'"
| notify_commit: "notification_commit w root pn s = (r2, s') \<Longrightarrow> store_step w s s'"
| drop_guard: "drop_guard k s = (r0, s') \<Longrightarrow> store_step w s s'"
| restart: "store_step w s (s\<lparr>st_step := st_step s + k, st_instance := st_instance s + 1, st_queue := new_queue_runtime\<rparr>)"

abbreviation store_run :: "world \<Rightarrow> store \<Rightarrow> store \<Rightarrow> bool" where
  "store_run w \<equiv> (store_step w)\<^sup>*\<^sup>*"

lemma withinD: "within R m \<Longrightarrow> m s = (r, s') \<Longrightarrow> R (st_db s) (st_db s')"
  by (auto simp: within_def)

lemma step_queue_le:
  assumes "store_step w s s'" "uuid_ok w"
  shows "queue_le (st_db s) (st_db s')"
  using assms(1)
proof cases
  case (claim hash po lim r4)
  with assms(2) show ?thesis by (auto intro: withinD [OF queue_claim_within])
next
  case (drop_guard k r0)
  then show ?thesis by (auto simp: drop_guard_def modify_queue_def queue.R_refl)
next
  case (restart k)
  then show ?thesis by (simp add: queue.R_refl)
qed (auto intro: notification_next_le
    withinD [OF account_operations_queue(1)] withinD [OF account_operations_queue(2)]
    withinD [OF identity_operations_queue(1)] withinD [OF identity_operations_queue(2)] withinD [OF identity_operations_queue(3)]
    withinD [OF identity_operations_queue(4)] withinD [OF identity_operations_queue(5)]
    withinD [OF accept_inner_queue] withinD [OF enqueue_queue] withinD [OF queue_expire_within] withinD [OF queue_recover_within]
    withinD [OF queue_renew_within] withinD [OF queue_mark_body_within] withinD [OF queue_finish_within] withinD [OF queue_hold_within]
    withinD [OF queue_retry_within] withinD [OF queue_close_unknown_within] withinD [OF notification_failed_within]
    withinD [OF notification_commit_within])

lemma step_authority_le:
  assumes "store_step w s s'"
  shows "authority_le (st_db s) (st_db s')"
  using assms
proof cases
  case (drop_guard k r0)
  then show ?thesis by (auto simp: drop_guard_def modify_queue_def authority.R_refl)
next
  case (restart k)
  then show ?thesis by (simp add: authority.R_refl)
qed (auto intro: notification_next_authority withinD [OF set_account_quota_keeps(2)] withinD [OF create_account_keeps(2)]
    withinD [OF identity_operations_authority(1)] withinD [OF identity_operations_authority(2)] withinD [OF identity_operations_authority(3)]
    withinD [OF identity_operations_authority(4)] withinD [OF identity_operations_authority(5)]
    withinD [OF accept_inner_within(2)] withinD [OF enqueue_within(2)] withinD [OF queue_operations_authority(1)]
    withinD [OF queue_operations_authority(2)] withinD [OF queue_operations_authority(3)] withinD [OF queue_operations_authority(4)]
    withinD [OF queue_operations_authority(5)] withinD [OF queue_operations_authority(6)] withinD [OF queue_operations_authority(7)]
    withinD [OF queue_operations_authority(8)] withinD [OF queue_operations_authority(9)]
    withinD [OF notification_operations_authority(1)] withinD [OF notification_operations_authority(2)])

context db_relation
begin

lemma along_run:
  assumes "store_run w s s'" "\<And>s s'. store_step w s s' \<Longrightarrow> R (st_db s) (st_db s')"
  shows "R (st_db s) (st_db s')"
  using assms(1) by (induction rule: rtranclp_induct) (auto intro: R_refl R_trans assms(2))

end

lemma run_queue_le: "store_run w s s' \<Longrightarrow> uuid_ok w \<Longrightarrow> queue_le (st_db s) (st_db s')"
  by (erule queue.along_run) (rule step_queue_le)

lemma run_authority_le: "store_run w s s' \<Longrightarrow> authority_le (st_db s) (st_db s')"
  by (erule authority.along_run) (rule step_authority_le)

lemma empty_inv: "store_inv empty_database"
  by (simp add: integrity_defs empty_database_def)

text \<open>
  Property C8. From an empty database on, and whatever fails on the way, every database the store reaches is
  consistent: keys, references and checks of the schema hold, the quota, UID and delivery counts its
  integrity check makes are all zero, no account is over its quota, and the queue's own check finds nothing.
\<close>

theorem store_consistent:
  assumes "store_run w (store_of empty_database) s" "uuid_ok w"
  shows "db_ok (st_db s) \<and> quota_mismatches (st_db s) = 0 \<and> uid_mismatches (st_db s) = 0 \<and> delivery_mismatches (st_db s) = 0
    \<and> quota_kept (st_db s) \<and> queue_integrity_mismatches (st_db s) = 0"
proof -
  have "store_inv (st_db s)"
    using run_queue_le [OF assms] empty_inv by (auto simp: store_of_def dest: queue_le_inv)
  then show ?thesis by (simp add: store_inv_def mail_inv_def)
qed

definition sample_account :: "(store_error + unit) \<times> store" where
  "sample_account = create_account quiet_world (Address ''a@b.c'') 100 (store_of empty_database)"

theorem store_consistent_witness:
  "queue_integrity_mismatches (st_db (snd sample_account)) = 0 \<and> accounts (st_db (snd sample_account)) \<noteq> []"
proof -
  have "store_step quiet_world (store_of empty_database) (snd sample_account)"
    unfolding sample_account_def by (metis store_step.create_account prod.collapse)
  then have "store_run quiet_world (store_of empty_database) (snd sample_account)" by blast
  moreover have "accounts (st_db (snd sample_account)) \<noteq> []" by code_simp
  ultimately show ?thesis using store_consistent quiet_uuid by blast
qed

text \<open>
  Property C9. A lease fences its delivery. Once the store has stopped accepting a lease, because its result was
  recorded, because its owner was found dead or after a restart, then whatever happens
  afterwards every operation of the former owner is refused and changes nothing.
\<close>

theorem lease_fenced:
  assumes "store_inv (st_db s0)" "uuid_ok w" "lease_valid l (st_db s0)" "store_run w s0 s1" "\<not> lease_valid l (st_db s1)" "store_run w s1 s2"
  shows "refuses (queue_renew w l n) s2 \<and> refuses (queue_mark_body w l) s2 \<and> refuses (queue_finish w l out) s2
    \<and> refuses (queue_open_body w files l) s2"
proof -
  have "\<not> lease_valid l (st_db s2)"
    by (rule lease_stays_gone [OF assms(3) run_queue_le [OF assms(4,2)] assms(5) run_queue_le [OF assms(6,2)] assms(1)])
  then show ?thesis using refused_owner [of l s2] by blast
qed

definition sample_finish :: "(store_error + unit) \<times> store" where
  "sample_finish = queue_finish quiet_world sample_lease (ResTemporary 450) (snd sample_claim)"

lemma sample_lease_held: "lease_row_db sample_lease (st_db (snd sample_claim)) = Some PhaseReady"
  by code_simp

lemma sample_lease_ended: "\<not> lease_valid sample_lease (st_db (snd sample_finish))"
proof -
  have "queue_finish quiet_world sample_lease (ResTemporary 450) (snd sample_claim) = (Ok (), snd sample_finish)"
    using sample_finish_Ok unfolding sample_finish_def by (metis prod.collapse)
  from finish_effect [OF this sample_claim_inv] show ?thesis by blast
qed

theorem lease_fenced_witness: "refuses (queue_mark_body quiet_world sample_lease) (snd sample_finish)"
proof -
  have "lease_valid sample_lease (st_db (snd sample_claim))" "\<not> lease_valid sample_lease (st_db (snd sample_finish))"
    using sample_lease_held sample_lease_ended by (auto simp: lease_valid_def)
  moreover have "store_step quiet_world (snd sample_claim) (snd sample_finish)"
    unfolding sample_finish_def by (metis store_step.finish prod.collapse)
  then have "store_run quiet_world (snd sample_claim) (snd sample_finish)" by blast
  ultimately show ?thesis using lease_fenced [OF sample_claim_inv quiet_uuid] by blast
qed

text \<open>
  Property C10. A message whose outcome is unknown, or that is held, is not sent again behind the administrator's
  back: as long as no retry that accepts a possible duplicate is recorded for a delivery in one of
  these states, it stays in one of them, and claiming hands out no lease for it.
\<close>

theorem unknown_outcome_kept:
  assumes "store_inv (st_db s)" "uuid_ok w" "store_run w s s'" "r \<in> set (deliveries (st_db s))" "de_state r = StUncertain \<or> de_state r = StHold"
    "approvals (de_id r) (st_db s') = approvals (de_id r) (st_db s)"
  shows "\<exists>r'\<in>set (deliveries (st_db s')). de_id r' = de_id r \<and> (de_state r' = StUncertain \<or> de_state r' = StHold)
      \<and> (de_possibly r \<longrightarrow> de_possibly r') \<and> (\<forall>l. ls_id l = de_id r \<longrightarrow> \<not> lease_valid l (st_db s'))"
proof -
  have le: "store_inv (st_db s')" "rows_le delivery_le (deliveries (st_db s)) (deliveries (st_db s'))" "audit_le (st_db s) (st_db s')"
    using run_queue_le [OF assms(3,2)] assms(1) by (auto simp: queue_le_def)
  obtain r' where r': "r' \<in> set (deliveries (st_db s'))" "delivery_le r r'" using le(2) assms(4) by (auto simp: rows_le_def)
  have i: "de_id r' = de_id r" using r'(2) by (simp add: delivery_le_def)
  have "set_aside r" using assms(5) by (simp add: set_aside_def)
  then have "set_aside r' \<or> approvals (de_id r) (st_db s) < approvals (de_id r) (st_db s')"
    using le(3) assms(4) r'(1) i unfolding audit_le_def by blast
  then have aside: "set_aside r'" using assms(6) by simp
  have "\<not> lease_valid l (st_db s')" if "ls_id l = de_id r" for l
  proof
    assume "lease_valid l (st_db s')"
    then obtain x where x: "x \<in> set (deliveries (st_db s'))" "de_id x = ls_id l" "de_state x = StLeased"
      by (auto simp: lease_valid_iff leased_row_def)
    then have "x = r'" using de.keyed_same [OF store_inv_keyed [OF le(1)] x(1) r'(1)] that r'(2) by (simp add: delivery_le_def)
    with x(3) aside show False by (simp add: set_aside_def)
  qed
  with r' aside show ?thesis by (intro bexI [of _ r']) (auto simp: set_aside_def delivery_le_def)
qed

definition sample_unknown_db :: database where
  "sample_unknown_db = sample_queue_db\<lparr>deliveries := [sample_delivery\<lparr>de_state := StUncertain, de_possibly := True\<rparr>]\<rparr>"

definition sample_sweep :: "(store_error + queue_lease list) \<times> store" where
  "sample_sweep = queue_claim quiet_world (\<lambda>_ _. 0) default_policy 5 (store_of sample_unknown_db)"

theorem unknown_outcome_kept_witness:
  "\<exists>r'\<in>set (deliveries (st_db (snd sample_sweep))). de_state r' = StUncertain \<or> de_state r' = StHold"
proof -
  let ?r = "sample_delivery\<lparr>de_state := StUncertain, de_possibly := True\<rparr>"
  have inv: "store_inv (st_db (store_of sample_unknown_db))"
    by (simp add: integrity_defs sample_unknown_db_def sample_queue_defs store_of_def)
  have "store_step quiet_world (store_of sample_unknown_db) (snd sample_sweep)"
    unfolding sample_sweep_def by (metis store_step.claim prod.collapse)
  then have run: "store_run quiet_world (store_of sample_unknown_db) (snd sample_sweep)" by blast
  have r: "?r \<in> set (deliveries (st_db (store_of sample_unknown_db)))" "de_state ?r = StUncertain \<or> de_state ?r = StHold"
    by (simp_all add: sample_unknown_db_def store_of_def)
  have "approvals (replicate 32 CHR ''d'') (st_db (snd sample_sweep)) = approvals (replicate 32 CHR ''d'') (st_db (store_of sample_unknown_db))"
    by code_simp
  then have "approvals (de_id ?r) (st_db (snd sample_sweep)) = approvals (de_id ?r) (st_db (store_of sample_unknown_db))"
    by (simp add: sample_delivery_def new_delivery_def)
  from unknown_outcome_kept [OF inv quiet_uuid run r this] show ?thesis by blast
qed

text \<open>
  Property C16. Rights that have been withdrawn stay withdrawn: a principal the store once issued and that is no longer
  valid does not become valid again, whatever operations follow, restarts included.
\<close>

theorem authority_never_returns:
  assumes "db_ok (st_db s)" "issued p (st_db s)" "\<not> current_db p (st_db s)" "store_run w s s'"
  shows "\<not> current_db p (st_db s')"
  using no_resurrection [OF run_authority_le [OF assms(4)] assms(1,2)] assms(3) by blast

definition sample_revoked :: store where
  "sample_revoked = snd (revoke_credential quiet_world sample_selector (store_of sample_identity_db))"

theorem authority_never_returns_witness:
  "\<not> current_db sample_principal (st_db (snd (set_send_as quiet_world (Address ''a@b.c'') (Address ''z@b.c'') True sample_revoked)))"
proof -
  let ?s = "snd (set_send_as quiet_world (Address ''a@b.c'') (Address ''z@b.c'') True sample_revoked)"
  have le: "authority_le (st_db (store_of sample_identity_db)) (st_db sample_revoked)"
    using identity_operations_authority(3) unfolding within_def sample_revoked_def by (metis prod.collapse)
  have "issued sample_principal sample_identity_db"
    by (simp add: issued_def sample_identity_db_def sample_principal_def)
  then have i: "issued sample_principal (st_db sample_revoked)" "db_ok (st_db sample_revoked)"
    using issued_mono [OF le] le sample_identity_ok by (auto simp: store_of_def authority_le_def)
  have n: "\<not> current_db sample_principal (st_db sample_revoked)" by code_simp
  have "store_step quiet_world sample_revoked ?s"
    by (metis store_step.send_as prod.collapse)
  then have "store_run quiet_world sample_revoked ?s" by blast
  with authority_never_returns [OF i(2,1) n] show ?thesis by blast
qed

section \<open>The fencing register\<close>

text \<open>What a lease is, without the database: a register that holds a generation number and the token of
  the current holder, if there is one. A grant takes the next generation; a release forgets the token.\<close>

inductive register_step :: "int \<times> string option \<Rightarrow> int \<times> string option \<Rightarrow> bool" where
  grant: "register_step (g, t) (g + 1, Some k)"
| release: "register_step (g, t) (g, None)"

definition register_of :: "delivery_row \<Rightarrow> int \<times> string option" where
  "register_of r = (de_generation r, de_token r)"

lemma register_mono: "register_step\<^sup>*\<^sup>* x y \<Longrightarrow> fst x \<le> fst y \<and> (fst y = fst x \<longrightarrow> snd y = snd x \<or> snd y = None)"
  by (induction rule: rtranclp_induct) (auto elim!: register_step.cases)

lemma register_reaches: "g + int n = g' \<Longrightarrow> register_step\<^sup>*\<^sup>* (g, t) (g' + 1, k)"
proof (induction n arbitrary: g')
  case 0
  have "register_step\<^sup>*\<^sup>* (g, t) (g + 1, Some [])" "register_step (g + 1, Some []) (g + 1, None)" by (auto intro: register_step.intros)
  then show ?case using 0 by (cases k) (auto intro: register_step.intros rtranclp.rtrancl_into_rtrancl)
next
  case (Suc n)
  have q: "register_step\<^sup>*\<^sup>* (g, t) (g', k)" using Suc.IH [of "g' - 1"] Suc.prems by simp
  show ?case
  proof (cases k)
    case None
    have "register_step (g', k) (g' + 1, Some [])" "register_step (g' + 1, Some []) (g' + 1, None)" by (auto intro: register_step.intros)
    with q None show ?thesis by (meson rtranclp.rtrancl_into_rtrancl)
  next
    case (Some x)
    have "register_step (g', k) (g' + 1, Some x)" by (rule register_step.grant)
    with q Some show ?thesis by (meson rtranclp.rtrancl_into_rtrancl)
  qed
qed

lemma delivery_le_register: "delivery_le r r' \<Longrightarrow> register_step\<^sup>*\<^sup>* (register_of r) (register_of r')"
proof -
  assume le: "delivery_le r r'"
  show ?thesis
  proof (cases "de_generation r' = de_generation r")
    case True
    with le have "de_token r' = None \<or> de_token r' = de_token r" by (auto simp: delivery_le_def)
    then show ?thesis
    proof
      assume "de_token r' = None"
      then show ?thesis using True by (auto simp: register_of_def intro: register_step.release)
    qed (simp add: True register_of_def)
  next
    case False
    with le have "de_generation r < de_generation r'" by (auto simp: delivery_le_def)
    then have "de_generation r + int (nat (de_generation r' - de_generation r - 1)) = de_generation r' - 1" by simp
    from register_reaches [OF this] show ?thesis by (simp add: register_of_def)
  qed
qed

text \<open>
  Property C13. The leases of a delivery refine the fencing register: whatever the store does, generation and token of
  every delivery change only by grants of a new generation and by releases. So of the register's
  states a holder that has been released or overtaken never comes back.
\<close>

theorem lease_refines_register:
  assumes "store_inv (st_db s)" "uuid_ok w" "store_run w s s'" "r \<in> set (deliveries (st_db s))"
  shows "\<exists>r'\<in>set (deliveries (st_db s')). de_id r' = de_id r \<and> register_step\<^sup>*\<^sup>* (register_of r) (register_of r')
    \<and> (\<forall>g t. register_of r \<noteq> (g, Some t) \<longrightarrow> g \<le> de_generation r \<longrightarrow> register_of r' \<noteq> (g, Some t))"
proof -
  have "rows_le delivery_le (deliveries (st_db s)) (deliveries (st_db s'))"
    using run_queue_le [OF assms(3,2)] assms(1) by (simp add: queue_le_def)
  then obtain r' where r': "r' \<in> set (deliveries (st_db s'))" "delivery_le r r'" using assms(4) by (auto simp: rows_le_def)
  note reg = delivery_le_register [OF r'(2)]
  have "\<forall>g t. register_of r \<noteq> (g, Some t) \<longrightarrow> g \<le> de_generation r \<longrightarrow> register_of r' \<noteq> (g, Some t)"
    using register_mono [OF reg] by (auto simp: register_of_def)
  with r' reg show ?thesis by (intro bexI [of _ r']) (auto simp: delivery_le_def)
qed

theorem lease_refines_register_witness:
  "\<exists>r'\<in>set (deliveries (st_db (snd sample_claim))). register_step\<^sup>*\<^sup>* (0, None) (register_of r')"
proof -
  have inv: "store_inv (st_db (store_of sample_queue_db))" by (simp add: store_of_def sample_queue_inv)
  have "store_step quiet_world (store_of sample_queue_db) (snd sample_claim)"
    unfolding sample_claim_def by (metis store_step.claim prod.collapse)
  then have run: "store_run quiet_world (store_of sample_queue_db) (snd sample_claim)" by blast
  have "sample_delivery \<in> set (deliveries (st_db (store_of sample_queue_db)))" by (simp add: store_of_def sample_queue_db_def)
  from lease_refines_register [OF inv quiet_uuid run this] show ?thesis
    by (auto simp: register_of_def sample_delivery_def new_delivery_def)
qed

end
