(* ===== verification/Mail_Trace.thy ===== *)
theory Mail_Trace
  imports Mail_Transfer Config "HOL-Library.Code_Target_Nat"
begin

text \<open>
  The trace fields a received message starts with, \<open>crates/server/src/trace.rs\<close>: \<open>Trace::prefix\<close>, with the
  text of an IP address as the standard library prints it. The date format is library code; a date is
  the text it produced, if any.
\<close>

section \<open>Addresses as text\<close>

fun show_hex :: "nat \<Rightarrow> string" where
  "show_hex n = (if n < 16 then [''0123456789abcdef'' ! n] else show_hex (n div 16) @ [''0123456789abcdef'' ! (n mod 16)])"

declare show_hex.simps [simp del]

definition v6_segments :: "nat \<Rightarrow> nat list" where
  "v6_segments n = map (\<lambda>i. n div 65536 ^ (7 - i) mod 65536) [0..<8]"

fun join :: "string \<Rightarrow> string list \<Rightarrow> string" where
  "join sep [] = []"
| "join sep [x] = x"
| "join sep (x # y # xs) = x @ sep @ join sep (y # xs)"

text \<open>The loop that looks for the first longest span of zero segments: (longest, current) spans as (start, len).\<close>

fun zero_span :: "nat \<Rightarrow> nat \<times> nat \<Rightarrow> nat \<times> nat \<Rightarrow> nat list \<Rightarrow> nat \<times> nat" where
  "zero_span i longest cur [] = longest"
| "zero_span i longest cur (s # ss) =
     (if s = 0 then
        let cur' = (if snd cur = 0 then (i, 1) else (fst cur, snd cur + 1));
            longest' = (if snd cur' > snd longest then cur' else longest)
        in zero_span (i + 1) longest' cur' ss
      else zero_span (i + 1) longest (0, 0) ss)"

definition show_v4 :: "nat \<Rightarrow> nat \<Rightarrow> nat \<Rightarrow> nat \<Rightarrow> string" where
  "show_v4 a b c d = join ''.'' (map show_nat [a, b, c, d])"

definition show_v6 :: "nat \<Rightarrow> string" where
  "show_v6 n =
     (let ss = v6_segments n in
      if take 5 ss = replicate 5 0 \<and> ss ! 5 = 65535
      then ''::ffff:'' @ show_v4 (ss ! 6 div 256) (ss ! 6 mod 256) (ss ! 7 div 256) (ss ! 7 mod 256)
      else let (start, len) = zero_span 0 (0, 0) (0, 0) ss in
        if len > 1 then join '':'' (map show_hex (take start ss)) @ ''::'' @ join '':'' (map show_hex (drop (start + len) ss))
        else join '':'' (map show_hex ss))"

fun ip_literal :: "ip_addr \<Rightarrow> string" where
  "ip_literal (V4 a b c d) = ''['' @ show_v4 a b c d @ '']''"
| "ip_literal (V6 n) = ''[IPv6:'' @ show_v6 n @ '']''"

section \<open>The prefix\<close>

record trace_facts =
  tr_hostname :: string
  tr_greeting :: "string option"
  tr_peer :: ip_addr
  tr_extended :: bool
  tr_encrypted :: bool
  tr_authenticated :: bool

definition trace_from :: "trace_facts \<Rightarrow> string" where
  "trace_from t =
     (case tr_greeting t of
        None \<Rightarrow> ip_literal (tr_peer t)
      | Some name \<Rightarrow> if valid_domain name then name @ '' ('' @ ip_literal (tr_peer t) @ '')'' else ip_literal (tr_peer t))"

definition trace_protocol :: "trace_facts \<Rightarrow> string" where
  "trace_protocol t =
     (if \<not> tr_extended t then ''SMTP''
      else if tr_encrypted t then (if tr_authenticated t then ''ESMTPSA'' else ''ESMTPS'')
      else if tr_authenticated t then ''ESMTPA'' else ''ESMTP'')"

definition trace_lines :: "trace_facts \<Rightarrow> address option \<Rightarrow> string \<Rightarrow> string \<Rightarrow> string list" where
  "trace_lines t sender operation date =
     [''Return-Path: <'' @ (case sender of None \<Rightarrow> [] | Some a \<Rightarrow> as_str a) @ ''>'',
      ''Received: from '' @ trace_from t,
      [TAB] @ ''by '' @ tr_hostname t @ '' with '' @ trace_protocol t,
      [TAB] @ ''id '' @ operation @ ''; '' @ date]"

text \<open>\<open>prefix.split("\r\n")\<close>.\<close>

fun split_crlf :: "bytes \<Rightarrow> bytes list" where
  "split_crlf (a # b # s) =
     (if a = CR \<and> b = LF then [] # split_crlf s
      else case split_crlf (b # s) of [] \<Rightarrow> [[a]] | w # ws \<Rightarrow> (a # w) # ws)"
| "split_crlf s = [s]"

definition trace_prefix :: "trace_facts \<Rightarrow> address option \<Rightarrow> string \<Rightarrow> string option \<Rightarrow> server_error + bytes" where
  "trace_prefix t sender operation date =
     (if \<not> valid_domain (tr_hostname t) then Err (SIo OtherIo)
      else case date of
        None \<Rightarrow> Err (SIo OtherIo)
      | Some dt \<Rightarrow>
         (let pre = concat (map (\<lambda>l. l @ CRLF) (trace_lines t sender operation dt)) in
          if length pre + 2 > LOCAL_DELIVERY_OVERHEAD_BYTES \<or> list_ex (\<lambda>l. length l > 998) (split_crlf pre)
          then Err (SIo OtherIo) else Ok pre))"

section \<open>The prefix always fits and cannot be broken\<close>

text \<open>Bytes that neither end a line nor are outside ASCII.\<close>

definition inline :: "bytes \<Rightarrow> bool" where
  "inline s \<longleftrightarrow> list_all (\<lambda>b. b \<noteq> CR \<and> b \<noteq> LF \<and> is_ascii_byte b) s"

lemma inline_simps [simp]:
  "inline []" "inline (x # xs) \<longleftrightarrow> x \<noteq> CR \<and> x \<noteq> LF \<and> is_ascii_byte x \<and> inline xs" "inline (xs @ ys) \<longleftrightarrow> inline xs \<and> inline ys"
  by (simp_all add: inline_def)

lemma inline_join: "inline sep \<Longrightarrow> list_all inline xs \<Longrightarrow> inline (join sep xs)"
  by (induction sep xs rule: join.induct) auto

lemma length_join: "list_all (\<lambda>x. length x \<le> k) xs \<Longrightarrow> length (join sep xs) \<le> length xs * (k + length sep)"
  by (induction sep xs rule: join.induct) auto

lemma hex_char: "n < 16 \<Longrightarrow> ''0123456789abcdef'' ! n \<noteq> CR \<and> ''0123456789abcdef'' ! n \<noteq> LF \<and> is_ascii_byte (''0123456789abcdef'' ! n)"
proof -
  assume "n < 16"
  then have "''0123456789abcdef'' ! n \<in> set ''0123456789abcdef''" by (intro nth_mem) simp
  moreover have "list_all (\<lambda>b. b \<noteq> CR \<and> b \<noteq> LF \<and> is_ascii_byte b) ''0123456789abcdef''" by code_simp
  ultimately show ?thesis by (simp only: list_all_iff) blast
qed

lemma inline_hex: "inline (show_hex n)"
  by (induction n rule: show_hex.induct) (subst show_hex.simps, auto simp: hex_char)

lemma length_hex: "n < 16 ^ k \<Longrightarrow> 0 < k \<Longrightarrow> length (show_hex n) \<le> k"
proof (induction k arbitrary: n)
  case (Suc k)
  show ?case
  proof (cases "n < 16")
    case True
    then show ?thesis by (subst show_hex.simps) simp
  next
    case False
    then have "0 < k" using Suc.prems by (cases k) auto
    moreover have "n div 16 < 16 ^ k" using Suc.prems by (simp add: less_mult_imp_div_less mult.commute)
    ultimately have "length (show_hex (n div 16)) \<le> k" by (intro Suc.IH)
    with False show ?thesis by (subst show_hex.simps) simp
  qed
qed simp

lemma inline_nat: "inline (show_nat n)"
  using show_nat_digits [of n] by (auto simp: inline_def list_all_iff is_ascii_digit_def is_ascii_byte_def code_def)

lemma length_octet: "n < 256 \<Longrightarrow> length (show_nat n) \<le> 3"
  by (simp add: show_nat.simps)

lemma inline_v4: "inline (show_v4 a b c d)"
  unfolding show_v4_def by (rule inline_join) (simp_all add: inline_nat is_ascii_byte_def code_def)

lemma length_v4: "a < 256 \<Longrightarrow> b < 256 \<Longrightarrow> c < 256 \<Longrightarrow> d < 256 \<Longrightarrow> length (show_v4 a b c d) \<le> 16"
  unfolding show_v4_def using length_join [of 3 "map show_nat [a, b, c, d]" "''.''"] by (simp add: length_octet)

lemma v6_segments_small: "s \<in> set (v6_segments n) \<Longrightarrow> s < 65536"
  by (auto simp: v6_segments_def)

lemma inline_v6: "inline (show_v6 n)"
proof -
  have "inline (join '':'' (map show_hex ss))" for ss
    by (rule inline_join) (simp_all add: list_all_iff inline_hex is_ascii_byte_def code_def)
  then show ?thesis by (simp add: show_v6_def Let_def inline_v4 is_ascii_byte_def code_def split: prod.splits)
qed

lemma length_v6: "length (show_v6 n) \<le> 42"
proof -
  have j: "length (join '':'' (map show_hex ss)) \<le> 5 * length ss" if "set ss \<subseteq> set (v6_segments n)" for ss
  proof -
    have "length (show_hex s) \<le> 4" if "s \<in> set ss" for s
      using v6_segments_small [of s n] that \<open>set ss \<subseteq> _\<close> by (intro length_hex) auto
    then have "list_all (\<lambda>x. length x \<le> 4) (map show_hex ss)" by (simp add: list_all_iff)
    from length_join [OF this, of "'':''"] show ?thesis by simp
  qed
  have len: "length (v6_segments n) = 8" by (simp add: v6_segments_def)
  have m: "s mod 256 < 256" "s < 65536 \<Longrightarrow> s div 256 < 256" for s :: nat by (auto simp: less_mult_imp_div_less)
  have "v6_segments n ! 6 < 65536" "v6_segments n ! 7 < 65536" using v6_segments_small [of _ n] len by auto
  then have v4: "length (show_v4 (v6_segments n ! 6 div 256) (v6_segments n ! 6 mod 256) (v6_segments n ! 7 div 256) (v6_segments n ! 7 mod 256)) \<le> 16"
    by (intro length_v4) (simp_all add: m)
  have cut: "length (join '':'' (map show_hex (take a (v6_segments n)))) + length (join '':'' (map show_hex (drop (a + b) (v6_segments n)))) \<le> 40" for a b
  proof -
    have "length (take a (v6_segments n)) + length (drop (a + b) (v6_segments n)) \<le> 8" by (simp add: len)
    then show ?thesis using j [of "take a (v6_segments n)"] j [of "drop (a + b) (v6_segments n)"]
      by (simp add: set_take_subset set_drop_subset)
  qed
  show ?thesis
    using v4 cut j [of "v6_segments n"] len by (auto simp: show_v6_def Let_def split: prod.splits)
qed

fun ip_ok :: "ip_addr \<Rightarrow> bool" where
  "ip_ok (V4 a b c d) \<longleftrightarrow> a < 256 \<and> b < 256 \<and> c < 256 \<and> d < 256"
| "ip_ok (V6 n) \<longleftrightarrow> n < 2 ^ 128"

lemma ip_literal_fits: "ip_ok ip \<Longrightarrow> inline (ip_literal ip) \<and> length (ip_literal ip) \<le> 49"
  using length_v6 by (cases ip) (auto simp: inline_v4 inline_v6 is_ascii_byte_def code_def dest: length_v4)

lemma wire_safe_inline: "wire_safe b \<Longrightarrow> b \<noteq> CR \<and> b \<noteq> LF \<and> is_ascii_byte b"
  by (auto simp: wire_safe_def is_ascii_control_def code_def)

lemma inline_domain: "valid_domain d \<Longrightarrow> inline d \<and> length d \<le> 253"
proof -
  assume d: "valid_domain d"
  have "inline d" unfolding inline_def list_all_iff
  proof
    fix b assume "b \<in> set d"
    then have "wire_safe b" using valid_domain_bytes [OF d] domain_byte_wire_safe by blast
    then show "b \<noteq> CR \<and> b \<noteq> LF \<and> is_ascii_byte b" by (rule wire_safe_inline)
  qed
  then show ?thesis using d by (simp add: valid_domain_def)
qed

lemma inline_address: "addr_wf a \<Longrightarrow> inline (as_str a) \<and> length (as_str a) \<le> 254"
  using addr_wf_wire_safe [of a] wire_safe_inline by (auto simp: inline_def list_all_iff addr_wf_def)

lemma trace_from_fits: "ip_ok (tr_peer t) \<Longrightarrow> inline (trace_from t) \<and> length (trace_from t) \<le> 305"
  using ip_literal_fits [of "tr_peer t"] inline_domain
  by (fastforce simp: trace_from_def is_ascii_byte_def code_def split: option.splits)

lemma trace_lines_fit:
  assumes "valid_domain (tr_hostname t)" "ip_ok (tr_peer t)" "pred_option addr_wf sender"
    "inline operation" "length operation = 32" "inline date" "length date \<le> 64"
  shows "list_all inline (trace_lines t sender operation date) \<and> list_all (\<lambda>l. length l \<le> 998) (trace_lines t sender operation date)
    \<and> length (concat (map (\<lambda>l. l @ CRLF) (trace_lines t sender operation date))) + 2 \<le> LOCAL_DELIVERY_OVERHEAD_BYTES"
proof -
  note f = trace_from_fits [OF assms(2)] inline_domain [OF assms(1)]
  have snd: "inline (case sender of None \<Rightarrow> [] | Some a \<Rightarrow> as_str a)" "length (case sender of None \<Rightarrow> [] | Some a \<Rightarrow> as_str a) \<le> 254"
    using assms(3) inline_address by (cases sender; auto)+
  have p: "inline (trace_protocol t)" "length (trace_protocol t) \<le> 7" by (auto simp: trace_protocol_def is_ascii_byte_def code_def)
  show ?thesis using f snd p assms(4-7) by (simp add: trace_lines_def LOCAL_DELIVERY_OVERHEAD_BYTES_def is_ascii_byte_def code_def)
qed

lemma split_crlf_line: "inline l \<Longrightarrow> split_crlf (l @ CR # LF # s) = l # split_crlf s"
proof (induction l)
  case (Cons a l)
  then show ?case by (cases l) auto
qed simp

lemma split_crlf_lines: "list_all inline ls \<Longrightarrow> split_crlf (concat (map (\<lambda>l. l @ CRLF) ls)) = ls @ [[]]"
  by (induction ls) (simp_all add: split_crlf_line)

lemma trace_prefix_Ok:
  assumes "valid_domain (tr_hostname t)" "ip_ok (tr_peer t)" "pred_option addr_wf sender"
    "inline operation" "length operation = 32" "inline date" "length date \<le> 64"
  shows "trace_prefix t sender operation (Some date) = Ok (concat (map (\<lambda>l. l @ CRLF) (trace_lines t sender operation date)))"
  using trace_lines_fit [OF assms] assms(1)
  by (auto simp: trace_prefix_def Let_def split_crlf_lines list_all_iff list_ex_iff)

text \<open>
  Property C22. The trace fields never fail to be written and never leave their place: for every configured host name, peer, envelope
  sender, operation identifier and date of ordinary form, whatever the client said in its greeting, they are four lines
  without line ends of their own, of at most 998 bytes each, that together with the separator stay within the space
  reserved for them, and the first names the envelope sender.
\<close>

theorem trace_prefix_fits:
  assumes "valid_domain (tr_hostname t)" "ip_ok (tr_peer t)" "pred_option addr_wf sender"
    "inline operation" "length operation = 32" "inline date" "length date \<le> 64"
  shows "\<exists>ls. trace_prefix t sender operation (Some date) = Ok (concat (map (\<lambda>l. l @ CRLF) ls)) \<and> length ls = 4
    \<and> list_all inline ls \<and> list_all (\<lambda>l. length l \<le> 998) ls \<and> length (concat (map (\<lambda>l. l @ CRLF) ls)) + 2 \<le> LOCAL_DELIVERY_OVERHEAD_BYTES
    \<and> hd ls = ''Return-Path: <'' @ (case sender of None \<Rightarrow> [] | Some a \<Rightarrow> as_str a) @ ''>''"
  using trace_prefix_Ok [OF assms] trace_lines_fit [OF assms]
  by (intro exI [of _ "trace_lines t sender operation date"]) (simp add: trace_lines_def)

definition sample_trace :: trace_facts where
  "sample_trace = \<lparr>tr_hostname = ''mail.example.test'', tr_greeting = Some ''evil);for<x>'', tr_peer = V6 1, tr_extended = True,
     tr_encrypted = True, tr_authenticated = True\<rparr>"

theorem trace_prefix_fits_witness:
  "(\<exists>ls. trace_prefix sample_trace None (replicate 32 (CHR ''0'')) (Some ''Thu, 01 Jan 1970 00:00:00 +0000'') = Ok (concat (map (\<lambda>l. l @ CRLF) ls)) \<and> length ls = 4)
   \<and> trace_from sample_trace = ''[IPv6:::1]''"
proof -
  have "valid_domain (tr_hostname sample_trace)" "trace_from sample_trace = ''[IPv6:::1]''" "ip_ok (tr_peer sample_trace)"
    "inline (replicate 32 (CHR ''0''))" "inline ''Thu, 01 Jan 1970 00:00:00 +0000''" by code_simp+
  with trace_prefix_fits [of sample_trace None "replicate 32 (CHR ''0'')" "''Thu, 01 Jan 1970 00:00:00 +0000''"]
  show ?thesis by auto
qed

end
