(* ===== verification/Server_Auth.thy ===== *)
theory Server_Auth
  imports Store Config "HOL-Library.AList"
begin

text \<open>
  Authentication of submitters, \<open>crates/server/src/auth.rs\<close>: \<open>decode_plain\<close>, the attempt counters
  \<open>Rates\<close>, \<open>verify_token\<close>, \<open>hash_token\<close>, \<open>generate_credential\<close> and \<open>AuthService::authenticate\<close>. The libraries it calls are
  parameters, the record \<open>crypto\<close>: base64, the parser of PHC strings, Argon2 and the random
  generator. Instants are nanoseconds of the monotonic clock.
\<close>

section \<open>AUTH PLAIN\<close>

datatype auth_error = Denied | Busy

record plain_credentials =
  pc_login :: address
  pc_token :: string

text \<open>\<open>std::str::from_utf8\<close> succeeds.\<close>

definition continuation :: "byte \<Rightarrow> bool" where
  "continuation b \<longleftrightarrow> 128 \<le> code b \<and> code b \<le> 191"

definition utf8_second :: "byte \<Rightarrow> byte \<Rightarrow> bool" where
  "utf8_second a b \<longleftrightarrow>
     (if code a = 224 then 160 \<le> code b \<and> code b \<le> 191
      else if code a = 237 then 128 \<le> code b \<and> code b \<le> 159
      else if code a = 240 then 144 \<le> code b \<and> code b \<le> 191
      else if code a = 244 then 128 \<le> code b \<and> code b \<le> 143
      else continuation b)"

fun utf8_valid :: "bytes \<Rightarrow> bool" where
  "utf8_valid [] \<longleftrightarrow> True"
| "utf8_valid (a # s) \<longleftrightarrow>
     (if code a < 128 then utf8_valid s
      else if 194 \<le> code a \<and> code a \<le> 223 then (case s of b # s' \<Rightarrow> continuation b \<and> utf8_valid s' | _ \<Rightarrow> False)
      else if 224 \<le> code a \<and> code a \<le> 239 then
        (case s of b # c # s' \<Rightarrow> utf8_second a b \<and> continuation c \<and> utf8_valid s' | _ \<Rightarrow> False)
      else if 240 \<le> code a \<and> code a \<le> 244 then
        (case s of b # c # d # s' \<Rightarrow> utf8_second a b \<and> continuation c \<and> continuation d \<and> utf8_valid s' | _ \<Rightarrow> False)
      else False)"

definition parse_field :: "bytes \<Rightarrow> auth_error + address" where
  "parse_field b = (if \<not> utf8_valid b then Err Denied else case parse b of Err _ \<Rightarrow> Err Denied | Ok a \<Rightarrow> Ok a)"

definition decode_plain :: "(bytes \<Rightarrow> bytes option) \<Rightarrow> bytes \<Rightarrow> auth_error + plain_credentials" where
  "decode_plain base64 encoded =
     (if length encoded > 1024 then Err Denied
      else rbind (ok_or (base64 encoded) Denied) (\<lambda>raw.
        case split_on (\<lambda>b. b = NUL) raw of
          [authzid, authcid, passwd] \<Rightarrow>
            if length authcid > 254 \<or> length passwd > 128 then Err Denied
            else rbind (parse_field authcid) (\<lambda>login.
              rbind (if authzid = [] then Ok ()
                     else rbind (parse_field authzid) (\<lambda>authz.
                       if local_key authz \<noteq> local_key login then Err Denied else Ok ())) (\<lambda>_.
              if \<not> utf8_valid passwd then Err Denied
              else Ok \<lparr>pc_login = login, pc_token = passwd\<rparr>))
        | _ \<Rightarrow> Err Denied))"

section \<open>Attempt counters\<close>

definition SECOND :: nat where
  "SECOND = 1000000000"

definition RATE_WINDOW :: nat where
  "RATE_WINDOW = 60 * SECOND"

record rate_entry =
  re_started :: nat
  re_attempts :: nat

record rates =
  rt_ips :: "(ip_addr \<times> rate_entry) list"
  rt_accounts :: "(string \<times> rate_entry) list"
  rt_last_cleanup :: nat

definition new_rates :: "nat \<Rightarrow> rates" where
  "new_rates now = \<lparr>rt_ips = [], rt_accounts = [], rt_last_cleanup = now\<rparr>"

text \<open>\<open>retain\<close> of the entries whose window has not passed; \<open>duration_since\<close> is zero for a later instant.\<close>

definition sweep :: "nat \<Rightarrow> ('k \<times> rate_entry) list \<Rightarrow> ('k \<times> rate_entry) list" where
  "sweep now t = filter (\<lambda>(_, e). now - re_started e < RATE_WINDOW) t"

definition cleanup :: "nat \<Rightarrow> rates \<Rightarrow> rates" where
  "cleanup now r =
     (if now - rt_last_cleanup r \<ge> SECOND
      then \<lparr>rt_ips = sweep now (rt_ips r), rt_accounts = sweep now (rt_accounts r), rt_last_cleanup = now\<rparr> else r)"

definition table_full :: "'k \<Rightarrow> ('k \<times> rate_entry) list \<Rightarrow> bool" where
  "table_full k t \<longleftrightarrow> map_of t k = None \<and> length t \<ge> 4096"

definition attempt_entry :: "nat \<Rightarrow> rate_entry \<Rightarrow> rate_entry" where
  "attempt_entry now e =
     (let e' = (if now - re_started e \<ge> RATE_WINDOW then \<lparr>re_started = now, re_attempts = 0\<rparr> else e)
      in e'\<lparr>re_attempts := min u32_max (re_attempts e' + 1)\<rparr>)"

text \<open>\<open>attempt(entry(k).or_insert(\<dots>), now)\<close>: the attempts counted, and the table.\<close>

definition count_attempt :: "nat \<Rightarrow> 'k \<Rightarrow> ('k \<times> rate_entry) list \<Rightarrow> nat \<times> ('k \<times> rate_entry) list" where
  "count_attempt now k t =
     (let e = attempt_entry now (case map_of t k of None \<Rightarrow> \<lparr>re_started = now, re_attempts = 0\<rparr> | Some e \<Rightarrow> e)
      in (re_attempts e, AList.update k e t))"

definition rates_check :: "ip_addr \<Rightarrow> string \<Rightarrow> nat \<Rightarrow> rates \<Rightarrow> (auth_error + unit) \<times> rates" where
  "rates_check ip account now r0 =
     (let r = cleanup now r0 in
      if table_full ip (rt_ips r) \<or> table_full account (rt_accounts r) then (Err Busy, r)
      else let (ip_attempts, ips) = count_attempt now ip (rt_ips r);
               (account_attempts, accs) = count_attempt now account (rt_accounts r)
           in (if ip_attempts > 30 \<or> account_attempts > 10 then Err Busy else Ok (),
               r\<lparr>rt_ips := ips, rt_accounts := accs\<rparr>))"

section \<open>Tokens\<close>

text \<open>What the code reads of a parsed PHC string: algorithm, version, cost parameters where they are
  valid, and the length of the hash where there is one.\<close>

record phc =
  phc_algorithm :: string
  phc_version :: "nat option"
  phc_params :: "(nat \<times> nat \<times> nat) option"
  phc_hash_len :: "nat option"
  phc_text :: string

record crypto =
  base64_decode :: "bytes \<Rightarrow> bytes option"
  parse_phc :: "string \<Rightarrow> phc option"
  verify_password :: "string \<Rightarrow> phc \<Rightarrow> bool"
  hash_password :: "string \<Rightarrow> nat list \<Rightarrow> nat \<Rightarrow> nat \<Rightarrow> nat \<Rightarrow> string option"
  random_fill :: "nat \<Rightarrow> nat \<Rightarrow> nat list option"

definition verify_token :: "crypto \<Rightarrow> authentication \<Rightarrow> string \<Rightarrow> string \<Rightarrow> bool" where
  "verify_token cy a token text \<longleftrightarrow>
     length text \<le> 512 \<and>
     (case parse_phc cy text of
        None \<Rightarrow> False
      | Some p \<Rightarrow>
         (case phc_params p of
            None \<Rightarrow> False
          | Some (m, t, l) \<Rightarrow>
              phc_algorithm p = ''argon2id'' \<and> phc_version p = Some 19
              \<and> 65536 \<le> m \<and> m \<le> argon2_memory_kib a \<and> 3 \<le> t \<and> t \<le> argon2_iterations a
              \<and> 1 \<le> l \<and> l \<le> argon2_lanes a \<and> phc_hash_len p = Some 32
              \<and> verify_password cy token p))"

text \<open>The n-th request to the random generator asks for so many bytes; hexadecimal text of them.\<close>

definition random_hex :: "crypto \<Rightarrow> nat \<Rightarrow> nat \<Rightarrow> auth_error + string" where
  "random_hex cy n count = rbind (ok_or (random_fill cy n count) Busy) (\<lambda>raw. Ok (uuid_simple raw))"

definition hash_token :: "crypto \<Rightarrow> nat \<Rightarrow> string \<Rightarrow> authentication \<Rightarrow> auth_error + string" where
  "hash_token cy n token a =
     rbind (ok_or (random_fill cy n 16) Busy) (\<lambda>salt.
     ok_or (hash_password cy token salt (argon2_memory_kib a) (argon2_iterations a) (argon2_lanes a)) Busy)"

definition generate_credential :: "crypto \<Rightarrow> nat \<Rightarrow> authentication \<Rightarrow> auth_error + string \<times> string \<times> string" where
  "generate_credential cy n a =
     rbind (random_hex cy n 16) (\<lambda>selector.
     rbind (random_hex cy (n + 1) 32) (\<lambda>secret.
     let token = selector @ ''.'' @ secret in
     rbind (hash_token cy (n + 2) token a) (\<lambda>text. Ok (selector, token, text))))"

section \<open>The service\<close>

text \<open>What the threads around a call to the store worker can make of it: it is answered, the worker is gone
  before it runs, or it runs and nobody hears the answer.\<close>

datatype reach = Answered | Unsent | Unheard

definition call_store :: "reach \<Rightarrow> 'a action \<Rightarrow> 'a action" where
  "call_store how act s =
     (case how of
        Answered \<Rightarrow> act s
      | Unsent \<Rightarrow> (Err WorkerUnavailable, s)
      | Unheard \<Rightarrow> (Err WorkerUnavailable, snd (act s)))"

text \<open>The part of \<open>authenticate\<close> after the rate limit: permits, lookup, verification, confirmation. The
  other tasks may use the store before each of the two calls; what they make of it is \<open>others\<close>.\<close>

record auth_turn =
  at_now :: nat
  at_permits :: bool
  at_lookup :: reach
  at_join :: bool
  at_finish :: reach

definition selector_of :: "string \<Rightarrow> string" where
  "selector_of token = (case split_once (CHR ''.'') token of None \<Rightarrow> [] | Some (selector, _) \<Rightarrow> selector)"

record auth_service =
  as_settings :: authentication
  as_dummy :: string

definition auth_result :: "store_error \<Rightarrow> auth_error" where
  "auth_result e = (if e = PermissionDenied then Denied else Busy)"

definition check_credentials :: "world \<Rightarrow> crypto \<Rightarrow> auth_service \<Rightarrow> auth_turn \<Rightarrow> (store \<Rightarrow> store) \<Rightarrow> plain_credentials \<Rightarrow>
    store \<Rightarrow> (auth_error + principal) \<times> store" where
  "check_credentials w cy au t others c s =
     (if \<not> at_permits t then (Err Busy, s)
      else case call_store (at_lookup t) (credential_lookup w (pc_login c) (selector_of (pc_token c))) s of
        (Err _, s1) \<Rightarrow> (Err Busy, s1)
      | (Ok row, s1) \<Rightarrow>
         let text = (case row of None \<Rightarrow> as_dummy au | Some r \<Rightarrow> rec_phc r);
             valid = verify_token cy (as_settings au) (pc_token c) text
         in if \<not> at_join t then (Err Busy, s1)
            else (case row of
               None \<Rightarrow> (Err Denied, s1)
             | Some r \<Rightarrow>
                 if \<not> valid then (Err Denied, s1)
                 else (case call_store (at_finish t) (finish_authentication w (rec_principal r)) (others s1) of
                     (Err e, s2) \<Rightarrow> (Err (auth_result e), s2)
                   | (Ok _, s2) \<Rightarrow> (Ok (rec_principal r), s2))))"

definition service_authenticate :: "world \<Rightarrow> crypto \<Rightarrow> auth_service \<Rightarrow> auth_turn \<Rightarrow> (store \<Rightarrow> store) \<Rightarrow> ip_addr \<Rightarrow>
    plain_credentials \<Rightarrow> rates \<times> store \<Rightarrow> (auth_error + principal) \<times> rates \<times> store" where
  "service_authenticate w cy au t others ip c = (\<lambda>(r, s).
     case rates_check ip (local_key (pc_login c)) (at_now t) r of
       (Err e, r1) \<Rightarrow> (Err e, r1, s)
     | (Ok _, r1) \<Rightarrow> (let (res, s1) = check_credentials w cy au t others c s in (res, r1, s1)))"

section \<open>How many attempts get through\<close>

type_synonym rate_request = "ip_addr \<times> string \<times> nat"

definition request_time :: "rate_request \<Rightarrow> nat" where
  "request_time q = snd (snd q)"

definition rate_step :: "rates \<Rightarrow> rate_request \<Rightarrow> (auth_error + unit) \<times> rates" where
  "rate_step r q = rates_check (fst q) (fst (snd q)) (request_time q) r"

definition span :: "nat \<Rightarrow> nat \<Rightarrow> nat list \<Rightarrow> nat" where
  "span a b ts = length (filter (\<lambda>x. a \<le> x \<and> x < b) ts)"

definition since :: "nat \<Rightarrow> nat list \<Rightarrow> nat" where
  "since a ts = length (filter (\<lambda>x. a \<le> x) ts)"

lemma span_le_since: "span a b ts \<le> since a ts"
  unfolding span_def since_def by (induction ts) auto

lemma since_mono: "a \<le> b \<Longrightarrow> since b ts \<le> since a ts"
  unfolding since_def by (induction ts) auto

lemma span_split: "span a c ts \<le> span a b ts + since b ts"
  unfolding span_def since_def by (induction ts) auto

lemma since_0: "(\<And>x. x \<in> set ts \<Longrightarrow> x < a) \<Longrightarrow> since a ts = 0"
  unfolding since_def by (induction ts) (auto simp: not_le)

lemma span_append [simp]: "span a b (xs @ ys) = span a b xs + span a b ys" "since a (xs @ ys) = since a xs + since a ys"
  by (simp_all add: span_def since_def)

lemma span_single [simp]: "span a b [x] = (if a \<le> x \<and> x < b then 1 else 0)" "since a [x] = (if a \<le> x then 1 else 0)"
  by (simp_all add: span_def since_def)

text \<open>What the entry of a key says about the instants at which an attempt of that key got through.\<close>

definition entry_inv :: "nat \<Rightarrow> nat list \<Rightarrow> rate_entry option \<Rightarrow> nat \<Rightarrow> bool" where
  "entry_inv lim ts e now \<longleftrightarrow> (\<forall>u. span u (u + RATE_WINDOW) ts \<le> 2 * lim) \<and>
     (case e of
        None \<Rightarrow> (\<forall>x\<in>set ts. x < now) \<and> (\<forall>u. now < u + RATE_WINDOW \<longrightarrow> since u ts \<le> lim)
      | Some e \<Rightarrow> re_started e \<le> now \<and> (\<forall>x\<in>set ts. x < re_started e + RATE_WINDOW)
          \<and> since (re_started e) ts \<le> min (re_attempts e) lim
          \<and> (\<forall>u. re_started e < u + RATE_WINDOW \<longrightarrow> span u (re_started e) ts \<le> lim))"

lemma entry_later: "entry_inv lim ts e now \<Longrightarrow> now \<le> now' \<Longrightarrow> entry_inv lim ts e now'"
  unfolding entry_inv_def by (auto split: option.splits)

lemma entry_expires:
  assumes "entry_inv lim ts (Some e) now" "now - re_started e \<ge> RATE_WINDOW" "0 < RATE_WINDOW"
  shows "entry_inv lim ts None now"
proof -
  have s: "re_started e + RATE_WINDOW \<le> now" using assms(2,3) by linarith
  have "since u ts \<le> lim" if "now < u + RATE_WINDOW" for u
  proof -
    have "re_started e \<le> u" using s that by linarith
    from since_mono [OF this, of ts] show ?thesis using assms(1) by (auto simp: entry_inv_def)
  qed
  then show ?thesis using assms(1) s by (fastforce simp: entry_inv_def)
qed

lemma entry_fresh:
  assumes "entry_inv lim ts None now"
  shows "entry_inv lim ts (Some \<lparr>re_started = now, re_attempts = 0\<rparr>) now"
proof -
  have "since now ts = 0" using assms by (intro since_0) (auto simp: entry_inv_def)
  moreover have "span u now ts \<le> lim" if "now < u + RATE_WINDOW" for u
    using span_le_since [of u now ts] assms that by (fastforce simp: entry_inv_def)
  ultimately show ?thesis using assms by (fastforce simp: entry_inv_def)
qed

lemma entry_counts:
  assumes inv: "entry_inv lim ts (Some e) now" and l: "now - re_started e < RATE_WINDOW" "lim < u32_max"
    and e': "e' = e\<lparr>re_attempts := min u32_max (re_attempts e + 1)\<rparr>"
  shows "entry_inv lim ts (Some e') now" "re_attempts e' \<le> lim \<Longrightarrow> entry_inv lim (ts @ [now]) (Some e') now"
proof -
  let ?s = "re_started e"
  have a: "since ?s ts \<le> lim" "since ?s ts \<le> re_attempts e" "?s \<le> now" using inv by (auto simp: entry_inv_def)
  show "entry_inv lim ts (Some e') now" using inv a l(2) by (auto simp: entry_inv_def e')
  assume "re_attempts e' \<le> lim"
  then have n: "re_attempts e + 1 \<le> lim" "re_attempts e' = re_attempts e + 1" using l(2) by (auto simp: e')
  have "span u (u + RATE_WINDOW) (ts @ [now]) \<le> 2 * lim" for u
  proof (cases "u \<le> now \<and> now < u + RATE_WINDOW")
    case True
    then have "span u ?s ts \<le> lim" using inv a(3) by (auto simp: entry_inv_def)
    with span_split [of u "u + RATE_WINDOW" ts ?s] a(2) n(1) True show ?thesis by simp
  next
    case False
    then show ?thesis using inv by (auto simp: entry_inv_def)
  qed
  moreover have "now < ?s + RATE_WINDOW" using l(1) a(3) by linarith
  ultimately show "entry_inv lim (ts @ [now]) (Some e') now" using inv a n by (auto simp: entry_inv_def e')
qed

lemma entry_attempt:
  assumes inv: "entry_inv lim ts e now" and l: "lim < u32_max" "0 < RATE_WINDOW"
    and e': "e' = attempt_entry now (case e of None \<Rightarrow> \<lparr>re_started = now, re_attempts = 0\<rparr> | Some e \<Rightarrow> e)"
  shows "entry_inv lim ts (Some e') now" "re_attempts e' \<le> lim \<Longrightarrow> entry_inv lim (ts @ [now]) (Some e') now"
proof -
  define e0 where "e0 = (case e of None \<Rightarrow> \<lparr>re_started = now, re_attempts = 0\<rparr>
    | Some x \<Rightarrow> if now - re_started x \<ge> RATE_WINDOW then \<lparr>re_started = now, re_attempts = 0\<rparr> else x)"
  have "entry_inv lim ts (Some e0) now"
    using inv entry_fresh entry_expires [OF _ _ l(2)] by (cases e) (auto simp: e0_def)
  moreover have "now - re_started e0 < RATE_WINDOW" using l(2) by (auto simp: e0_def split: option.splits)
  moreover have "e' = e0\<lparr>re_attempts := min u32_max (re_attempts e0 + 1)\<rparr>"
    using l(2) by (auto simp: e' e0_def attempt_entry_def Let_def split: option.splits)
  ultimately show "entry_inv lim ts (Some e') now" "re_attempts e' \<le> lim \<Longrightarrow> entry_inv lim (ts @ [now]) (Some e') now"
    using entry_counts [of lim ts e0 now e'] l(1) by blast+
qed

definition passed :: "('q \<Rightarrow> 'k) \<Rightarrow> ('q \<Rightarrow> nat) \<Rightarrow> 'k \<Rightarrow> ('q \<times> (auth_error + unit)) list \<Rightarrow> nat list" where
  "passed key time k h = map (time \<circ> fst) (filter (\<lambda>(q, r). key q = k \<and> r = Ok ()) h)"

text \<open>
  A table of counters under a limit: every request either leaves the table as it is or swept, or counts
  one attempt of its key in it, and only a request within the limit gets through. Both tables
  of \<open>Rates\<close> are instances.
\<close>

locale rate_table =
  fixes table :: "rates \<Rightarrow> ('k \<times> rate_entry) list"
    and key :: "rate_request \<Rightarrow> 'k"
    and lim :: nat
  assumes lim: "lim < u32_max"
    and table_step: "rate_step r q = (res, r') \<Longrightarrow>
      \<exists>t. (t = table r \<or> t = sweep (request_time q) (table r)) \<and>
        (res \<noteq> Ok () \<and> table r' = t \<or>
         \<not> table_full (key q) t \<and> (\<exists>n. count_attempt (request_time q) (key q) t = (n, table r') \<and> (res = Ok () \<longrightarrow> n \<le> lim)))"
begin

definition table_inv :: "rates \<Rightarrow> (rate_request \<times> (auth_error + unit)) list \<Rightarrow> bool" where
  "table_inv r h \<longleftrightarrow> distinct (map fst (table r)) \<and> length (table r) \<le> 4096 \<and>
     (sorted (map (request_time \<circ> fst) h) \<longrightarrow>
       (\<forall>k. entry_inv lim (passed key request_time k h) (map_of (table r) k) (if h = [] then 0 else request_time (fst (last h)))))"

lemma window_pos: "0 < RATE_WINDOW"
  by (simp add: RATE_WINDOW_def SECOND_def)

lemma map_of_sweep:
  "distinct (map fst t) \<Longrightarrow> map_of (sweep now t) k =
     (case map_of t k of None \<Rightarrow> None | Some e \<Rightarrow> if now - re_started e < RATE_WINDOW then Some e else None)"
  unfolding sweep_def by (induction t) (auto simp: map_of_eq_None_iff split: option.splits)

lemma sweep_keeps: "distinct (map fst t) \<Longrightarrow> distinct (map fst (sweep now t))" "length (sweep now t) \<le> length t"
  by (simp_all add: sweep_def distinct_map_filter)

lemma count_keeps:
  assumes "count_attempt now k t = (n, t')" "\<not> table_full k t" "distinct (map fst t)" "length t \<le> 4096"
  shows "distinct (map fst t') \<and> length t' \<le> 4096"
proof -
  obtain e where t': "t' = AList.update k e t" using assms(1) by (auto simp: count_attempt_def Let_def)
  have "map fst t' = (if k \<in> set (map fst t) then map fst t else map fst t @ [k])"
    using update_keys [of k e t] by (simp add: t')
  then have "length t' = (if k \<in> set (map fst t) then length t else length t + 1)"
    by (metis length_append_singleton length_map Suc_eq_plus1)
  moreover have "k \<notin> set (map fst t) \<Longrightarrow> length t < 4096" using assms(2) by (auto simp: table_full_def map_of_eq_None_iff)
  ultimately show ?thesis using assms(3,4) distinct_update [of t k e] by (auto simp: t')
qed

lemma count_entry:
  assumes c: "count_attempt now k t = (n, t')" and inv: "\<And>j. entry_inv lim (ts j) (map_of t j) now"
  shows "entry_inv lim (ts j) (map_of t' j) now" "n \<le> lim \<Longrightarrow> entry_inv lim (ts k @ [now]) (map_of t' k) now"
proof -
  obtain e' where e': "e' = attempt_entry now (case map_of t k of None \<Rightarrow> \<lparr>re_started = now, re_attempts = 0\<rparr> | Some e \<Rightarrow> e)"
    "n = re_attempts e'" "t' = AList.update k e' t" using c by (auto simp: count_attempt_def Let_def)
  have m: "map_of t' = (map_of t)(k \<mapsto> e')" by (simp add: e'(3) update_conv')
  note en = entry_attempt [OF inv lim window_pos e'(1)]
  show "entry_inv lim (ts j) (map_of t' j) now" using en(1) inv by (simp add: m)
  show "n \<le> lim \<Longrightarrow> entry_inv lim (ts k @ [now]) (map_of t' k) now" using en(2) by (simp add: m e'(2))
qed

lemma swept_entry:
  assumes "entry_inv lim ts (map_of t k) now" "distinct (map fst t)" "u = t \<or> u = sweep now t"
  shows "entry_inv lim ts (map_of u k) now"
  using assms entry_expires [OF _ _ window_pos, of lim ts _ now] by (auto simp: map_of_sweep not_less split: option.splits)

lemma table_inv_step:
  assumes inv: "table_inv r h" and st: "rate_step r q = (res, r')"
  shows "table_inv r' (h @ [(q, res)])"
proof -
  let ?now = "request_time q"
  from table_step [OF st] obtain t where t: "t = table r \<or> t = sweep ?now (table r)"
    and c: "res \<noteq> Ok () \<and> table r' = t \<or>
         \<not> table_full (key q) t \<and> (\<exists>n. count_attempt ?now (key q) t = (n, table r') \<and> (res = Ok () \<longrightarrow> n \<le> lim))" by blast
  have dt: "distinct (map fst t)" "length t \<le> 4096" using t inv sweep_keeps [where t = "table r" and now = ?now] by (auto simp: table_inv_def)
  from c have size: "distinct (map fst (table r')) \<and> length (table r') \<le> 4096"
  proof (elim disjE conjE exE)
    fix n assume "count_attempt ?now (key q) t = (n, table r')" "\<not> table_full (key q) t"
    from count_keeps [OF this dt] show ?thesis .
  qed (use dt in simp)
  have "entry_inv lim (passed key request_time k (h @ [(q, res)])) (map_of (table r') k) ?now"
    if srt: "sorted (map (request_time \<circ> fst) (h @ [(q, res)]))" for k
  proof -
    let ?then = "if h = [] then 0 else request_time (fst (last h))"
    have le: "?then \<le> ?now" using srt by (auto simp: sorted_append)
    have "entry_inv lim (passed key request_time j h) (map_of (table r) j) ?then" for j
      using inv srt unfolding table_inv_def by (simp add: sorted_append)
    from swept_entry [OF entry_later [OF this le] _ t] inv
    have base: "entry_inv lim (passed key request_time j h) (map_of t j) ?now" for j by (simp add: table_inv_def)
    have p: "passed key request_time k (h @ [(q, res)]) = passed key request_time k h @ (if key q = k \<and> res = Ok () then [?now] else [])"
      by (simp add: passed_def)
    from c show ?thesis
    proof (elim disjE conjE exE)
      fix n assume n: "count_attempt ?now (key q) t = (n, table r')" "res = Ok () \<longrightarrow> n \<le> lim"
      show ?thesis using count_entry [OF n(1) base] n(2) by (auto simp: p)
    qed (use base in \<open>auto simp: p\<close>)
  qed
  then show ?thesis using size by (simp add: table_inv_def)
qed

end

sublocale rate_table \<subseteq> machine_invariant rate_step table_inv
  by unfold_locales (rule table_inv_step)

context rate_table
begin

lemma window_bound:
  assumes "sorted (map request_time qs)" "table r = []"
  shows "span u (u + RATE_WINDOW) (passed key request_time k (trace rate_step r qs)) \<le> 2 * lim"
proof -
  have "table_inv r []" using assms(2) by (simp add: table_inv_def passed_def entry_inv_def span_def since_def)
  then have "table_inv (after rate_step r qs) (trace rate_step r qs)" using inv_after [of r "[]" qs] by simp
  moreover have "map (request_time \<circ> fst) (trace rate_step r qs) = map request_time qs"
    by (induction qs arbitrary: r) (auto simp: Let_def split: prod.splits)
  ultimately show ?thesis using assms(1) by (simp add: table_inv_def entry_inv_def)
qed

lemma size_bound: "table r = [] \<Longrightarrow> length (table (after rate_step r qs)) \<le> 4096"
  using inv_after [of r "[]" qs] by (simp add: table_inv_def passed_def entry_inv_def span_def since_def)

end

lemma rate_step_cases:
  assumes "rate_step r q = (res, r')"
  obtains (full) "res \<noteq> Ok ()" "r' = cleanup (request_time q) r"
  | (counted) n m where "\<not> table_full (fst q) (rt_ips (cleanup (request_time q) r))"
      "\<not> table_full (fst (snd q)) (rt_accounts (cleanup (request_time q) r))"
      "count_attempt (request_time q) (fst q) (rt_ips (cleanup (request_time q) r)) = (n, rt_ips r')"
      "count_attempt (request_time q) (fst (snd q)) (rt_accounts (cleanup (request_time q) r)) = (m, rt_accounts r')"
      "res = Ok () \<longrightarrow> n \<le> 30 \<and> m \<le> 10"
  using assms by (fastforce simp: rate_step_def rates_check_def Let_def split: prod.splits if_splits)

interpretation ip_rates: rate_table rt_ips fst 30
proof
  show "30 < u32_max" by (simp add: u32_max_def)
  fix r q res r' assume "rate_step r q = (res, r')"
  then show "\<exists>t. (t = rt_ips r \<or> t = sweep (request_time q) (rt_ips r)) \<and> (res \<noteq> Ok () \<and> rt_ips r' = t \<or>
      \<not> table_full (fst q) t \<and> (\<exists>n. count_attempt (request_time q) (fst q) t = (n, rt_ips r') \<and> (res = Ok () \<longrightarrow> n \<le> 30)))"
    by (cases rule: rate_step_cases) (auto simp: cleanup_def split: if_splits)
qed

interpretation account_rates: rate_table rt_accounts "\<lambda>q. fst (snd q)" 10
proof
  show "10 < u32_max" by (simp add: u32_max_def)
  fix r q res r' assume "rate_step r q = (res, r')"
  then show "\<exists>t. (t = rt_accounts r \<or> t = sweep (request_time q) (rt_accounts r)) \<and> (res \<noteq> Ok () \<and> rt_accounts r' = t \<or>
      \<not> table_full (fst (snd q)) t \<and> (\<exists>n. count_attempt (request_time q) (fst (snd q)) t = (n, rt_accounts r') \<and> (res = Ok () \<longrightarrow> n \<le> 10)))"
    by (cases rule: rate_step_cases) (auto simp: cleanup_def split: if_splits)
qed

text \<open>
  Property C20. However requests arrive, at most 60 attempts of one address and 20 attempts on one account get
  past the counters in any 60 seconds, and neither table ever holds more than 4096 entries: the
  windows start at an attempt, so that two of them can touch an interval of their length.
\<close>

theorem rates_bounded:
  assumes "sorted (map request_time qs)"
  shows "span u (u + RATE_WINDOW) (passed fst request_time ip (trace rate_step (new_rates t0) qs)) \<le> 60
    \<and> span u (u + RATE_WINDOW) (passed (\<lambda>q. fst (snd q)) request_time account (trace rate_step (new_rates t0) qs)) \<le> 20
    \<and> length (rt_ips (after rate_step (new_rates t0) qs)) \<le> 4096 \<and> length (rt_accounts (after rate_step (new_rates t0) qs)) \<le> 4096"
  using ip_rates.window_bound [OF assms, of "new_rates t0" u ip] account_rates.window_bound [OF assms, of "new_rates t0" u account]
    ip_rates.size_bound [of "new_rates t0" qs] account_rates.size_bound [of "new_rates t0" qs]
  by (simp add: new_rates_def)

theorem rates_bounded_witness:
  "map snd (trace rate_step (new_rates 0) (replicate 11 (V4 127 0 0 1, ''a'', 5))) = replicate 10 (Ok ()) @ [Err Busy]
   \<and> span 0 RATE_WINDOW (passed (\<lambda>q. fst (snd q)) request_time ''a'' (trace rate_step (new_rates 0) (replicate 11 (V4 127 0 0 1, ''a'', 5)))) \<le> 20"
proof -
  have "sorted (map request_time (replicate 11 (V4 127 0 0 1, ''a'', 5)))" by (simp add: request_time_def)
  from rates_bounded [OF this, of 0 _ 0 "''a''"] have "span 0 RATE_WINDOW (passed (\<lambda>q. fst (snd q)) request_time ''a'' (trace rate_step (new_rates 0) (replicate 11 (V4 127 0 0 1, ''a'', 5)))) \<le> 20"
    by simp
  moreover have "map snd (trace rate_step (new_rates 0) (replicate 11 (V4 127 0 0 1, ''a'', 5))) = replicate 10 (Ok ()) @ [Err Busy]"
    by code_simp
  ultimately show ?thesis by blast
qed

section \<open>Who is authenticated\<close>

lemma owned_credentialsD: "(c, a) \<in> set (owned_credentials d) \<Longrightarrow> c \<in> set (credentials d) \<and> a \<in> set (accounts d) \<and> ac_id a = cr_account c"
  by (auto simp: owned_credentials_def)

lemma lookup_SomeD:
  assumes "lookup_db login selector d = Some r"
  obtains c a where "c \<in> set (credentials d)" "a \<in> set (accounts d)" "ac_id a = cr_account c" "ac_login a = login"
    "cr_selector c = selector" "ac_status a = AccountActive" "cr_revoked c = None" "rec_phc r = take 513 (cr_phc c)"
    "rec_principal r = \<lparr>pn_account = ac_id a, pn_credential = cr_id c, pn_epoch = ac_epoch a, pn_scope = cr_scope c\<rparr>"
  using assms by (auto simp: lookup_db_def dest!: first_row_Some owned_credentialsD)

lemma call_store_Ok: "call_store how act s = (Ok x, s') \<longleftrightarrow> how = Answered \<and> act s = (Ok x, s')"
  by (cases how) (auto simp: call_store_def)

lemma credential_lookup_Ok:
  assumes "credential_lookup w login selector s = (Ok (Some r), s')"
  shows "lookup_db (local_key login) selector (st_db s) = Some r \<and> valid_id selector \<and> st_db s' = st_db s"
  using assms by (auto simp: credential_lookup_def query_def return_def split: if_splits)

lemma touch_current:
  assumes "touch_credential i now d = Ok d'"
  shows "current_db p d' \<longleftrightarrow> current_db p d"
proof -
  let ?f = "\<lambda>c. if cr_id c = i then c\<lparr>cr_last_used := Some now\<rparr> else c"
  have d': "accounts d' = accounts d" "credentials d' = map ?f (credentials d)"
    using assms by (auto simp: touch_credential_def update_credentials_def res_simps update_rows_def split: if_splits)
  have "current_row p (?f c) = current_row p c" for c by (simp add: current_row_def fun_eq_iff)
  then show ?thesis unfolding current_db_iff d' set_map by (simp only: bex_simps)
qed

lemma finish_authentication_Ok:
  assumes "finish_authentication w p s = (Ok (), s')"
  shows "current_db p (st_db s) \<and> current_db p (st_db s')"
proof -
  from assms obtain now s1 where "transact w plain_commit (andthen (current w p) (\<lambda>ok. andthen (ensure ok PermissionDenied) (\<lambda>_.
      andthen (exec w (touch_credential (pn_credential p) now)) (\<lambda>_. return ((), True))))) s1 = (Ok (), s')" and d: "st_db s1 = st_db s"
    unfolding finish_authentication_def by (auto simp: tx_simps read_clock_def)
  from transact_OkD [OF this(1)] obtain c s2 where b: "andthen (current w p) (\<lambda>ok. andthen (ensure ok PermissionDenied) (\<lambda>_.
      andthen (exec w (touch_credential (pn_credential p) now)) (\<lambda>_. return ((), True)))) (tick s1) = (Ok ((), c), s2)"
    and s': "st_db s' = (if c then st_db s2 else st_db s1)" by blast
  from b have "c" "current_db p (st_db s1)" "touch_credential (pn_credential p) now (st_db s1) = Ok (st_db s2)"
    by (auto simp: tx_simps current_def query_def ensure_def exec_def split: if_splits sum.splits)
  then show ?thesis using s' d touch_current by auto
qed

lemma verify_short: "verify_token cy a token (take 513 text) \<Longrightarrow> take 513 text = text"
  by (auto simp: verify_token_def)

text \<open>
  Property C18. A principal comes out of authentication only if the attempt passed the counters, an active account with that login owns
  an unrevoked credential whose selector is the token's, the token verifies against exactly the hash stored
  for it, under cost parameters within the configured bounds, and the principal still holds in the store
  both when authentication is confirmed and afterwards.
\<close>

theorem authenticate_sound:
  assumes "service_authenticate w cy au t others ip c (r, s) = (Ok p, r', s')"
  shows "fst (rates_check ip (local_key (pc_login c)) (at_now t) r) = Ok () \<and>
    (\<exists>cr\<in>set (credentials (st_db s)). \<exists>ac\<in>set (accounts (st_db s)).
       ac_id ac = cr_account cr \<and> ac_login ac = local_key (pc_login c) \<and> ac_status ac = AccountActive \<and> cr_revoked cr = None
       \<and> (\<exists>secret. pc_token c = cr_selector cr @ ''.'' @ secret) \<and> valid_id (cr_selector cr)
       \<and> p = \<lparr>pn_account = ac_id ac, pn_credential = cr_id cr, pn_epoch = ac_epoch ac, pn_scope = cr_scope cr\<rparr>
       \<and> (\<exists>ph m i l. parse_phc cy (cr_phc cr) = Some ph \<and> phc_params ph = Some (m, i, l) \<and> verify_password cy (pc_token c) ph
            \<and> m \<le> argon2_memory_kib (as_settings au) \<and> i \<le> argon2_iterations (as_settings au) \<and> l \<le> argon2_lanes (as_settings au)))
    \<and> current_db p (st_db s')"
proof -
  obtain r1 where rc: "rates_check ip (local_key (pc_login c)) (at_now t) r = (Ok (), r1)"
    and ck: "check_credentials w cy au t others c s = (Ok p, s')"
    using assms by (auto simp: service_authenticate_def Let_def split: prod.splits sum.splits)
  from ck obtain x s1 where lk: "credential_lookup w (pc_login c) (selector_of (pc_token c)) s = (Ok (Some x), s1)"
    and v: "verify_token cy (as_settings au) (pc_token c) (rec_phc x)" and p: "p = rec_principal x"
    and fin: "finish_authentication w p (others s1) = (Ok (), s')"
    unfolding check_credentials_def Let_def by (auto simp: call_store_Ok split: if_splits sum.splits prod.splits option.splits)
  note l = credential_lookup_Ok [OF lk]
  obtain cr ac where ca: "cr \<in> set (credentials (st_db s))" "ac \<in> set (accounts (st_db s))" "ac_id ac = cr_account cr"
    "ac_login ac = local_key (pc_login c)" "cr_selector cr = selector_of (pc_token c)" "ac_status ac = AccountActive" "cr_revoked cr = None"
    "rec_phc x = take 513 (cr_phc cr)"
    "rec_principal x = \<lparr>pn_account = ac_id ac, pn_credential = cr_id cr, pn_epoch = ac_epoch ac, pn_scope = cr_scope cr\<rparr>"
    using lookup_SomeD [OF conjunct1 [OF l]] by metis
  have "valid_id (selector_of (pc_token c))" using l by blast
  then have "selector_of (pc_token c) \<noteq> []" by (auto simp: valid_id_def)
  then have tok: "\<exists>secret. pc_token c = cr_selector cr @ ''.'' @ secret"
    unfolding ca(5) by (auto simp: selector_of_def split_once_Some_iff split: option.splits)
  have "rec_phc x = cr_phc cr" using v verify_short unfolding ca(8) by metis
  with v have "verify_token cy (as_settings au) (pc_token c) (cr_phc cr)" by simp
  then have "\<exists>ph m i l. parse_phc cy (cr_phc cr) = Some ph \<and> phc_params ph = Some (m, i, l) \<and> verify_password cy (pc_token c) ph
      \<and> m \<le> argon2_memory_kib (as_settings au) \<and> i \<le> argon2_iterations (as_settings au) \<and> l \<le> argon2_lanes (as_settings au)"
    unfolding verify_token_def by (auto split: option.splits)
  then show ?thesis
    using rc ca tok l p finish_authentication_Ok [OF fin] by (auto intro!: bexI [of _ cr] bexI [of _ ac])
qed

section \<open>An issued credential works\<close>

text \<open>What the code relies on of Argon2 with its PHC strings, and of the random generator.\<close>

definition argon2_laws :: "crypto \<Rightarrow> bool" where
  "argon2_laws cy \<longleftrightarrow> (\<forall>token salt m t l text. hash_password cy token salt m t l = Some text \<longrightarrow> length text \<le> 512 \<and>
     (\<exists>p. parse_phc cy text = Some p \<and> phc_algorithm p = ''argon2id'' \<and> phc_version p = Some 19
        \<and> phc_params p = Some (m, t, l) \<and> phc_hash_len p = Some 32 \<and> verify_password cy token p))"

definition random_laws :: "crypto \<Rightarrow> bool" where
  "random_laws cy \<longleftrightarrow> (\<forall>n k bs. random_fill cy n k = Some bs \<longrightarrow> length bs = k)"

definition calm :: "world \<Rightarrow> bool" where
  "calm w \<longleftrightarrow> (\<forall>n. \<not> w_fails w n \<and> w_commit w n = Committed \<and> (\<exists>v\<ge>0. w_wall w n = Ok v))"

lemma hex_text: "list_all (\<lambda>b. is_ascii_digit b \<or> 97 \<le> code b \<and> code b \<le> 102) (uuid_simple bs)"
  using hex_digit_valid by (auto simp: uuid_simple_def list_all_iff)

lemma hex_text_code: "b \<in> set (uuid_simple bs) \<Longrightarrow> 48 \<le> code b \<and> code b < 128"
  using hex_text [of bs] by (auto simp: list_all_iff is_ascii_digit_def)

lemma utf8_ascii: "(\<And>b. b \<in> set s \<Longrightarrow> code b < 128) \<Longrightarrow> utf8_valid s"
  by (induction s) auto

lemma generated:
  assumes "generate_credential cy n a = Ok (sel, tok, text)" "random_laws cy" "argon2_laws cy"
    "65536 \<le> argon2_memory_kib a" "3 \<le> argon2_iterations a" "1 \<le> argon2_lanes a"
  shows "valid_id sel" "selector_of tok = sel" "length tok = 97" "\<And>b. b \<in> set tok \<Longrightarrow> 46 \<le> code b \<and> code b < 128"
    "verify_token cy a tok text" "length text \<le> 512"
proof -
  obtain r1 r2 salt where r: "random_fill cy n 16 = Some r1" "random_fill cy (n + 1) 32 = Some r2" "random_fill cy (n + 2) 16 = Some salt"
    and sel: "sel = uuid_simple r1" and tok: "tok = sel @ ''.'' @ uuid_simple r2"
    and h: "hash_password cy tok salt (argon2_memory_kib a) (argon2_iterations a) (argon2_lanes a) = Some text"
    using assms(1) by (auto simp: generate_credential_def random_hex_def hash_token_def ok_or_def Let_def res_simps split: option.splits)
  have len: "length r1 = 16" "length r2 = 32" using r assms(2) by (auto simp: random_laws_def)
  show "valid_id sel" using hex_text [of r1] len by (simp add: sel valid_id_def)
  have "CHR ''.'' \<notin> set sel" using hex_text_code [of "CHR ''.''" r1] by (auto simp: sel code_def)
  then show "selector_of tok = sel" by (simp add: selector_of_def tok split_once_Some_iff [THEN iffD2])
  show "length tok = 97" by (simp add: tok sel len)
  show "46 \<le> code b \<and> code b < 128" if "b \<in> set tok" for b
    using that hex_text_code [of b r1] hex_text_code [of b r2] by (auto simp: tok sel code_def)
  show "length text \<le> 512" "verify_token cy a tok text"
    using h assms(3-6) unfolding argon2_laws_def verify_token_def by fastforce+
qed

lemma decode_issued:
  assumes "addr_wf login" "decode enc = Some (NUL # as_str login @ NUL # tok)" "length enc \<le> 1024"
    "length tok \<le> 128" "\<And>b. b \<in> set tok \<Longrightarrow> 46 \<le> code b \<and> code b < 128"
  shows "decode_plain decode enc = Ok \<lparr>pc_login = login, pc_token = tok\<rparr>"
proof -
  have p: "parse (as_str login) = Ok login" using addr_wf_parse [OF assms(1)] .
  have w: "length (as_str login) \<le> 254" using assms(1) by (auto simp: addr_wf_def)
  have safe: "32 \<le> code b \<and> code b < 128" if "b \<in> set (as_str login)" for b
    using addr_wf_wire_safe [OF assms(1) that] by (auto simp: wire_safe_def ascii_simps)
  have "NUL \<notin> set tok" using assms(5) [of NUL] by (auto simp: code_def)
  moreover have "NUL \<notin> set (as_str login)" using safe [of NUL] by (auto simp: code_def)
  ultimately have "split_on (\<lambda>b. b = NUL) (as_str login @ NUL # tok) = [as_str login, tok]"
    using split_on_append [of "\<lambda>b. b = NUL" NUL "as_str login" tok] split_on_none [of tok "\<lambda>b. b = NUL"]
      split_on_none [of "as_str login" "\<lambda>b. b = NUL"] by fastforce
  then have "split_on (\<lambda>b. b = NUL) (NUL # as_str login @ NUL # tok) = [[], as_str login, tok]"
    by (auto split: list.splits)
  moreover have "utf8_valid (as_str login)" "utf8_valid tok" using safe assms(5) by (auto intro: utf8_ascii)
  ultimately show ?thesis using assms(2-4) w p by (simp add: decode_plain_def ok_or_def parse_field_def rbind_def)
qed

lemma create_credential_Ok:
  assumes "create_credential w login sel label sc text s = (Ok i, s')"
  obtains a now where "active_account (local_key login) (st_db s) = Some a"
    "insert_credential a sel label text (the (scope_of sc)) now (st_db s) = Ok (i, st_db s')" "scope_of sc \<noteq> None"
proof -
  from assms have "\<exists>a now. active_account (local_key login) (st_db s) = Some a \<and> scope_of sc \<noteq> None
      \<and> autocommit w (exec_ret w (insert_credential a sel label text (the (scope_of sc)) now)) (tick (tick s)) = (Ok i, s')"
    unfolding create_credential_def
    by (auto simp: tx_simps query_def lift_res_def read_clock_def ok_or_def throw_def split: if_splits option.splits)
  then obtain a now where a: "active_account (local_key login) (st_db s) = Some a" "scope_of sc \<noteq> None"
    and ac: "autocommit w (exec_ret w (insert_credential a sel label text (the (scope_of sc)) now)) (tick (tick s)) = (Ok i, s')" by blast
  from ac obtain s2 where "exec_ret w (insert_credential a sel label text (the (scope_of sc)) now) (tick (tick s)) = (Ok i, s2)" "st_db s' = st_db s2"
    by (cases rule: autocommit_cases) auto
  with a that show thesis by (auto simp: exec_ret_def split: if_splits sum.splits)
qed

lemma lookup_issued:
  assumes ins: "insert_credential a sel label text sc now d = Ok (i, d')" and act: "active_account login d = Some a" and ok: "db_ok d"
  shows "\<exists>p. lookup_db login sel d' = Some \<lparr>rec_principal = p, rec_phc = take 513 text\<rparr> \<and> pn_credential p = i \<and> pn_account p = a
    \<and> pn_scope p = sc \<and> current_db p d'"
proof -
  have d': "accounts d' = accounts d" "credentials d' = credentials d @ [\<lparr>cr_id = i, cr_account = a, cr_selector = sel, cr_label = label,
      cr_phc = text, cr_scope = sc, cr_revoked = None, cr_last_used = None, cr_created = now\<rparr>]"
    and fresh: "fresh_key cr_selector sel (credentials d)"
    using ins by (auto simp: insert_credential_def Let_def insert_row_def res_simps split: if_splits)
  obtain x where x: "x \<in> set (accounts d)" "ac_login x = login" "ac_status x = AccountActive" "ac_id x = a"
    using act by (auto simp: active_account_def dest!: first_row_Some)
  let ?c = "\<lparr>cr_id = i, cr_account = a, cr_selector = sel, cr_label = label,
      cr_phc = text, cr_scope = sc, cr_revoked = None, cr_last_used = None, cr_created = now\<rparr>"
  let ?P = "\<lambda>(c, y). ac_login y = login \<and> cr_selector c = sel \<and> ac_status y = AccountActive \<and> cr_revoked c = None"
  have mem: "(?c, x) \<in> set (owned_credentials d')" using x by (simp add: owned_credentials_def d')
  have only: "z = (?c, x)" if "z \<in> set (owned_credentials d')" "?P z" for z
  proof -
    obtain c y where z: "z = (c, y)" by fastforce
    have "c = ?c" using that fresh by (auto simp: z owned_credentials_def d' fresh_key_def)
    moreover have "y = x" using that x ok al.keyed_same [of "accounts d" y x]
      by (auto simp: z owned_credentials_def d' db_ok_def keys_ok_def)
    ultimately show ?thesis by (simp add: z)
  qed
  have "first_row ?P (owned_credentials d') = Some (?c, x)"
  proof (cases "first_row ?P (owned_credentials d')")
    case None
    then have "\<not> ?P (?c, x)" unfolding first_row_None using mem by blast
    then show ?thesis using x by simp
  next
    case (Some z)
    from first_row_Some [OF this] only [of z] Some show ?thesis by blast
  qed
  then have "lookup_db login sel d' = Some \<lparr>rec_principal = \<lparr>pn_account = a, pn_credential = i, pn_epoch = ac_epoch x, pn_scope = sc\<rparr>,
      rec_phc = take 513 text\<rparr>" by (simp add: lookup_db_def x(4))
  moreover have "current_db \<lparr>pn_account = a, pn_credential = i, pn_epoch = ac_epoch x, pn_scope = sc\<rparr> d'"
    unfolding current_db_iff using x by (auto simp: d' current_row_def intro!: bexI [of _ x])
  ultimately show ?thesis by auto
qed

lemma finish_calm:
  assumes "calm w" "current_db p (st_db s)"
  shows "fst (finish_authentication w p s) = Ok ()"
proof -
  obtain v where v: "w_wall w (st_step s) = Ok v" "v \<ge> 0" using assms(1) by (auto simp: calm_def)
  have c: "\<not> w_fails w n" "w_commit w n = Committed" for n using assms(1) by (auto simp: calm_def)
  have "touch_credential (pn_credential p) now d \<noteq> Err e" for now d e
    by (simp add: touch_credential_def update_credentials_def update_rows_def list_all_iff)
  then show ?thesis
    using assms(2) v c
    by (auto simp: finish_authentication_def andthen_def read_clock_def now_ms_def rbind_def transact_def query_def current_def ensure_def
        return_def exec_def commit_tx_def plain_commit_def split: sum.splits)
qed


text \<open>
  Property C19. A credential that the server generated and the administrator stored can be used: whatever its random bytes,
  the token sent as AUTH PLAIN by the owner of the login decodes to that login and token, and, unless the counters or
  the work queue turn the attempt away, authentication ends with the principal of exactly that credential.
\<close>

theorem issued_credential_works:
  assumes laws: "argon2_laws cy" "random_laws cy" "calm w"
    and settings: "65536 \<le> argon2_memory_kib (as_settings au)" "3 \<le> argon2_iterations (as_settings au)" "1 \<le> argon2_lanes (as_settings au)"
    and gen: "generate_credential cy n (as_settings au) = Ok (sel, tok, text)"
    and new: "create_credential w login sel label ''mail'' text s = (Ok i, s1)" "db_ok (st_db s)" "addr_wf login"
    and enc: "base64_decode cy enc = Some (NUL # as_str login @ NUL # tok)" "length enc \<le> 1024"
    and turn: "at_permits t" "at_lookup t = Answered" "at_join t" "at_finish t = Answered" "\<And>s. st_db (others s) = st_db s"
      "rates_check ip (local_key login) (at_now t) r = (Ok (), r1)"
  shows "decode_plain (base64_decode cy) enc = Ok \<lparr>pc_login = login, pc_token = tok\<rparr>
    \<and> (\<exists>p s2. service_authenticate w cy au t others ip \<lparr>pc_login = login, pc_token = tok\<rparr> (r, s1) = (Ok p, r1, s2)
         \<and> pn_credential p = i \<and> pn_scope p = ScopeMail)"
proof -
  note g = generated [OF gen laws(2,1) settings]
  obtain a now where a: "active_account (local_key login) (st_db s) = Some a"
    "insert_credential a sel label text ScopeMail now (st_db s) = Ok (i, st_db s1)"
    using create_credential_Ok [OF new(1)] by (auto simp: scope_of_def)
  from lookup_issued [OF a(2,1) new(2)] obtain p where p: "lookup_db (local_key login) sel (st_db s1) = Some \<lparr>rec_principal = p, rec_phc = take 513 text\<rparr>"
    "pn_credential p = i" "pn_scope p = ScopeMail" "current_db p (st_db s1)" by auto
  let ?c = "\<lparr>pc_login = login, pc_token = tok\<rparr>"
  have lk: "credential_lookup w login sel s1 = (Ok (Some \<lparr>rec_principal = p, rec_phc = take 513 text\<rparr>), tick s1)"
    using laws(3) p(1) g(1) by (simp add: credential_lookup_def query_def calm_def)
  have "fst (finish_authentication w p (others (tick s1))) = Ok ()" by (rule finish_calm [OF laws(3)]) (simp add: turn(5) p(4))
  then obtain s2 where fin: "finish_authentication w p (others (tick s1)) = (Ok (), s2)" by (metis prod.collapse)
  have "verify_token cy (as_settings au) tok (take 513 text)" using g(5,6) by simp
  then have "check_credentials w cy au t others ?c s1 = (Ok p, s2)"
    by (simp add: check_credentials_def turn call_store_def g(2) lk fin)
  then have "service_authenticate w cy au t others ip ?c (r, s1) = (Ok p, r1, s2)"
    by (simp add: service_authenticate_def turn(6))
  moreover have "decode_plain (base64_decode cy) enc = Ok ?c"
    by (rule decode_issued [where decode = "base64_decode cy", OF new(3) enc]) (use g(3,4) in auto)
  ultimately show ?thesis using p(2,3) by blast
qed


definition sample_crypto :: crypto where
  "sample_crypto = \<lparr>base64_decode = Some,
     parse_phc = (\<lambda>text. if take 15 text = ''$argon2id$v=19$'' then Some \<lparr>phc_algorithm = ''argon2id'', phc_version = Some 19,
       phc_params = Some (65536, 3, 1), phc_hash_len = Some 32, phc_text = drop 15 text\<rparr> else None),
     verify_password = (\<lambda>token p. phc_text p = token),
     hash_password = (\<lambda>token salt m t l. if (m, t, l) = (65536, 3, 1) \<and> length token \<le> 400
       then Some (''$argon2id$v=19$'' @ token) else None),
     random_fill = (\<lambda>n k. Some (replicate k (n mod 256)))\<rparr>"

definition sample_service :: auth_service where
  "sample_service = \<lparr>as_settings = \<lparr>argon2_memory_kib = 65536, argon2_iterations = 3, argon2_lanes = 1, auth_concurrency = 1,
     waiting_requests = 8, queue_timeout_seconds = 5\<rparr>, as_dummy = []\<rparr>"

definition sample_turn :: auth_turn where
  "sample_turn = \<lparr>at_now = 0, at_permits = True, at_lookup = Answered, at_join = True, at_finish = Answered\<rparr>"

definition sample_token :: string where
  "sample_token = replicate 32 (CHR ''0'') @ ''.'' @ concat (replicate 32 ''01'')"

definition sample_created :: "(store_error + int) \<times> store" where
  "sample_created = create_credential quiet_world (Address ''a@b.c'') (replicate 32 (CHR ''0'')) ''phone'' ''mail''
     (''$argon2id$v=19$'' @ sample_token) (store_of sample_mail_db)"

lemma sample_crypto_laws: "argon2_laws sample_crypto" "random_laws sample_crypto" "calm quiet_world"
  by (auto simp: argon2_laws_def random_laws_def sample_crypto_def calm_def quiet_world_def split: if_splits)

lemma sample_generated: "generate_credential sample_crypto 0 (as_settings sample_service) =
    Ok (replicate 32 (CHR ''0''), sample_token, ''$argon2id$v=19$'' @ sample_token)"
  by code_simp

lemma sample_created_Ok: "fst sample_created = Ok 8"
  by code_simp

lemma sample_login: "addr_wf (Address ''a@b.c'')"
  by (rule parse_wf [of "''a@b.c''"]) code_simp

theorem issued_credential_works_witness:
  "\<exists>p s2. service_authenticate quiet_world sample_crypto sample_service sample_turn id (V4 127 0 0 1)
      \<lparr>pc_login = Address ''a@b.c'', pc_token = sample_token\<rparr> (new_rates 0, snd sample_created) =
      (Ok p, snd (rates_check (V4 127 0 0 1) (local_key (Address ''a@b.c'')) 0 (new_rates 0)), s2) \<and> pn_credential p = 8 \<and> pn_scope p = ScopeMail"
proof -
  have c: "create_credential quiet_world (Address ''a@b.c'') (replicate 32 (CHR ''0'')) ''phone'' ''mail''
     (''$argon2id$v=19$'' @ sample_token) (store_of sample_mail_db) = (Ok 8, snd sample_created)"
    using sample_created_Ok unfolding sample_created_def by (metis prod.collapse)
  have "fst (rates_check (V4 127 0 0 1) (local_key (Address ''a@b.c'')) 0 (new_rates 0)) = Ok ()" by code_simp
  then have r: "rates_check (V4 127 0 0 1) (local_key (Address ''a@b.c'')) (at_now sample_turn) (new_rates 0) =
      (Ok (), snd (rates_check (V4 127 0 0 1) (local_key (Address ''a@b.c'')) 0 (new_rates 0)))"
    by (simp add: sample_turn_def prod_eq_iff)
  have ok: "db_ok (st_db (store_of sample_mail_db))" by (simp add: store_of_def sample_mail_inv(2))
  have st: "65536 \<le> argon2_memory_kib (as_settings sample_service)" "3 \<le> argon2_iterations (as_settings sample_service)"
    "1 \<le> argon2_lanes (as_settings sample_service)" by (simp_all add: sample_service_def)
  have en: "base64_decode sample_crypto (NUL # ''a@b.c'' @ NUL # sample_token) = Some (NUL # as_str (Address ''a@b.c'') @ NUL # sample_token)"
    "length (NUL # ''a@b.c'' @ NUL # sample_token) \<le> 1024" by code_simp+
  have tu: "at_permits sample_turn" "at_lookup sample_turn = Answered" "at_join sample_turn" "at_finish sample_turn = Answered"
    "\<And>s. st_db (id s) = st_db s" by (simp_all add: sample_turn_def)
  show ?thesis
    using issued_credential_works [OF sample_crypto_laws st sample_generated c ok sample_login en tu r] by blast
qed

theorem authenticate_sound_witness:
  "\<exists>p. current_db p (st_db (snd (snd (service_authenticate quiet_world sample_crypto sample_service sample_turn id (V4 127 0 0 1)
      \<lparr>pc_login = Address ''a@b.c'', pc_token = sample_token\<rparr> (new_rates 0, snd sample_created)))))"
proof -
  have "is_ok (fst (service_authenticate quiet_world sample_crypto sample_service sample_turn id (V4 127 0 0 1)
      \<lparr>pc_login = Address ''a@b.c'', pc_token = sample_token\<rparr> (new_rates 0, snd sample_created)))" by code_simp
  then have "\<exists>p. fst (service_authenticate quiet_world sample_crypto sample_service sample_turn id (V4 127 0 0 1)
      \<lparr>pc_login = Address ''a@b.c'', pc_token = sample_token\<rparr> (new_rates 0, snd sample_created)) = Ok p"
    unfolding is_ok_def by (simp only: split: sum.splits) blast
  then obtain p r' s' where "service_authenticate quiet_world sample_crypto sample_service sample_turn id (V4 127 0 0 1)
      \<lparr>pc_login = Address ''a@b.c'', pc_token = sample_token\<rparr> (new_rates 0, snd sample_created) = (Ok p, r', s')" by (metis prod.collapse)
  from authenticate_sound [OF this] this show ?thesis by auto
qed

end
