(* ===== verification/Smtp_Server.thy ===== *)
theory Smtp_Server
  imports Mail_Trace Session Server_Auth
begin

text \<open>
  One SMTP connection, \<open>smtp_session\<close> of \<open>crates/server/src/lib.rs\<close> with the dialogue of
  \<open>crates/server/src/auth_dialog.rs\<close>, the roles of \<open>crates/server/src/transport.rs\<close> and the calls through
  \<open>crates/server/src/worker.rs\<close>. A turn is one pass of the command loop; it ends the session or goes on.

  The connection shares the store, the message files and the attempt counters with other tasks.
  Everything the operating system, the peer's timing, the TLS library and those tasks decide is the record
  \<open>host\<close>, a function of the number of the step at which it is asked: which branch of a \<open>select!\<close> wins, whether a write
  succeeds, whether a semaphore has a permit, what the other tasks have done to the shared state by then. Both
  deadlines of DATA (total and idle) are one outcome of its \<open>select!\<close>, since they are answered alike.
\<close>

section \<open>The connection and its surroundings\<close>

datatype role = Receiver | ImplicitSubmission | StartTlsSubmission

definition role_submission :: "role \<Rightarrow> bool" where
  "role_submission r \<longleftrightarrow> r \<noteq> Receiver"

record shared =
  sh_store :: store
  sh_disk :: disk
  sh_rates :: rates

datatype selected = SelReady | SelRevoked | SelDeadline

record host =
  h_world :: world
  h_crypto :: crypto
  h_sha256 :: "bytes \<Rightarrow> string"
  h_select :: "nat \<Rightarrow> selected"
  h_write :: "nat \<Rightarrow> bool"
  h_others :: "nat \<Rightarrow> shared \<Rightarrow> shared"
  h_reach :: "nat \<Rightarrow> reach"
  h_slot :: "nat \<Rightarrow> bool"
  h_tls_config :: "nat \<Rightarrow> bool"
  h_handshake :: "nat \<Rightarrow> bytes list option"
  h_auth :: "nat \<Rightarrow> auth_turn"
  h_space :: "nat \<Rightarrow> nat \<times> nat"
  h_uuid :: "nat \<Rightarrow> nat list"
  h_date :: "nat \<Rightarrow> string option"
  h_hook :: "nat \<Rightarrow> fault_point \<Rightarrow> bool"
  h_fails :: "nat \<Rightarrow> disk_call \<Rightarrow> bool"
  h_script :: "nat \<Rightarrow> write_script"
  h_unlinks :: "nat \<Rightarrow> bool"

text \<open>\<open>SessionContext\<close>; \<open>cx_auth\<close> is what \<open>auth.filter(|_| role.submission())\<close> leaves.\<close>

record session_context =
  cx_config :: config
  cx_service :: "auth_service option"
  cx_peer :: ip_addr
  cx_tls :: bool
  cx_role :: role

definition cx_auth :: "session_context \<Rightarrow> auth_service option" where
  "cx_auth cx = (if role_submission (cx_role cx) then cx_service cx else None)"

text \<open>What \<open>log_event\<close> records of a message.\<close>

datatype log_entry = MessageAccepted string string | OutcomeUnknownLogged string | AuthSucceeded | AuthFailedLogged

record sconn =
  sv_session :: session
  sv_principal :: "principal option"
  sv_attempts :: nat
  sv_encrypted :: bool
  sv_input :: "bytes list"
  sv_out :: "bytes list"
  sv_log :: "log_entry list"
  sv_shared :: shared
  sv_step :: nat

text \<open>How a session ends: \<open>return Ok(())\<close>, an error, or, which does not happen, an append that does not return.\<close>

datatype ending = Closed | Failed server_error | Hangs

type_synonym 'a turn = "sconn \<Rightarrow> (ending + 'a) \<times> sconn"

definition proceed :: "'a \<Rightarrow> 'a turn" where
  "proceed x c = (Ok x, c)"

definition stop :: "ending \<Rightarrow> 'a turn" where
  "stop e c = (Err e, c)"

definition seqt :: "'a turn \<Rightarrow> ('a \<Rightarrow> 'b turn) \<Rightarrow> 'b turn" where
  "seqt m k c = (case m c of (Err e, c') \<Rightarrow> (Err e, c') | (Ok x, c') \<Rightarrow> k x c')"

definition get :: "(sconn \<Rightarrow> 'a) \<Rightarrow> 'a turn" where
  "get f c = (Ok (f c), c)"

definition put :: "(sconn \<Rightarrow> sconn) \<Rightarrow> unit turn" where
  "put f c = (Ok (), f c)"

text \<open>What the host decides at this step.\<close>

definition decide :: "(nat \<Rightarrow> 'a) \<Rightarrow> 'a turn" where
  "decide f c = (Ok (f (sv_step c)), c\<lparr>sv_step := sv_step c + 1\<rparr>)"

text \<open>\<open>write_response\<close>, \<open>reply\<close>, and \<open>let _ = reply(\<dots>)\<close>.\<close>

definition say :: "host \<Rightarrow> bytes \<Rightarrow> unit turn" where
  "say h b = seqt (decide (h_write h)) (\<lambda>ok. if ok then put (\<lambda>c. c\<lparr>sv_out := sv_out c @ [b]\<rparr>) else stop (Failed (SIo OtherIo)))"

definition reply_line :: "nat \<Rightarrow> string \<Rightarrow> bytes" where
  "reply_line n t = show_nat n @ '' '' @ t @ CRLF"

definition answer :: "host \<Rightarrow> nat \<Rightarrow> string \<Rightarrow> unit turn" where
  "answer h n t = say h (reply_line n t)"

definition answer_quietly :: "host \<Rightarrow> nat \<Rightarrow> string \<Rightarrow> unit turn" where
  "answer_quietly h n t = seqt (decide (h_write h)) (\<lambda>ok. if ok then put (\<lambda>c. c\<lparr>sv_out := sv_out c @ [reply_line n t]\<rparr>) else proceed ())"

text \<open>The other tasks act; then a call to the store worker.\<close>

definition interleave :: "host \<Rightarrow> unit turn" where
  "interleave h = seqt (decide (h_others h)) (\<lambda>f. put (\<lambda>c. c\<lparr>sv_shared := f (sv_shared c)\<rparr>))"

definition on_store :: "'a Database.action \<Rightarrow> (store_error + 'a) turn" where
  "on_store act c =
     (let (r, s) = act (sh_store (sv_shared c)) in (Ok r, c\<lparr>sv_shared := (sv_shared c)\<lparr>sh_store := s\<rparr>\<rparr>))"

definition ask :: "host \<Rightarrow> 'a Database.action \<Rightarrow> (store_error + 'a) turn" where
  "ask h act = seqt (interleave h) (\<lambda>_. seqt (decide (h_reach h)) (\<lambda>how. on_store (call_store how act)))"

definition log_entry_add :: "log_entry \<Rightarrow> unit turn" where
  "log_entry_add e = put (\<lambda>c. c\<lparr>sv_log := sv_log c @ [e]\<rparr>)"

definition next_line :: "nat \<Rightarrow> (io_error + bytes option) turn" where
  "next_line n c = (let (r, rest) = read_line n (sv_input c) in (Ok r, c\<lparr>sv_input := rest\<rparr>))"

section \<open>Commands\<close>

definition is_local :: "config \<Rightarrow> address \<Rightarrow> bool" where
  "is_local cfg a \<longleftrightarrow> list_ex (\<lambda>d. eq_ignore_ascii_case d (domain a)) (local_domains cfg)"

text \<open>The \<open>select!\<close> at the head of the loop. Waiting for a revocation never ends without a principal.\<close>

definition revocation_wins :: "selected \<Rightarrow> sconn \<Rightarrow> bool" where
  "revocation_wins sel c \<longleftrightarrow> sel = SelRevoked \<and> sv_principal c \<noteq> None"

definition next_command :: "session_context \<Rightarrow> host \<Rightarrow> bytes turn" where
  "next_command cx h =
     seqt (decide (h_select h)) (\<lambda>sel. seqt (get (revocation_wins sel)) (\<lambda>rev.
       if rev then seqt (answer h 421 ''4.7.0 Session authorization changed'') (\<lambda>_. stop Closed)
       else if sel = SelDeadline then seqt (answer_quietly h 421 ''4.4.2 Command timeout'') (\<lambda>_. stop Closed)
       else seqt (next_line (if cx_auth cx \<noteq> None then 1024 else 538)) (\<lambda>r.
         case r of
           Err e \<Rightarrow> seqt (answer_quietly h 500 ''5.5.2 Invalid framing'') (\<lambda>_. stop (Failed (SIo e)))
         | Ok None \<Rightarrow> stop Closed
         | Ok (Some b) \<Rightarrow> proceed b)))"

definition verb_of :: "bytes \<Rightarrow> bytes" where
  "verb_of b = hd (split_on (\<lambda>c. c = SP) b)"

definition command_limit :: "role \<Rightarrow> bytes \<Rightarrow> nat" where
  "command_limit r b =
     (if eq_ignore_ascii_case (verb_of b) ''AUTH'' \<and> role_submission r then 1024
      else if eq_ignore_ascii_case (verb_of b) ''MAIL'' then 538 else 512)"

section \<open>AUTH\<close>

datatype auth_outcome = AuthIgnored | AuthFailed | Authenticated principal

text \<open>\<open>auth.authenticate\<close> with what the other tasks do before the call and, \<open>f\<close>, between its two uses of the store.\<close>

definition authenticate_with :: "session_context \<Rightarrow> host \<Rightarrow> auth_service \<Rightarrow> plain_credentials \<Rightarrow> auth_turn \<Rightarrow> (shared \<Rightarrow> shared) \<Rightarrow>
    (auth_error + principal) turn" where
  "authenticate_with cx h au cred t f c =
     (let sh = sv_shared c;
          (r, rt, s) = service_authenticate (h_world h) (h_crypto h) au t (\<lambda>s. sh_store (f (sh\<lparr>sh_store := s\<rparr>))) (cx_peer cx) cred
            (sh_rates sh, sh_store sh)
      in (Ok r, c\<lparr>sv_shared := sh\<lparr>sh_store := s, sh_rates := rt\<rparr>\<rparr>))"

definition run_authenticate :: "session_context \<Rightarrow> host \<Rightarrow> auth_service \<Rightarrow> plain_credentials \<Rightarrow> (auth_error + principal) turn" where
  "run_authenticate cx h au cred =
     seqt (interleave h) (\<lambda>_. seqt (decide (h_auth h)) (\<lambda>t. seqt (decide (h_others h)) (authenticate_with cx h au cred t)))"

definition auth_initial :: "host \<Rightarrow> bytes list \<Rightarrow> bytes turn" where
  "auth_initial h parts =
     (if length parts = 3 then proceed (parts ! 2)
      else seqt (say h (''334 '' @ CRLF)) (\<lambda>_. seqt (decide (h_select h)) (\<lambda>sel.
        if sel = SelDeadline then stop (Failed (SIo TimedOut))
        else seqt (next_line 1024) (\<lambda>r. case r of
               Err e \<Rightarrow> stop (Failed (SIo e))
             | Ok None \<Rightarrow> stop (Failed (SIo OtherIo))
             | Ok (Some b) \<Rightarrow> proceed b))))"

definition auth_dialog :: "session_context \<Rightarrow> host \<Rightarrow> auth_service \<Rightarrow> bytes \<Rightarrow> auth_outcome turn" where
  "auth_dialog cx h au b =
     (let parts = split_on (\<lambda>c. c = SP) b in
      if \<not> (2 \<le> length parts \<and> length parts \<le> 3) \<or> \<not> eq_ignore_ascii_case (parts ! 1) ''PLAIN''
      then seqt (answer h 504 ''5.5.4 Use AUTH PLAIN'') (\<lambda>_. proceed AuthIgnored)
      else seqt (auth_initial h parts) (\<lambda>encoded.
        if encoded = ''*'' then seqt (answer h 501 ''5.7.0 Authentication cancelled'') (\<lambda>_. proceed AuthIgnored)
        else seqt (case decode_plain (base64_decode (h_crypto h)) encoded of
                Err e \<Rightarrow> proceed (Err e) | Ok cred \<Rightarrow> run_authenticate cx h au cred) (\<lambda>r.
          case r of
            Ok p \<Rightarrow> seqt (answer h 235 ''2.7.0 Authentication successful'') (\<lambda>_.
                    seqt (log_entry_add AuthSucceeded) (\<lambda>_. proceed (Authenticated p)))
          | Err Denied \<Rightarrow> seqt (answer h 535 ''5.7.8 Authentication failed'') (\<lambda>_.
                    seqt (log_entry_add AuthFailedLogged) (\<lambda>_. proceed AuthFailed))
          | Err Busy \<Rightarrow> seqt (answer h 454 ''4.7.0 Authentication temporarily unavailable'') (\<lambda>_. proceed AuthFailed))))"

definition auth_command :: "session_context \<Rightarrow> host \<Rightarrow> bytes \<Rightarrow> unit turn" where
  "auth_command cx h b =
     (if \<not> role_submission (cx_role cx) then answer h 502 ''5.5.1 AUTH not available on receiver''
      else seqt (get id) (\<lambda>c.
        if \<not> sv_encrypted c then answer h 538 ''5.7.11 Encryption required''
        else case cx_auth cx of
          None \<Rightarrow> answer h 538 ''5.7.11 Encryption required''
        | Some au \<Rightarrow>
            if sv_principal c \<noteq> None \<or> \<not> authentication_allowed (sv_session c)
            then answer h 503 ''5.5.1 AUTH not allowed in this state''
            else seqt (auth_dialog cx h au b) (\<lambda>out.
              seqt (put (\<lambda>c. case out of
                     Authenticated p \<Rightarrow> c\<lparr>sv_principal := Some p\<rparr>
                   | AuthFailed \<Rightarrow> c\<lparr>sv_attempts := sv_attempts c + 1\<rparr>
                   | AuthIgnored \<Rightarrow> c)) (\<lambda>_.
              seqt (get (\<lambda>c. sv_attempts c \<ge> 5 \<and> sv_principal c = None)) (\<lambda>over.
                if over then stop Closed else proceed ())))))"

section \<open>DATA\<close>

definition on_disk :: "(disk \<Rightarrow> 'a \<times> disk) \<Rightarrow> 'a turn" where
  "on_disk f c =
     (let (r, d) = f (sh_disk (sv_shared c)) in (Ok r, c\<lparr>sv_shared := (sv_shared c)\<lparr>sh_disk := d\<rparr>\<rparr>))"

definition drop_stage :: "host \<Rightarrow> staged \<Rightarrow> unit turn" where
  "drop_stage h st = seqt (decide (h_unlinks h)) (\<lambda>u. on_disk (\<lambda>d. ((), drop_resources u st d)))"

text \<open>\<open>store.stage()\<close> under its deadline: a stage nobody waits for any more is dropped by the worker.\<close>

definition open_stage :: "session_context \<Rightarrow> host \<Rightarrow> (store_error + staged) turn" where
  "open_stage cx h =
     seqt (interleave h) (\<lambda>_. seqt (decide (h_reach h)) (\<lambda>how.
       if how = Unsent then proceed (Err WorkerUnavailable)
       else seqt (decide (\<lambda>n. (h_hook h n, h_space h n, h_uuid h n))) (\<lambda>(hook, (tot, avail), u).
            seqt (on_disk (create_stage hook tot avail (store_options_of (cx_config cx)) (uuid_simple u))) (\<lambda>r.
            case r of
              Err e \<Rightarrow> proceed (Err e)
            | Ok st \<Rightarrow> if how = Answered then proceed (Ok st)
                       else seqt (drop_stage h st) (\<lambda>_. proceed (Err WorkerUnavailable))))))"

definition trace_facts_of :: "session_context \<Rightarrow> sconn \<Rightarrow> trace_facts" where
  "trace_facts_of cx c = \<lparr>tr_hostname = hostname (cx_config cx), tr_greeting = greeting (sv_session c), tr_peer = cx_peer cx,
     tr_extended = extended (sv_session c), tr_encrypted = sv_encrypted c, tr_authenticated = sv_principal c \<noteq> None\<rparr>"

text \<open>\<open>receive_message\<close> on the rest of the input; its stage is dropped whenever it fails.\<close>

definition receive_on :: "session_context \<Rightarrow> host \<Rightarrow> envelope \<Rightarrow> bytes \<Rightarrow> staged \<Rightarrow> (server_error + prepared \<times> address option) turn" where
  "receive_on cx h env pre st =
     seqt (decide (\<lambda>n. (h_hook h n, h_fails h n, h_script h n))) (\<lambda>(hook, fails, script) c.
       case receive_message (h_sha256 h) hook fails (c_limits (cx_config cx)) (cx_auth cx \<noteq> None) (env_body env) pre st
              (sh_disk (sv_shared c)) script (sv_input c) of
         None \<Rightarrow> (Err Hangs, c)
       | Some (r, st', d, rest) \<Rightarrow>
           let c' = c\<lparr>sv_input := rest, sv_shared := (sv_shared c)\<lparr>sh_disk := d\<rparr>\<rparr> in
           (case r of Ok x \<Rightarrow> (Ok (Ok x), c') | Err e \<Rightarrow> seqt (drop_stage h st') (\<lambda>_. proceed (Err e)) c'))"

text \<open>The answers to a message that could not be received; the session ends after each of them.\<close>

definition invalid_data :: "io_error \<Rightarrow> bool" where
  "invalid_data e \<longleftrightarrow> (case e of InvalidData _ \<Rightarrow> True | InvalidText \<Rightarrow> True | _ \<Rightarrow> False)"

definition refuse_data :: "host \<Rightarrow> server_error \<Rightarrow> unit turn" where
  "refuse_data h e =
     seqt (case e of
        Storage SizeLimit \<Rightarrow> answer h 552 ''5.3.4 Message or headers too large''
      | Storage PermissionDenied \<Rightarrow> answer h 550 ''5.7.1 Invalid submission identity headers''
      | InvalidHeaders \<Rightarrow> answer h 550 ''5.6.0 Invalid message headers''
      | SIo io \<Rightarrow> if invalid_data io then answer h 554 ''5.6.0 Invalid DATA framing or encoding''
                  else if io = TimedOut then answer h 421 ''4.4.2 DATA timeout''
                  else answer_quietly h 451 ''4.3.0 DATA incomplete or unavailable''
      | _ \<Rightarrow> answer_quietly h 451 ''4.3.0 DATA incomplete or unavailable'') (\<lambda>_. stop Closed)"

text \<open>\<open>StoreClient::accept\<close> with the worker's dispatch; the reservation of the message ends with the call.
  A deadline that passes first leaves the outcome unknown, whether or not the request was sent.\<close>

definition worker_accept :: "world \<Rightarrow> prepared \<Rightarrow> acceptance \<Rightarrow> submission_identity option \<Rightarrow> relay_acceptance option \<Rightarrow>
    accepted_message Database.action" where
  "worker_accept w pm plan who rl =
     (case (who, rl) of
        (Some i, Some r) \<Rightarrow> accept_relay_submission w True pm plan i r
      | (Some i, None) \<Rightarrow> accept_submission w True pm plan i
      | (None, None) \<Rightarrow> accept w True pm plan
      | (None, Some _) \<Rightarrow> throw PermissionDenied)"

definition client_accept :: "host \<Rightarrow> prepared \<Rightarrow> acceptance \<Rightarrow> submission_identity option \<Rightarrow> relay_acceptance option \<Rightarrow>
    (store_error + accepted_message) turn" where
  "client_accept h pm plan who rl =
     seqt (interleave h) (\<lambda>_. seqt (decide (h_reach h)) (\<lambda>how. seqt (decide (h_select h)) (\<lambda>sel.
     seqt (if how = Unsent then proceed (Err WorkerUnavailable) else on_store (worker_accept (h_world h) pm plan who rl)) (\<lambda>r.
     seqt (on_disk (\<lambda>d. ((), release (pr_reservation pm) d))) (\<lambda>_.
     proceed (if how = Unheard \<or> sel = SelDeadline then Err OutcomeUnknown else r))))))"

definition relay_part :: "config \<Rightarrow> envelope \<Rightarrow> relay_acceptance option" where
  "relay_part cfg env =
     (let remote = filter (\<lambda>r. \<not> is_local cfg r) (env_recipients env) in
      if remote = [] then None
      else Some \<lparr>ra_recipients = remote, ra_body = (if env_body env = SevenBit then SevenBitBody else EightBitMimeBody),
                 ra_age = max_age_seconds (c_delivery cfg)\<rparr>)"

definition acceptance_of :: "config \<Rightarrow> string \<Rightarrow> envelope \<Rightarrow> acceptance" where
  "acceptance_of cfg op env = \<lparr>ap_operation = op, ap_sender = env_sender env,
     ap_recipients = filter (is_local cfg) (env_recipients env)\<rparr>"

definition identity_of :: "principal option \<Rightarrow> address option \<Rightarrow> server_error + submission_identity option" where
  "identity_of p auth =
     (case (p, auth) of
        (Some q, Some a) \<Rightarrow> Ok (Some \<lparr>si_principal = q, si_author = a\<rparr>)
      | (None, None) \<Rightarrow> Ok None
      | _ \<Rightarrow> Err (Storage PermissionDenied))"

text \<open>A positive reply only for a message that was accepted, and no reply at all when the outcome is unknown.\<close>

definition acceptance_reply :: "host \<Rightarrow> string \<Rightarrow> store_error + accepted_message \<Rightarrow> unit turn" where
  "acceptance_reply h op r =
     (case r of
        Ok a \<Rightarrow> seqt (log_entry_add (MessageAccepted (am_id a) op)) (\<lambda>_. say h (''250 2.0.0 Accepted '' @ am_id a @ CRLF))
      | Err e \<Rightarrow>
          if e = OutcomeUnknown then seqt (log_entry_add (OutcomeUnknownLogged op)) (\<lambda>_. stop Closed)
          else if e = Quota then answer h 452 ''4.2.2 Mailbox quota exceeded''
          else if e = PermissionDenied then answer h 550 ''5.7.1 Submission identity denied or revoked''
          else if e = RecipientUnavailable then answer h 451 ''4.3.0 Recipient changed; retry transaction''
          else answer h 451 ''4.3.0 Commit rejected'')"

definition commit_data :: "session_context \<Rightarrow> host \<Rightarrow> envelope \<Rightarrow> string \<Rightarrow> prepared \<Rightarrow> address option \<Rightarrow> unit turn" where
  "commit_data cx h env op pm auth =
     seqt (get sv_principal) (\<lambda>p.
       case identity_of p auth of
         Err e \<Rightarrow> seqt (on_disk (\<lambda>d. ((), release (pr_reservation pm) d))) (\<lambda>_. stop (Failed e))
       | Ok who \<Rightarrow> seqt (client_accept h pm (acceptance_of (cx_config cx) op env) who (relay_part (cx_config cx) env))
                     (acceptance_reply h op))"

definition take_data :: "session_context \<Rightarrow> host \<Rightarrow> envelope \<Rightarrow> string \<Rightarrow> bytes \<Rightarrow> staged \<Rightarrow> unit turn" where
  "take_data cx h env op pre st =
     seqt (decide (h_select h)) (\<lambda>sel. seqt (get (revocation_wins sel)) (\<lambda>rev.
       if rev then seqt (drop_stage h st) (\<lambda>_. seqt (answer h 421 ''4.7.0 Session authorization changed'') (\<lambda>_. stop Closed))
       else if sel = SelDeadline then seqt (drop_stage h st) (\<lambda>_. seqt (answer h 421 ''4.4.2 DATA timeout'') (\<lambda>_. stop Closed))
       else seqt (receive_on cx h env pre st) (\<lambda>r.
         case r of Err e \<Rightarrow> refuse_data h e | Ok (pm, auth) \<Rightarrow> commit_data cx h env op pm auth)))"

text \<open>An early return between the stage and the message drops the stage.\<close>

definition or_drop :: "host \<Rightarrow> staged \<Rightarrow> 'a turn \<Rightarrow> 'a turn" where
  "or_drop h st m c = (case m c of (Err e, c') \<Rightarrow> (Err e, snd (drop_stage h st c')) | (Ok x, c') \<Rightarrow> (Ok x, c'))"

definition begin_data :: "session_context \<Rightarrow> host \<Rightarrow> envelope \<Rightarrow> unit turn" where
  "begin_data cx h env =
     seqt (decide (h_slot h)) (\<lambda>permit.
     if \<not> permit then answer h 452 ''4.3.1 Ingest capacity exhausted''
     else seqt (open_stage cx h) (\<lambda>r.
       case r of
         Err _ \<Rightarrow> answer h 452 ''4.3.1 Storage unavailable''
       | Ok st \<Rightarrow>
           seqt (decide (\<lambda>n. (uuid_simple (h_uuid h n), h_date h n))) (\<lambda>(op, date).
           seqt (or_drop h st (seqt (get (trace_facts_of cx)) (\<lambda>t.
             case trace_prefix t (env_sender env) op date of
               Err e \<Rightarrow> stop (Failed e)
             | Ok pre \<Rightarrow> seqt (answer h 354 ''Send message; end with <CRLF>.<CRLF>'') (\<lambda>_. proceed pre)))) (\<lambda>pre.
           take_data cx h env op pre st))))"

section \<open>Acting on a command\<close>

definition hello_text :: "session_context \<Rightarrow> sconn \<Rightarrow> bool \<Rightarrow> bytes" where
  "hello_text cx c ext =
     (let cfg = cx_config cx in
      if ext then ''250-'' @ hostname cfg @ CRLF @ ''250-SIZE '' @ show_nat (limits.message_bytes (c_limits cfg)) @ CRLF
        @ ''250-8BITMIME'' @ CRLF @ ''250-PIPELINING'' @ CRLF
        @ (if \<not> sv_encrypted c \<and> cx_tls cx then ''250-STARTTLS'' @ CRLF
           else if sv_encrypted c \<and> cx_auth cx \<noteq> None \<and> sv_principal c = None then ''250-AUTH PLAIN'' @ CRLF else [])
        @ ''250 ENHANCEDSTATUSCODES'' @ CRLF
      else ''250 '' @ hostname cfg @ CRLF)"

definition fresh_session :: "config \<Rightarrow> session" where
  "fresh_session cfg = new_session (limits.message_bytes (c_limits cfg)) (recipients_per_message (c_limits cfg))"

text \<open>The upgrade drops every byte read ahead; what the handshake yields is all the session reads from then on.\<close>

definition start_tls :: "session_context \<Rightarrow> host \<Rightarrow> unit turn" where
  "start_tls cx h =
     seqt (get sv_encrypted) (\<lambda>enc.
     if enc then answer h 503 ''5.5.1 TLS already active''
     else if \<not> cx_tls cx then answer h 502 ''5.5.1 STARTTLS not available''
     else seqt (decide (h_slot h)) (\<lambda>permit.
       if \<not> permit then answer h 454 ''4.7.0 TLS capacity exhausted''
       else seqt (decide (h_tls_config h)) (\<lambda>ok.
         if \<not> ok then stop (Failed (SIo OtherIo))
         else seqt (answer h 220 ''2.0.0 Ready to start TLS'') (\<lambda>_.
           seqt (decide (h_handshake h)) (\<lambda>hs.
           case hs of
             None \<Rightarrow> stop (Failed (SIo OtherIo))
           | Some chunks \<Rightarrow> put (\<lambda>c. c\<lparr>sv_input := chunks, sv_encrypted := True, sv_session := fresh_session (cx_config cx),
                                      sv_principal := None\<rparr>))))))"

definition check_recipient :: "session_context \<Rightarrow> host \<Rightarrow> address \<Rightarrow> unit turn" where
  "check_recipient cx h a =
     (let loc = is_local (cx_config cx) a in
      seqt (if loc then ask h (recipient_exists (h_world h) a)
            else get (\<lambda>c. Ok (d_mode (c_delivery (cx_config cx)) = Relay \<and> sv_principal c \<noteq> None
                   \<and> role_submission (cx_role cx) \<and> sv_encrypted c))) (\<lambda>r.
      case r of
        Ok exists \<Rightarrow> seqt (\<lambda>c. let (rep, s) = routed_recipient_result (sv_session c) a exists loc in (Ok rep, c\<lparr>sv_session := s\<rparr>))
          (\<lambda>rep. answer h (reply_code rep) (reply_text rep))
      | Err _ \<Rightarrow> answer h 451 ''4.3.0 Recipient lookup unavailable''))"

definition apply_turn :: "command \<Rightarrow> Session.action turn" where
  "apply_turn cmd c = (let (a, s) = apply_command (sv_session c) cmd in (Ok a, c\<lparr>sv_session := s\<rparr>))"

definition act_on :: "session_context \<Rightarrow> host \<Rightarrow> Session.action \<Rightarrow> unit turn" where
  "act_on cx h a =
     (case a of
        ActReply r \<Rightarrow> answer h (reply_code r) (reply_text r)
      | ActHello ext \<Rightarrow> seqt (get (\<lambda>c. hello_text cx c ext)) (say h)
      | ActStartTls \<Rightarrow> start_tls cx h
      | ActQuit \<Rightarrow> seqt (answer h 221 ''2.0.0 Bye'') (\<lambda>_. stop Closed)
      | CheckRecipient adr \<Rightarrow> check_recipient cx h adr
      | BeginData env \<Rightarrow> begin_data cx h env)"

definition allowed_in_clear :: "command \<Rightarrow> bool" where
  "allowed_in_clear cmd \<longleftrightarrow> (case cmd of Ehlo _ \<Rightarrow> True | Helo _ \<Rightarrow> True | Reset \<Rightarrow> True | Noop \<Rightarrow> True | Help \<Rightarrow> True
     | Verify \<Rightarrow> True | StartTls \<Rightarrow> True | Quit \<Rightarrow> True | _ \<Rightarrow> False)"

definition is_mail :: "command \<Rightarrow> bool" where
  "is_mail cmd \<longleftrightarrow> (case cmd of Mail _ _ _ \<Rightarrow> True | _ \<Rightarrow> False)"

definition needs_login :: "command \<Rightarrow> bool" where
  "needs_login cmd \<longleftrightarrow> (case cmd of Mail _ _ _ \<Rightarrow> True | Rcpt _ \<Rightarrow> True | Data \<Rightarrow> True | _ \<Rightarrow> False)"

definition reset_transaction :: "unit turn" where
  "reset_transaction = seqt (apply_turn Reset) (\<lambda>_. proceed ())"

definition sender_allowed :: "host \<Rightarrow> principal option \<Rightarrow> command \<Rightarrow> bool turn" where
  "sender_allowed h p cmd =
     (case (cmd, p) of
        (Mail (Some a) _ _, Some q) \<Rightarrow> seqt (ask h (authorize_sender (h_world h) q a)) (\<lambda>r.
           case r of Err e \<Rightarrow> stop (Failed (Storage e)) | Ok b \<Rightarrow> proceed b)
      | (Mail _ _ _, _) \<Rightarrow> proceed False
      | _ \<Rightarrow> proceed True)"

definition parsed_command :: "session_context \<Rightarrow> host \<Rightarrow> command \<Rightarrow> unit turn" where
  "parsed_command cx h cmd =
     seqt (get sv_encrypted) (\<lambda>enc.
     if role_submission (cx_role cx) \<and> \<not> enc \<and> \<not> allowed_in_clear cmd then answer h 530 ''5.7.0 Must issue STARTTLS first''
     else if cx_auth cx = None then seqt (apply_turn cmd) (act_on cx h)
     else seqt (if is_mail cmd then reset_transaction else proceed ()) (\<lambda>_.
       seqt (get sv_principal) (\<lambda>p.
       if p = None \<and> needs_login cmd then answer h 530 ''5.7.0 Authentication required''
       else seqt (sender_allowed h p cmd) (\<lambda>ok.
         if \<not> ok then answer h 553 ''5.7.1 Sender identity not permitted''
         else seqt (apply_turn cmd) (act_on cx h)))))"

definition bad_command :: "host \<Rightarrow> bytes \<Rightarrow> parse_error \<Rightarrow> unit turn" where
  "bad_command h b e =
     seqt (if eq_ignore_ascii_case (verb_of b) ''MAIL'' then reset_transaction else proceed ()) (\<lambda>_.
     case e of
       Syntax \<Rightarrow> answer h 501 ''5.5.2 Invalid syntax or unsupported mailbox form''
     | UnsupportedParameter \<Rightarrow> answer h 555 ''5.5.4 Unsupported parameter'')"

text \<open>One pass of the loop.\<close>

definition session_turn :: "session_context \<Rightarrow> host \<Rightarrow> unit turn" where
  "session_turn cx h =
     seqt (next_command cx h) (\<lambda>b.
     if length b + 2 > command_limit (cx_role cx) b
     then seqt (answer h 500 ''5.5.2 Command too long'') (\<lambda>_. stop Closed)
     else if eq_ignore_ascii_case (verb_of b) ''AUTH'' then auth_command cx h b
     else case parse_command b of
         Err e \<Rightarrow> bad_command h b e
       | Ok cmd \<Rightarrow> parsed_command cx h cmd)"

text \<open>From the accepted socket to the first pass of the loop: implicit TLS, then the banner.\<close>

definition new_sconn :: "session_context \<Rightarrow> bytes list \<Rightarrow> shared \<Rightarrow> sconn" where
  "new_sconn cx chunks sh = \<lparr>sv_session = fresh_session (cx_config cx), sv_principal = None, sv_attempts = 0, sv_encrypted = False,
     sv_input = chunks, sv_out = [], sv_log = [], sv_shared = sh, sv_step = 0\<rparr>"

definition open_transport :: "session_context \<Rightarrow> host \<Rightarrow> unit turn" where
  "open_transport cx h =
     (if cx_role cx \<noteq> ImplicitSubmission then proceed ()
      else seqt (decide (h_slot h)) (\<lambda>permit.
        if \<not> permit then stop Closed
        else if \<not> cx_tls cx then stop (Failed (SIo OtherIo))
        else seqt (decide (h_tls_config h)) (\<lambda>ok.
          if \<not> ok then stop (Failed (SIo OtherIo))
          else seqt (decide (h_handshake h)) (\<lambda>hs.
            case hs of None \<Rightarrow> stop (Failed (SIo OtherIo))
            | Some chunks \<Rightarrow> put (\<lambda>c. c\<lparr>sv_input := chunks, sv_encrypted := True\<rparr>)))))"

definition greet :: "session_context \<Rightarrow> host \<Rightarrow> unit turn" where
  "greet cx h = seqt (open_transport cx h) (\<lambda>_. say h (''220 '' @ hostname (cx_config cx) @ '' rustymail LAB SMTP'' @ CRLF))"

text \<open>The loop, for at most n passes.\<close>

fun session_turns :: "session_context \<Rightarrow> host \<Rightarrow> nat \<Rightarrow> unit turn" where
  "session_turns cx h 0 = proceed ()"
| "session_turns cx h (Suc n) = seqt (session_turn cx h) (\<lambda>_. session_turns cx h n)"

definition smtp_session :: "session_context \<Rightarrow> host \<Rightarrow> nat \<Rightarrow> bytes list \<Rightarrow> shared \<Rightarrow> (ending + unit) \<times> sconn" where
  "smtp_session cx h n chunks sh = seqt (greet cx h) (\<lambda>_. session_turns cx h n) (new_sconn cx chunks sh)"

end
