(* ===== verification/Server_Frame.thy ===== *)
theory Server_Frame
  imports Smtp_Server
begin

text \<open>
  What the parts of a session leave alone. A relation between connection states that survives the bookkeeping of every
  step is an instance of the locale \<open>conn_relation\<close>; its rules carry it through the whole of a turn. The instances here are
  \<open>quiet\<close>, steps that accept nothing and change nothing the session has decided about its client, and \<open>steady\<close>, the latter
  half of it. From them follows that every pass of the loop keeps the invariant \<open>client_inv\<close> of what a client may do.
\<close>

section \<open>Turns and what they leave alone\<close>

named_theorems turn_simps \<open>inversion of the steps of a turn\<close>

lemma seqt_Ok [turn_simps]: "seqt m k c = (Ok y, c'') \<longleftrightarrow> (\<exists>x c'. m c = (Ok x, c') \<and> k x c' = (Ok y, c''))"
  by (auto simp: seqt_def split: prod.splits sum.splits)

lemma seqt_Err [turn_simps]: "seqt m k c = (Err e, c'') \<longleftrightarrow> m c = (Err e, c'') \<or> (\<exists>x c'. m c = (Ok x, c') \<and> k x c' = (Err e, c''))"
  by (auto simp: seqt_def split: prod.splits sum.splits)

lemma seqtE:
  assumes "seqt m k c = (r, c'')"
  obtains (early) e where "m c = (Err e, c'')" "r = Err e" | (on) x c' where "m c = (Ok x, c')" "k x c' = (r, c'')"
  using assms by (auto simp: seqt_def split: prod.splits sum.splits)

lemma turn_eqs [turn_simps]:
  "proceed x c = (r, c') \<longleftrightarrow> r = Ok x \<and> c' = c"
  "stop e c = (q, c') \<longleftrightarrow> q = Err e \<and> c' = c"
  "get f c = (g, c') \<longleftrightarrow> g = Ok (f c) \<and> c' = c"
  "put u c = (v, c') \<longleftrightarrow> v = Ok () \<and> c' = u c"
  "decide d c = (w, c') \<longleftrightarrow> w = Ok (d (sv_step c)) \<and> c' = c\<lparr>sv_step := sv_step c + 1\<rparr>"
  by (auto simp: proceed_def stop_def get_def put_def decide_def)

lemma on_store_eq [turn_simps]:
  "on_store act c = (r, c') \<longleftrightarrow> r = Ok (fst (act (sh_store (sv_shared c))))
     \<and> c' = c\<lparr>sv_shared := (sv_shared c)\<lparr>sh_store := snd (act (sh_store (sv_shared c)))\<rparr>\<rparr>"
  by (auto simp: on_store_def split: prod.splits)

lemma on_disk_eq [turn_simps]:
  "on_disk f c = (r, c') \<longleftrightarrow> r = Ok (fst (f (sh_disk (sv_shared c))))
     \<and> c' = c\<lparr>sv_shared := (sv_shared c)\<lparr>sh_disk := snd (f (sh_disk (sv_shared c)))\<rparr>\<rparr>"
  by (auto simp: on_disk_def split: prod.splits)

lemma next_line_eq [turn_simps]:
  "next_line n c = (r, c') \<longleftrightarrow> r = Ok (fst (read_line n (sv_input c))) \<and> c' = c\<lparr>sv_input := snd (read_line n (sv_input c))\<rparr>"
  by (auto simp: next_line_def split: prod.splits)

definition turns_in :: "(sconn \<Rightarrow> sconn \<Rightarrow> bool) \<Rightarrow> 'a turn \<Rightarrow> bool" where
  "turns_in R m \<longleftrightarrow> (\<forall>c r c'. m c = (r, c') \<longrightarrow> R c c')"

lemma turns_inD: "turns_in R m \<Longrightarrow> m c = (r, c') \<Longrightarrow> R c c'"
  by (simp add: turns_in_def)

text \<open>A relation between connection states that every step of a turn may be shown to respect.\<close>

locale conn_relation =
  fixes R :: "sconn \<Rightarrow> sconn \<Rightarrow> bool"
  assumes R_refl: "R c c"
    and R_trans: "R a b \<Longrightarrow> R b c \<Longrightarrow> R a c"
    and R_step: "R c (c\<lparr>sv_step := n\<rparr>)"
    and R_out: "R c (c\<lparr>sv_out := bs\<rparr>)"
begin

lemma in_proceed: "turns_in R (proceed x)"
  and in_stop: "turns_in R (stop e)"
  and in_get: "turns_in R (get f)"
  and in_decide: "turns_in R (decide d)"
  by (auto simp: turns_in_def turn_simps R_refl R_step)

lemma in_put: "(\<And>c. R c (u c)) \<Longrightarrow> turns_in R (put u)"
  by (auto simp: turns_in_def turn_simps)

lemma in_seqt: "turns_in R m \<Longrightarrow> (\<And>x. turns_in R (k x)) \<Longrightarrow> turns_in R (seqt m k)"
proof -
  assume m: "turns_in R m" and k: "\<And>x. turns_in R (k x)"
  show ?thesis
    unfolding turns_in_def
  proof (intro allI impI)
    fix c r c'' assume "seqt m k c = (r, c'')"
    then show "R c c''"
    proof (cases rule: seqtE)
      case (early e)
      then show ?thesis using turns_inD [OF m] by blast
    next
      case (on x c')
      then show ?thesis using turns_inD [OF m] turns_inD [OF k] R_trans by blast
    qed
  qed
qed

lemma in_decided: "(\<And>n. turns_in R (k (d n))) \<Longrightarrow> turns_in R (seqt (decide d) k)"
  unfolding turns_in_def seqt_def decide_def by simp (metis R_trans R_step)

lemma in_say: "turns_in R (say h b)" "turns_in R (answer h n t)" "turns_in R (answer_quietly h n t)"
proof -
  show s: "turns_in R (say h b)" for b
    unfolding say_def by (rule in_seqt [OF in_decide]) (simp add: in_stop in_put R_out)
  show "turns_in R (answer h n t)" unfolding answer_def by (rule s)
  show "turns_in R (answer_quietly h n t)"
    unfolding answer_quietly_def by (rule in_seqt [OF in_decide]) (simp add: in_proceed in_put R_out)
qed

lemma in_refuse: "turns_in R (refuse_data h e)"
  unfolding refuse_data_def
  by (intro in_seqt in_stop) (auto simp: in_say split: server_error.splits store_error.splits)

lemmas in_rules = in_proceed in_stop in_get in_decide in_put in_seqt in_say in_refuse

end

definition db_of :: "sconn \<Rightarrow> database" where
  "db_of c = st_db (sh_store (sv_shared c))"

definition files_of :: "sconn \<Rightarrow> (string \<rightharpoonup> bytes)" where
  "files_of c = blobs (sh_disk (sv_shared c))"

fun is_accepted :: "log_entry \<Rightarrow> bool" where
  "is_accepted (MessageAccepted _ _) = True"
| "is_accepted _ = False"

definition accepted_log :: "sconn \<Rightarrow> log_entry list" where
  "accepted_log c = filter is_accepted (sv_log c)"

text \<open>Steps that neither accept a message nor change what the session has decided about its client.\<close>

definition quiet :: "sconn \<Rightarrow> sconn \<Rightarrow> bool" where
  "quiet c c' \<longleftrightarrow> sv_session c' = sv_session c \<and> sv_principal c' = sv_principal c \<and> sv_attempts c' = sv_attempts c
     \<and> sv_encrypted c' = sv_encrypted c \<and> accepted_log c' = accepted_log c \<and> authority_le (db_of c) (db_of c')
     \<and> files_of c \<subseteq>\<^sub>m files_of c'"

lemmas quiet_defs = quiet_def db_of_def files_of_def accepted_log_def

interpretation quiet: conn_relation quiet
proof
  show "quiet a b \<Longrightarrow> quiet b c \<Longrightarrow> quiet a c" for a b c
    unfolding quiet_def by (auto intro: authority.R_trans map_le_trans)
qed (simp_all add: quiet_defs authority.R_refl)

text \<open>What is assumed of the other tasks: they use the store through its operations, and no serving task deletes a
  published message file.\<close>

definition others_ok :: "host \<Rightarrow> bool" where
  "others_ok h \<longleftrightarrow> (\<forall>n sh. store_run (h_world h) (sh_store sh) (sh_store (h_others h n sh))
     \<and> blobs (sh_disk sh) \<subseteq>\<^sub>m blobs (sh_disk (h_others h n sh)))"

lemma quiet_interleave: "others_ok h \<Longrightarrow> turns_in quiet (interleave h)"
  unfolding interleave_def turns_in_def
  by (auto elim!: seqtE simp: turn_simps quiet_defs others_ok_def intro!: run_authority_le [of "h_world h"])

lemma within_snd: "within R act \<Longrightarrow> R (st_db s) (st_db (snd (act s)))"
  unfolding within_def by (metis prod.collapse)

lemma quiet_on_store: "within authority_le act \<Longrightarrow> turns_in quiet (on_store act)"
  unfolding turns_in_def by (auto simp: turn_simps quiet_defs within_snd)

lemma within_call_store: "within authority_le act \<Longrightarrow> within authority_le (call_store how act)"
  unfolding within_def call_store_def by (auto simp: authority.R_refl prod_eq_iff split: reach.splits)

lemma quiet_ask: "others_ok h \<Longrightarrow> within authority_le act \<Longrightarrow> turns_in quiet (ask h act)"
  unfolding ask_def by (intro quiet.in_rules quiet_interleave quiet_on_store within_call_store)

lemma quiet_next_line: "turns_in quiet (next_line n)"
  by (simp add: turns_in_def turn_simps quiet_defs authority.R_refl)

lemma quiet_on_disk: "(\<And>d. blobs d \<subseteq>\<^sub>m blobs (snd (f d))) \<Longrightarrow> turns_in quiet (on_disk f)"
  by (simp add: turns_in_def turn_simps quiet_defs authority.R_refl)

lemma quiet_drop: "turns_in quiet (drop_stage h st)"
  unfolding drop_stage_def by (intro quiet.in_rules quiet_on_disk) (simp add: drop_resources_def release_def)

lemma quiet_log: "\<not> is_accepted e \<Longrightarrow> turns_in quiet (log_entry_add e)"
  unfolding log_entry_add_def by (rule quiet.in_put) (simp add: quiet_defs authority.R_refl)

lemma quiet_next_command: "turns_in quiet (next_command cx h)"
  unfolding next_command_def
  by (intro quiet.in_rules) (auto intro!: quiet.in_rules quiet_next_line split: sum.splits option.splits)

lemma check_credentials_authority:
  assumes "\<And>s. authority_le (st_db s) (st_db (others s))"
  shows "authority_le (st_db s) (st_db (snd (check_credentials w cy au t others c s)))"
proof -
  have l: "within authority_le (call_store how (credential_lookup w a sel))" for how a sel
    by (rule within_call_store) (auto simp: credential_lookup_def within_def query_def return_def authority.R_refl split: if_splits)
  have f: "within authority_le (call_store how (finish_authentication w p))" for how p
    by (rule within_call_store) (rule identity_operations_authority)
  show ?thesis
    unfolding check_credentials_def Let_def
    using withinD [OF l] withinD [OF f] assms
    by (auto simp: authority.R_refl split: prod.splits sum.splits option.splits intro: authority.R_trans)
      (meson assms authority.R_trans)+
qed

lemma quiet_authenticate: "others_ok h \<Longrightarrow> turns_in quiet (run_authenticate cx h au cred)"
  unfolding run_authenticate_def
proof (rule quiet.in_seqt [OF quiet_interleave], assumption, rule quiet.in_decided, rule quiet.in_decided)
  fix m n
  let ?t = "h_auth h m"
  assume ok: "others_ok h"
  have f: "authority_le (st_db s) (st_db (sh_store (h_others h n (sh\<lparr>sh_store := s\<rparr>))))" for s sh
    using ok run_authority_le [of "h_world h" s] by (simp add: others_ok_def) (metis shared.select_convs(1) shared.surjective shared.update_convs(1))
  show "turns_in quiet (authenticate_with cx h au cred ?t (h_others h n))"
    unfolding turns_in_def
  proof (intro allI impI)
    fix c r c' assume a: "authenticate_with cx h au cred ?t (h_others h n) c = (r, c')"
    let ?o = "\<lambda>s. sh_store (h_others h n ((sv_shared c)\<lparr>sh_store := s\<rparr>))"
    have "authority_le (st_db s) (st_db (snd (check_credentials w cy au ?t ?o cred s)))" for s w cy
      by (rule check_credentials_authority) (rule f)
    with a show "quiet c c'"
      by (auto simp: authenticate_with_def service_authenticate_def Let_def quiet_defs authority.R_refl split: prod.splits sum.splits)
        (metis snd_conv)+
  qed
qed

lemma quiet_auth_initial: "turns_in quiet (auth_initial h parts)"
  unfolding auth_initial_def
  by (auto intro!: quiet.in_rules quiet_next_line split: sum.splits option.splits)

lemma quiet_auth_dialog: "others_ok h \<Longrightarrow> turns_in quiet (auth_dialog cx h au b)"
  unfolding auth_dialog_def Let_def
  by (auto intro!: quiet.in_rules quiet_auth_initial quiet_authenticate quiet_log split: sum.splits auth_error.splits)

lemma within_queries [simp]: "within authority_le (recipient_exists w a)" "within authority_le (authorize_sender w p a)"
  unfolding recipient_exists_def authorize_sender_def may_send_def current_def
  by (auto simp: within_def query_def authority.R_refl return_def andthen_def split: if_splits prod.splits sum.splits)

lemma quiet_sender_allowed: "others_ok h \<Longrightarrow> turns_in quiet (sender_allowed h p cmd)"
  unfolding sender_allowed_def
  by (auto intro!: quiet.in_rules quiet_ask split: command.splits option.splits sum.splits)

lemma create_stage_blobs: "blobs (snd (create_stage hook tot avail opts i d)) = blobs d"
  by (auto simp: create_stage_def Let_def release_def split: option.splits sum.splits)

lemma quiet_open_stage: "others_ok h \<Longrightarrow> turns_in quiet (open_stage cx h)"
  unfolding open_stage_def
  by (auto intro!: quiet.in_rules quiet_interleave quiet_on_disk quiet_drop simp: create_stage_blobs split: sum.splits prod.splits)

lemma rx_append_blobs: "rx_append hook s bs = Some (r, s') \<Longrightarrow> blobs (rx_disk s') = blobs (rx_disk s)"
  by (auto simp: rx_append_def append_stage_def Let_def split: option.splits sum.splits if_splits prod.splits bool.splits)

lemma rx_line_disk: "rx_line l sub bd s data = Ok (keep, s') \<Longrightarrow> rx_disk s' = rx_disk s"
  by (auto simp: rx_line_def Let_def split: option.splits sum.splits if_splits prod.splits)

lemma rx_finish_blobs: "rx_finish hook sub s = Some (r, s') \<Longrightarrow> blobs (rx_disk s') = blobs (rx_disk s)"
  by (auto simp: rx_finish_def dest: rx_append_blobs split: option.splits sum.splits if_splits prod.splits)

lemma fill_line_rest: "fill_line d chunks = (r, d', rest) \<Longrightarrow> length (concat rest) \<le> length (concat chunks)"
proof (induction d chunks arbitrary: d' rule: fill_line.induct)
  case (2 d chunk chunks)
  then show ?case by (fastforce split: if_splits prod.splits sum.splits)
qed (auto split: if_splits)

text \<open>One pass of the receiving loop, whatever its result.\<close>

lemma receive_loop_step:
  assumes "receive_loop hook l sub bd d s chunks = Some (r, s', rest)"
  obtains (ends) "length (concat rest) \<le> length (concat chunks)" "s' = s"
  | (finish) q where "length (concat rest) \<le> length (concat chunks)" "rx_finish hook sub s = Some (q, s')"
  | (failed) s1 data q where "length (concat rest) \<le> length (concat chunks)" "blobs (rx_disk s1) = blobs (rx_disk s)" "rx_append hook s1 data = Some (q, s')"
  | (goes) s1 d' chunks' where "length (concat chunks') < length (concat chunks)" "blobs (rx_disk s1) = blobs (rx_disk s)"
      "receive_loop hook l sub bd d' s1 chunks' = Some (r, s', rest)"
proof -
  obtain x d' chunks' where fl: "fill_line (clear d) chunks = (x, d', chunks')" by (metis prod_cases3)
  note le = fill_line_rest [OF fl]
  note u = assms [unfolded receive_loop.simps [of hook l sub bd d s chunks] fl, simplified]
  show thesis
  proof (cases "x = Ok True")
    case False
    then show thesis using u le ends by (auto split: sum.splits bool.splits)
  next
    case True
    note p = fill_line_progress [OF fl [unfolded True]]
    show thesis
    proof (cases "decode_data_frame (buffer d')")
      case (Inl e)
      then show thesis using u le True ends by simp
    next
      case (Inr o')
      show thesis
      proof (cases o')
        case None
        then show thesis using u le True Inr finish by auto
      next
        case (Some data)
        show thesis
        proof (cases "rx_line l sub bd s data")
          case (Inl e)
          then show thesis using u le True Inr Some ends by simp
        next
          case rl: (Inr y)
          obtain keep s1 where y: "y = (keep, s1)" by fastforce
          have b: "blobs (rx_disk s1) = blobs (rx_disk s)" using rl y by (simp add: rx_line_disk)
          show thesis
          proof (cases keep)
            case False
            then show thesis using u True Inr Some rl y goes [OF p b] by simp
          next
            case k: True
            obtain q s2 where a: "rx_append hook s1 data = Some (q, s2)" using u True Inr Some rl y k by (auto split: option.splits)
            show thesis
            proof (cases q)
              case Inl
              then show thesis using u True \<open>decode_data_frame _ = _\<close> Some rl y k a le failed [OF _ b] by auto
            next
              case Inr
              then show thesis using u True \<open>decode_data_frame _ = _\<close> Some rl y k a goes [OF p] rx_append_blobs [OF a] b by simp
            qed
          qed
        qed
      qed
    qed
  qed
qed

lemma receive_loop_blobs:
  "receive_loop hook l sub bd d s chunks = Some (r, s', rest) \<Longrightarrow> blobs (rx_disk s') = blobs (rx_disk s)"
proof (induction "length (concat chunks)" arbitrary: d s chunks rule: less_induct)
  case less
  from less.prems show ?case
  proof (cases rule: receive_loop_step)
    case (goes s1 d' chunks')
    with less.hyps [OF goes(1,3)] show ?thesis by simp
  qed (auto dest: rx_finish_blobs rx_append_blobs)
qed

lemma receive_loop_rest:
  "receive_loop hook l sub bd d s chunks = Some (r, s', rest) \<Longrightarrow> length (concat rest) \<le> length (concat chunks)"
proof (induction "length (concat chunks)" arbitrary: d s chunks rule: less_induct)
  case less
  from less.prems show ?case
  proof (cases rule: receive_loop_step)
    case (goes s1 d' chunks')
    with less.hyps [OF goes(1,3)] show ?thesis by simp
  qed
qed

lemma prepare_stage_blobs: "prepare_stage sha256 hook fails ws s d = (r, s', d') \<Longrightarrow> blobs d \<subseteq>\<^sub>m blobs d'"
proof -
  assume p: "prepare_stage sha256 hook fails ws s d = (r, s', d')"
  obtain r1 s1 d1 where f: "prepare_file hook fails ws s d = (r1, s1, d1)" by (metis prod_cases3)
  have f1: "blobs d1 = blobs d" "r1 = Ok () \<Longrightarrow> blobs d1 (st_id s1) = None"
    using f by (auto simp: prepare_file_def Let_def split: sum.splits if_splits prod.splits)
  obtain r2 s2 d2 where n: "prepare_name hook fails s1 d1 = (r2, s2, d2)" by (metis prod_cases3)
  have "blobs d1 (st_id s1) = None \<Longrightarrow> blobs d1 \<subseteq>\<^sub>m blobs d2"
    using n by (auto simp: prepare_name_def map_le_def split: sum.splits)
  then show ?thesis using p f f1 n by (auto simp: prepare_stage_def split: if_splits sum.splits)
qed

lemma receive_message_blobs:
  "receive_message sha256 hook fails l sub bd pre st d ws chunks = Some (r, st', d', rest) \<Longrightarrow> blobs d \<subseteq>\<^sub>m blobs d'"
  by (auto simp: receive_message_def receive_new_def dest!: rx_append_blobs receive_loop_blobs prepare_stage_blobs
      split: option.splits sum.splits prod.splits)

lemma quiet_receive: "turns_in quiet (receive_on cx h env pre st)"
  unfolding receive_on_def
proof (rule quiet.in_decided, unfold prod.case turns_in_def, intro allI impI)
  fix n c r c'
  assume r: "(case receive_message (h_sha256 h) (h_hook h n) (h_fails h n) (c_limits (cx_config cx)) (cx_auth cx \<noteq> None) (env_body env) pre st
              (sh_disk (sv_shared c)) (h_script h n) (sv_input c) of
         None \<Rightarrow> (Err Hangs, c)
       | Some (r, st', d, rest) \<Rightarrow>
           let c' = c\<lparr>sv_input := rest, sv_shared := (sv_shared c)\<lparr>sh_disk := d\<rparr>\<rparr> in
           (case r of Err e \<Rightarrow> seqt (drop_stage h st') (\<lambda>_. proceed (Err e)) c' | Ok x \<Rightarrow> (Ok (Ok x), c'))) = (r, c')"
  show "quiet c c'"
  proof (cases "receive_message (h_sha256 h) (h_hook h n) (h_fails h n) (c_limits (cx_config cx)) (cx_auth cx \<noteq> None) (env_body env) pre st
              (sh_disk (sv_shared c)) (h_script h n) (sv_input c)")
    case None
    with r show ?thesis by (simp add: quiet.R_refl)
  next
    case (Some z)
    obtain q st' d rest where z: "z = (q, st', d, rest)" by (metis prod_cases4)
    let ?c = "c\<lparr>sv_input := rest, sv_shared := (sv_shared c)\<lparr>sh_disk := d\<rparr>\<rparr>"
    have q: "quiet c ?c" using receive_message_blobs [OF Some [unfolded z]] by (simp add: quiet_defs authority.R_refl)
    have "quiet ?c c'"
    proof (cases q)
      case (Inl e)
      have "turns_in quiet (seqt (drop_stage h st') (\<lambda>_. proceed (Err e)))" by (intro quiet.in_rules quiet_drop)
      then show ?thesis using r Some z Inl by (auto dest: turns_inD)
    next
      case (Inr x)
      then show ?thesis using r Some z by (simp add: quiet.R_refl)
    qed
    with q show ?thesis by (rule quiet.R_trans)
  qed
qed

section \<open>What a session may do for its client\<close>

definition steady :: "sconn \<Rightarrow> sconn \<Rightarrow> bool" where
  "steady c c' \<longleftrightarrow> sv_session c' = sv_session c \<and> sv_principal c' = sv_principal c \<and> sv_attempts c' = sv_attempts c
     \<and> sv_encrypted c' = sv_encrypted c"

interpretation steady: conn_relation steady
  by unfold_locales (auto simp: steady_def)

lemma quiet_steady: "turns_in quiet m \<Longrightarrow> turns_in steady m"
  unfolding turns_in_def quiet_def steady_def by blast

lemma steady_basics: "turns_in steady (on_store act)" "turns_in steady (on_disk f)" "turns_in steady (log_entry_add e)"
  by (auto simp: turns_in_def turn_simps steady_def log_entry_add_def)

lemma steady_client_accept: "others_ok h \<Longrightarrow> turns_in steady (client_accept h pm plan who rl)"
  unfolding client_accept_def
  by (auto intro!: steady.in_rules quiet_steady [OF quiet_interleave] steady_basics)

lemma steady_commit: "others_ok h \<Longrightarrow> turns_in steady (commit_data cx h env op pm auth)"
  unfolding commit_data_def acceptance_reply_def
  by (auto intro!: steady.in_rules steady_client_accept steady_basics split: option.splits sum.splits)

lemma steady_take: "others_ok h \<Longrightarrow> turns_in steady (take_data cx h env op pre st)"
  unfolding take_data_def
  by (auto intro!: steady.in_rules steady_commit quiet_steady [OF quiet_drop] quiet_steady [OF quiet_receive] split: sum.splits prod.splits)

lemma quiet_or_drop: "turns_in quiet m \<Longrightarrow> turns_in quiet (or_drop h st m)"
  unfolding turns_in_def or_drop_def
  by (auto split: prod.splits sum.splits) (metis quiet.R_trans quiet_drop turns_inD prod.collapse)

lemma quiet_announce: "turns_in quiet (or_drop h st (seqt (get (trace_facts_of cx)) (\<lambda>t.
             case trace_prefix t sender op date of
               Err e \<Rightarrow> stop (Failed e)
             | Ok pre \<Rightarrow> seqt (answer h 354 txt) (\<lambda>_. proceed pre))))"
  by (intro quiet_or_drop) (auto intro!: quiet.in_rules split: sum.splits)

lemma steady_begin_data: "others_ok h \<Longrightarrow> turns_in steady (begin_data cx h env)"
  unfolding begin_data_def
  by (auto intro!: steady.in_rules steady_take quiet_steady [OF quiet_open_stage] quiet_steady [OF quiet_announce] split: sum.splits prod.splits)

definition client_inv :: "session_context \<Rightarrow> sconn \<Rightarrow> bool" where
  "client_inv cx c \<longleftrightarrow> (sv_principal c \<noteq> None \<longrightarrow> sv_encrypted c \<and> cx_auth cx \<noteq> None) \<and> sv_attempts c < 5
     \<and> (\<forall>tx. transaction (sv_session c) = Some tx \<longrightarrow>
          (\<forall>r\<in>set (env_recipients tx). is_local (cx_config cx) r \<or> sv_principal c \<noteq> None)
          \<and> (cx_auth cx \<noteq> None \<longrightarrow> sv_principal c \<noteq> None) \<and> (role_submission (cx_role cx) \<longrightarrow> sv_encrypted c))"

lemma client_inv_steady: "steady c c' \<Longrightarrow> client_inv cx c \<Longrightarrow> client_inv cx c'"
  by (simp add: steady_def client_inv_def)

text \<open>Commands and recipients change the transaction in one of few ways.\<close>

lemma apply_command_transaction:
  assumes "apply_command s cmd = (a, s')"
  shows "transaction s' = None \<or> transaction s' = transaction s \<or>
    (is_mail cmd \<and> (\<exists>tx. transaction s' = Some tx \<and> env_recipients tx = []))"
  using assms by (cases cmd) (auto simp: apply_hello_def apply_mail_def apply_data_def is_mail_def Let_def split: if_splits option.splits)

lemma routed_recipients:
  assumes "routed_recipient_result s a ok loc = (rep, s')" "transaction s' = Some tx'"
  shows "\<exists>tx. transaction s = Some tx \<and> set (env_recipients tx') \<subseteq> set (env_recipients tx) \<union> (if ok then {a} else {})"
  using assms by (auto simp: routed_recipient_result_def Let_def split: if_splits option.splits)

lemma apply_turn_inv:
  assumes "apply_turn cmd c = (Ok a, c')" "client_inv cx c"
    "is_mail cmd \<Longrightarrow> (cx_auth cx \<noteq> None \<longrightarrow> sv_principal c \<noteq> None) \<and> (role_submission (cx_role cx) \<longrightarrow> sv_encrypted c)"
  shows "client_inv cx c'"
proof -
  obtain s' where s': "apply_command (sv_session c) cmd = (a, s')" "c' = c\<lparr>sv_session := s'\<rparr>"
    using assms(1) by (auto simp: apply_turn_def split: prod.splits)
  from apply_command_transaction [OF s'(1)] assms(2,3) show ?thesis
    by (fastforce simp: client_inv_def s'(2))
qed

lemma reset_turn: "reset_transaction c = (r, c') \<longleftrightarrow> r = Ok () \<and> c' = c\<lparr>sv_session := (sv_session c)\<lparr>transaction := None\<rparr>\<rparr>"
  by (auto simp: reset_transaction_def apply_turn_def seqt_def proceed_def)

lemma reset_inv: "client_inv cx c \<Longrightarrow> client_inv cx (c\<lparr>sv_session := (sv_session c)\<lparr>transaction := None\<rparr>\<rparr>)"
  by (simp add: client_inv_def)

lemma quiet_keeps: "turns_in quiet m \<Longrightarrow> m c = (r, c') \<Longrightarrow> client_inv cx c \<Longrightarrow> client_inv cx c'"
  by (metis client_inv_steady quiet_steady turns_inD)

lemma answer_keeps: "answer h n t c = (r, c') \<Longrightarrow> client_inv cx c \<Longrightarrow> client_inv cx c'"
  by (rule quiet_keeps [OF quiet.in_say(2)])

lemma start_tls_inv:
  assumes "start_tls cx h c = (Ok (), c')" "client_inv cx c"
  shows "client_inv cx c'"
  using assms unfolding start_tls_def
  by (auto simp: turn_simps split: if_splits option.splits dest!: answer_keeps [where cx = cx])
    (auto simp: client_inv_def fresh_session_def new_session_def)

lemma check_recipient_inv:
  assumes "check_recipient cx h a c = (Ok (), c')" "client_inv cx c" "others_ok h"
  shows "client_inv cx c'"
proof -
  from assms(1) obtain r c1 where r: "(if is_local (cx_config cx) a then ask h (recipient_exists (h_world h) a)
      else get (\<lambda>c. Ok (d_mode (c_delivery (cx_config cx)) = Relay \<and> sv_principal c \<noteq> None \<and> role_submission (cx_role cx) \<and> sv_encrypted c))) c = (Ok r, c1)"
    and k: "(case r of Ok exists \<Rightarrow> seqt (\<lambda>c. let (rep, s) = routed_recipient_result (sv_session c) a exists (is_local (cx_config cx) a) in (Ok rep, c\<lparr>sv_session := s\<rparr>))
          (\<lambda>rep. answer h (reply_code rep) (reply_text rep))
      | Err _ \<Rightarrow> answer h 451 ''4.3.0 Recipient lookup unavailable'') c1 = (Ok (), c')"
    unfolding check_recipient_def Let_def by (auto simp: turn_simps)
  have "turns_in quiet (if is_local (cx_config cx) a then ask h (recipient_exists (h_world h) a)
      else get (\<lambda>c. Ok (d_mode (c_delivery (cx_config cx)) = Relay \<and> sv_principal c \<noteq> None \<and> role_submission (cx_role cx) \<and> sv_encrypted c)))"
    by (simp add: quiet_ask assms(3) quiet.in_get)
  from quiet_keeps [OF this r assms(2)] have inv: "client_inv cx c1" .
  have remote: "\<not> is_local (cx_config cx) a \<Longrightarrow> r = Ok True \<Longrightarrow> sv_principal c1 \<noteq> None" using r by (auto simp: turn_simps)
  show ?thesis
  proof (cases r)
    case (Inl e)
    then show ?thesis using k inv by (auto intro: answer_keeps)
  next
    case (Inr ex)
    obtain rep s where rr: "routed_recipient_result (sv_session c1) a ex (is_local (cx_config cx) a) = (rep, s)" by fastforce
    with k Inr have "answer h (reply_code rep) (reply_text rep) (c1\<lparr>sv_session := s\<rparr>) = (Ok (), c')" by (simp add: seqt_def)
    moreover have "client_inv cx (c1\<lparr>sv_session := s\<rparr>)"
      using inv routed_recipients [OF rr] remote Inr by (fastforce simp: client_inv_def split: if_splits)
    ultimately show ?thesis by (rule answer_keeps)
  qed
qed

lemma act_on_inv:
  assumes "act_on cx h a c = (Ok (), c')" "client_inv cx c" "others_ok h"
  shows "client_inv cx c'"
proof (cases a)
  case (ActHello ext)
  then show ?thesis using assms by (auto simp: act_on_def turn_simps intro: quiet_keeps [OF quiet.in_say(1)])
next
  case (BeginData env)
  with assms(1) have "begin_data cx h env c = (Ok (), c')" by (simp add: act_on_def)
  from turns_inD [OF steady_begin_data [OF assms(3)] this] assms(2) show ?thesis by (rule client_inv_steady)
qed (use assms in \<open>auto simp: act_on_def turn_simps intro: answer_keeps start_tls_inv check_recipient_inv\<close>)

lemma auth_command_inv:
  assumes "auth_command cx h b c = (Ok (), c')" "client_inv cx c" "others_ok h"
  shows "client_inv cx c'"
proof (cases "\<exists>au out c1. cx_auth cx = Some au \<and> sv_encrypted c \<and> authentication_allowed (sv_session c) \<and> auth_dialog cx h au b c = (Ok out, c1)
    \<and> c' = (case out of Authenticated p \<Rightarrow> c1\<lparr>sv_principal := Some p\<rparr> | AuthFailed \<Rightarrow> c1\<lparr>sv_attempts := sv_attempts c1 + 1\<rparr> | AuthIgnored \<Rightarrow> c1)
    \<and> \<not> (sv_attempts c' \<ge> 5 \<and> sv_principal c' = None) \<and> sv_principal c = None")
  case True
  then obtain au out c1 where c1: "cx_auth cx = Some au" "sv_encrypted c" "authentication_allowed (sv_session c)" "auth_dialog cx h au b c = (Ok out, c1)"
    "c' = (case out of Authenticated p \<Rightarrow> c1\<lparr>sv_principal := Some p\<rparr> | AuthFailed \<Rightarrow> c1\<lparr>sv_attempts := sv_attempts c1 + 1\<rparr> | AuthIgnored \<Rightarrow> c1)"
    "\<not> (sv_attempts c' \<ge> 5 \<and> sv_principal c' = None)" "sv_principal c = None" by blast
  have "steady c c1" using turns_inD [OF quiet_steady [OF quiet_auth_dialog [OF assms(3)]] c1(4)] .
  then show ?thesis using c1 assms(2)
    by (auto simp: steady_def client_inv_def authentication_allowed_def split: auth_outcome.splits)
next
  case False
  with assms show ?thesis
    unfolding auth_command_def
    by (auto simp: turn_simps split: if_splits option.splits intro: answer_keeps)
qed

lemma parsed_command_inv:
  assumes "parsed_command cx h cmd c = (Ok (), c')" "client_inv cx c" "others_ok h"
  shows "client_inv cx c'"
proof (cases "cx_auth cx = None \<or> role_submission (cx_role cx) \<and> \<not> sv_encrypted c \<and> \<not> allowed_in_clear cmd")
  case True
  then show ?thesis
    using assms apply_turn_inv [of cmd c _ _ cx]
    by (auto simp: parsed_command_def turn_simps is_mail_def allowed_in_clear_def split: if_splits command.splits intro: answer_keeps act_on_inv)
next
  case False
  then have g: "\<not> (role_submission (cx_role cx) \<and> \<not> sv_encrypted c \<and> \<not> allowed_in_clear cmd)" "cx_auth cx \<noteq> None" by auto
  define c0 where "c0 = (if is_mail cmd then c\<lparr>sv_session := (sv_session c)\<lparr>transaction := None\<rparr>\<rparr> else c)"
  have inv0: "client_inv cx c0" using assms(2) reset_inv by (simp add: c0_def)
  have same: "sv_principal c0 = sv_principal c" "sv_encrypted c0 = sv_encrypted c" by (simp_all add: c0_def)
  have rest: "(if sv_principal c0 = None \<and> needs_login cmd then answer h 530 ''5.7.0 Authentication required''
       else seqt (sender_allowed h (sv_principal c0) cmd) (\<lambda>ok.
         if \<not> ok then answer h 553 ''5.7.1 Sender identity not permitted''
         else seqt (apply_turn cmd) (act_on cx h))) c0 = (Ok (), c')"
    using assms(1) g by (auto simp: parsed_command_def c0_def turn_simps reset_turn split: if_splits)
  show ?thesis
  proof (cases "sv_principal c0 = None \<and> needs_login cmd")
    case True
    then show ?thesis using rest inv0 by (auto intro: answer_keeps)
  next
    case login: False
    with rest obtain ok c1 where c1: "sender_allowed h (sv_principal c0) cmd c0 = (Ok ok, c1)"
      "(if \<not> ok then answer h 553 ''5.7.1 Sender identity not permitted'' else seqt (apply_turn cmd) (act_on cx h)) c1 = (Ok (), c')"
      by (auto simp: turn_simps)
    have st: "steady c0 c1" using turns_inD [OF quiet_steady [OF quiet_sender_allowed [OF assms(3)]] c1(1)] .
    then have inv1: "client_inv cx c1" using inv0 by (rule client_inv_steady)
    have mail: "is_mail cmd \<Longrightarrow> sv_principal c1 \<noteq> None \<and> sv_encrypted c1"
      using login st inv0 by (auto simp: is_mail_def needs_login_def steady_def client_inv_def split: command.splits)
    show ?thesis
    proof (cases ok)
      case False
      then show ?thesis using c1(2) inv1 by (auto intro: answer_keeps)
    next
      case True
      with c1(2) obtain a c2 where c2: "apply_turn cmd c1 = (Ok a, c2)" "act_on cx h a c2 = (Ok (), c')" by (auto simp: turn_simps)
      have "client_inv cx c2" by (rule apply_turn_inv [OF c2(1) inv1]) (use mail in auto)
      then show ?thesis using c2(2) assms(3) by (auto intro: act_on_inv)
    qed
  qed
qed

lemma session_turn_inv:
  assumes "session_turn cx h c = (Ok (), c')" "client_inv cx c" "others_ok h"
  shows "client_inv cx c'"
proof -
  from assms(1) obtain b c1 where b: "next_command cx h c = (Ok b, c1)" unfolding session_turn_def by (auto simp: turn_simps)
  have inv: "client_inv cx c1" by (rule quiet_keeps [OF quiet_next_command b assms(2)])
  show ?thesis
    using assms(1,3) b inv unfolding session_turn_def
    by (auto simp: turn_simps bad_command_def reset_turn reset_inv split: if_splits sum.splits parse_error.splits
        intro: auth_command_inv parsed_command_inv answer_keeps elim!: answer_keeps)
qed

end
