(* ===== verification/Server_Accepts.thy ===== *)
theory Server_Accepts
  imports Server_Frame
begin

text \<open>
  When a session accepts a message and what it may do for its client. A pass of the loop that accepts is followed back to
  the DATA command, the stage, the received lines and the transaction of the store that records them.
\<close>

section \<open>When a message is accepted\<close>

text \<open>Steps that accept nothing, whatever they change of the session.\<close>

definition mute :: "sconn \<Rightarrow> sconn \<Rightarrow> bool" where
  "mute c c' \<longleftrightarrow> accepted_log c' = accepted_log c \<and> authority_le (db_of c) (db_of c') \<and> files_of c \<subseteq>\<^sub>m files_of c'"

lemmas mute_defs = mute_def db_of_def files_of_def accepted_log_def

interpretation mute: conn_relation mute
proof
  show "mute a b \<Longrightarrow> mute b c \<Longrightarrow> mute a c" for a b c
    unfolding mute_def by (auto intro: authority.R_trans map_le_trans)
qed (simp_all add: mute_defs authority.R_refl)

lemma quiet_mute: "turns_in quiet m \<Longrightarrow> turns_in mute m"
  unfolding turns_in_def quiet_def mute_def by blast

lemma mute_apply: "turns_in mute (apply_turn cmd)"
  by (auto simp: turns_in_def apply_turn_def mute_defs authority.R_refl split: prod.splits)

lemma mute_reset: "turns_in mute reset_transaction"
  unfolding reset_transaction_def by (intro mute.in_rules mute_apply)

lemma mute_put: "(\<And>c. sv_log (u c) = sv_log c \<and> sv_shared (u c) = sv_shared c) \<Longrightarrow> turns_in mute (put u)"
  by (rule mute.in_put) (simp add: mute_defs authority.R_refl)

lemma mute_auth: "others_ok h \<Longrightarrow> turns_in mute (auth_command cx h b)"
  unfolding auth_command_def
  by (auto intro!: mute.in_rules quiet_mute [OF quiet_auth_dialog] mute_put split: option.splits auth_outcome.splits)

lemma mute_bad: "turns_in mute (bad_command h b e)"
  unfolding bad_command_def by (auto intro!: mute.in_rules mute_reset split: parse_error.splits)

lemma mute_tls: "turns_in mute (start_tls cx h)"
  unfolding start_tls_def by (auto intro!: mute.in_rules mute_put split: option.splits)

lemma mute_routed: "turns_in mute (\<lambda>c. let (rep, s) = routed_recipient_result (sv_session c) a ex loc in (Ok rep, c\<lparr>sv_session := s\<rparr>))"
  by (auto simp: turns_in_def mute_defs authority.R_refl split: prod.splits)

lemma mute_recipient: "others_ok h \<Longrightarrow> turns_in mute (check_recipient cx h a)"
  unfolding check_recipient_def Let_def
  by (auto intro!: mute.in_rules quiet_mute [OF quiet_ask] mute_routed [unfolded Let_def] split: sum.splits)

lemma mute_act: "others_ok h \<Longrightarrow> (\<And>env. a \<noteq> BeginData env) \<Longrightarrow> turns_in mute (act_on cx h a)"
  unfolding act_on_def by (cases a) (auto intro!: mute.in_rules mute_tls mute_recipient)

lemma begins_data:
  assumes "apply_command s cmd = (BeginData env, s')"
  shows "cmd = Data \<and> transaction s = Some env \<and> env_recipients env \<noteq> [] \<and> greeting s' = greeting s \<and> extended s' = extended s"
  using assms by (cases cmd) (auto simp: apply_hello_def apply_mail_def apply_data_def Let_def split: if_splits option.splits)

text \<open>A pass of the loop that accepts a message is the DATA command of an open transaction.\<close>

lemma apply_act_accepts:
  assumes "seqt (apply_turn cmd) (act_on cx h) c = (r, c')" "others_ok h" "accepted_log c' \<noteq> accepted_log c"
  obtains env c1 where "cmd = Data" "transaction (sv_session c) = Some env" "env_recipients env \<noteq> []"
    "begin_data cx h env c1 = (r, c')" "mute c c1" "sv_principal c1 = sv_principal c" "sv_encrypted c1 = sv_encrypted c"
    "trace_facts_of cx c1 = trace_facts_of cx c" "sv_input c1 = sv_input c"
proof -
  obtain a s1 where a: "apply_command (sv_session c) cmd = (a, s1)" by fastforce
  then have k: "act_on cx h a (c\<lparr>sv_session := s1\<rparr>) = (r, c')" using assms(1) by (simp add: apply_turn_def seqt_def)
  have m: "mute c (c\<lparr>sv_session := s1\<rparr>)" by (simp add: mute_defs authority.R_refl)
  have "\<exists>env. a = BeginData env"
  proof (rule ccontr)
    assume "\<not> ?thesis"
    then have "turns_in mute (act_on cx h a)" by (intro mute_act assms(2)) blast
    from turns_inD [OF this k] m assms(3) show False by (simp add: mute_def)
  qed
  then obtain env where env: "a = BeginData env" by blast
  with begins_data [of "sv_session c" cmd env s1] a k m that [of env "c\<lparr>sv_session := s1\<rparr>"] show thesis by (simp add: act_on_def trace_facts_of_def)
qed

lemma mute_then:
  assumes "turns_in mute m" "seqt m k c = (r, c')" "accepted_log c' \<noteq> accepted_log c"
  obtains x c1 where "m c = (Ok x, c1)" "k x c1 = (r, c')" "mute c c1" "accepted_log c' \<noteq> accepted_log c1"
  using assms(2)
proof (cases rule: seqtE)
  case (early e)
  with assms(3) turns_inD [OF assms(1) early(1)] show thesis by (simp add: mute_def)
next
  case (on x c1)
  with assms(3) turns_inD [OF assms(1) on(1)] that show thesis by (simp add: mute_def)
qed

text \<open>What the steps before the message leave unread.\<close>

definition unread :: "sconn \<Rightarrow> sconn \<Rightarrow> bool" where
  "unread c c' \<longleftrightarrow> sv_input c' = sv_input c"

interpretation unread: conn_relation unread
  by unfold_locales (auto simp: unread_def)

lemma unread_basics: "turns_in unread (on_disk f)" "turns_in unread (interleave h)"
  by (auto elim!: seqtE simp: turns_in_def turn_simps unread_def interleave_def)

lemma unread_open: "turns_in unread (open_stage cx h)"
  unfolding open_stage_def drop_stage_def
  by (auto intro!: unread.in_rules unread_basics split: sum.splits prod.splits)

lemma unread_ask: "turns_in unread (ask h act)"
  unfolding ask_def by (intro unread.in_rules unread_basics) (auto simp: turns_in_def turn_simps unread_def)

lemma unread_sender_allowed: "turns_in unread (sender_allowed h p cmd)"
  unfolding sender_allowed_def by (auto intro!: unread.in_rules unread_ask split: command.splits option.splits sum.splits)

lemma unread_commit: "turns_in unread (commit_data cx h env op pm auth)"
  unfolding commit_data_def client_accept_def acceptance_reply_def log_entry_add_def
  by (auto intro!: unread.in_rules unread_basics unread.in_put split: sum.splits simp: unread_def) (auto simp: turns_in_def turn_simps unread_def)

definition command_bound :: "session_context \<Rightarrow> nat" where
  "command_bound cx = (if cx_auth cx \<noteq> None then 1024 else 538)"

lemma next_command_Ok:
  assumes "next_command cx h c = (Ok b, c')"
  shows "read_line (command_bound cx) (sv_input c) = (Ok (Some b), sv_input c')"
proof -
  obtain r rest where rl: "read_line (command_bound cx) (sv_input c) = (r, rest)" by fastforce
  have "r = Ok (Some b) \<and> sv_input c' = rest"
    using assms rl unfolding next_command_def command_bound_def [symmetric]
    by (auto simp: turn_simps next_line_def split: if_splits sum.splits option.splits)
  with rl show ?thesis by simp
qed

definition keeps_client :: "sconn \<Rightarrow> sconn \<Rightarrow> bool" where
  "keeps_client c c' \<longleftrightarrow> mute c c' \<and> sv_principal c' = sv_principal c \<and> sv_encrypted c' = sv_encrypted c"

lemma keeps_clientI: "turns_in quiet m \<Longrightarrow> m c = (r, c') \<Longrightarrow> keeps_client c c' \<and> sv_session c' = sv_session c"
  unfolding turns_in_def keeps_client_def mute_def quiet_def by blast

lemma keeps_client_trans: "keeps_client a b \<Longrightarrow> keeps_client b c \<Longrightarrow> keeps_client a c"
  by (auto simp: keeps_client_def intro: mute.R_trans)

lemma turn_accepts:
  assumes t: "session_turn cx h c = (r, c')" and ok: "others_ok h" and new: "accepted_log c' \<noteq> accepted_log c"
  obtains env c1 where "transaction (sv_session c) = Some env" "env_recipients env \<noteq> []" "begin_data cx h env c1 = (r, c')" "keeps_client c c1"
    "trace_facts_of cx c1 = trace_facts_of cx c"
    "\<exists>b. read_line (command_bound cx) (sv_input c) = (Ok (Some b), sv_input c1) \<and> parse_command b = Ok Data"
proof -
  from mute_then [OF quiet_mute [OF quiet_next_command] t [unfolded session_turn_def] new]
  obtain b c1 where b: "next_command cx h c = (Ok b, c1)" and k: "(if length b + 2 > command_limit (cx_role cx) b
     then seqt (answer h 500 ''5.5.2 Command too long'') (\<lambda>_. stop Closed)
     else if eq_ignore_ascii_case (verb_of b) ''AUTH'' then auth_command cx h b
     else case parse_command b of Err e \<Rightarrow> bad_command h b e | Ok cmd \<Rightarrow> parsed_command cx h cmd) c1 = (r, c')"
    and n1: "accepted_log c' \<noteq> accepted_log c1" by metis
  note q1 = keeps_clientI [OF quiet_next_command b]
  have no: "turns_in mute m \<Longrightarrow> m c1 = (r, c') \<Longrightarrow> False" for m :: "unit turn" using n1 by (auto dest: turns_inD simp: mute_def)
  have long: "seqt (answer h n t) (\<lambda>_. stop e) c1 \<noteq> (r, c')" for n t e
    by (rule notI, erule no [rotated]) (intro mute.in_rules)
  have auth: "auth_command cx h b c1 \<noteq> (r, c')" and bad: "bad_command h b e c1 \<noteq> (r, c')" for e
    using no [OF mute_auth [OF ok]] no [OF mute_bad] by blast+
  from k long auth bad obtain cmd where p: "parsed_command cx h cmd c1 = (r, c')" and pc: "parse_command b = Ok cmd"
    by (simp split: if_splits sum.splits)
  have "\<exists>c2. keeps_client c1 c2 \<and> sv_input c2 = sv_input c1 \<and> (is_mail cmd \<or> sv_session c2 = sv_session c1) \<and> seqt (apply_turn cmd) (act_on cx h) c2 = (r, c') \<and> accepted_log c' \<noteq> accepted_log c2"
  proof (cases "cx_auth cx = None")
    case True
    with p n1 no [OF mute.in_say(2)] show ?thesis
      by (intro exI [of _ c1]) (auto simp: parsed_command_def seqt_def get_def keeps_client_def mute.R_refl split: if_splits)
  next
    case False
    define c0 where "c0 = (if is_mail cmd then c1\<lparr>sv_session := (sv_session c1)\<lparr>transaction := None\<rparr>\<rparr> else c1)"
    have kc: "keeps_client c1 c0" by (simp add: c0_def keeps_client_def mute_defs authority.R_refl)
    have rest: "(if sv_principal c0 = None \<and> needs_login cmd then answer h 530 ''5.7.0 Authentication required''
       else seqt (sender_allowed h (sv_principal c0) cmd) (\<lambda>ok.
         if \<not> ok then answer h 553 ''5.7.1 Sender identity not permitted''
         else seqt (apply_turn cmd) (act_on cx h))) c0 = (r, c')"
      using p False no [OF mute.in_say(2)]
      by (auto simp: c0_def parsed_command_def seqt_def get_def proceed_def reset_turn [THEN iffD2] split: if_splits)
    have nc: "accepted_log c' \<noteq> accepted_log c0" using n1 kc by (simp add: keeps_client_def mute_def)
    have no2: "turns_in mute m \<Longrightarrow> m c0 = (r, c') \<Longrightarrow> False" for m :: "unit turn" using nc by (auto dest: turns_inD simp: mute_def)
    have "\<not> (sv_principal c0 = None \<and> needs_login cmd)" 
    proof
      assume "sv_principal c0 = None \<and> needs_login cmd"
      with rest have "answer h 530 ''5.7.0 Authentication required'' c0 = (r, c')" by simp
      with no2 [OF mute.in_say(2)] show False .
    qed
    then have "seqt (sender_allowed h (sv_principal c0) cmd) (\<lambda>ok. if \<not> ok then answer h 553 ''5.7.1 Sender identity not permitted''
         else seqt (apply_turn cmd) (act_on cx h)) c0 = (r, c')" using rest by (simp only: if_False)
    from mute_then [OF quiet_mute [OF quiet_sender_allowed [OF ok]] this nc] obtain x c2 where
      c2: "sender_allowed h (sv_principal c0) cmd c0 = (Ok x, c2)" "accepted_log c' \<noteq> accepted_log c2"
      "(if \<not> x then answer h 553 ''5.7.1 Sender identity not permitted'' else seqt (apply_turn cmd) (act_on cx h)) c2 = (r, c')" by blast
    have "x" using c2(2,3) turns_inD [OF mute.in_say(2)] by (auto simp: mute_def split: if_splits)
    note kq = keeps_clientI [OF quiet_sender_allowed [OF ok] c2(1)]
    have "is_mail cmd \<or> sv_session c2 = sv_session c1" using kq by (simp add: c0_def)
    moreover have "keeps_client c1 c2" using keeps_client_trans [OF kc] kq by blast
    moreover have "sv_input c2 = sv_input c1" using turns_inD [OF unread_sender_allowed c2(1)] by (simp add: unread_def c0_def)
    ultimately show ?thesis using c2 \<open>x\<close> by auto
  qed
  then obtain c2 where c2: "keeps_client c1 c2" "is_mail cmd \<or> sv_session c2 = sv_session c1" "seqt (apply_turn cmd) (act_on cx h) c2 = (r, c')"
    "accepted_log c' \<noteq> accepted_log c2" "sv_input c2 = sv_input c1" by blast
  from apply_act_accepts [OF c2(3) ok c2(4)] obtain env c3 where c3: "cmd = Data" "transaction (sv_session c2) = Some env" "env_recipients env \<noteq> []"
    "begin_data cx h env c3 = (r, c')" "mute c2 c3" "sv_principal c3 = sv_principal c2" "sv_encrypted c3 = sv_encrypted c2"
    "trace_facts_of cx c3 = trace_facts_of cx c2" "sv_input c3 = sv_input c2" by metis
  have "keeps_client c c3" using q1 c2(1) c3(5-7) by (auto simp: keeps_client_def intro: mute.R_trans)
  moreover have "sv_session c2 = sv_session c" using c2(2) c3(1) q1 by (auto simp: is_mail_def)
  moreover have "trace_facts_of cx c3 = trace_facts_of cx c"
    using c3(8) calculation c2(1) q1 by (simp add: trace_facts_of_def keeps_client_def)
  moreover have "\<exists>b. read_line (command_bound cx) (sv_input c) = (Ok (Some b), sv_input c3) \<and> parse_command b = Ok Data"
    using next_command_Ok [OF b] pc c3(1,9) c2(5) by auto
  moreover have "transaction (sv_session c) = Some env" using c3(2) \<open>sv_session c2 = sv_session c\<close> by simp
  ultimately show thesis using that [of env c3] c3(3,4) by blast
qed

lemma open_stage_Ok:
  assumes "open_stage cx h c = (Ok (Ok st), c')" "0 < stream_buffer_bytes (c_limits (cx_config cx))"
  shows "stage_inv (sh_disk (sv_shared c')) st []"
proof -
  have "\<exists>hook tot avail u d. create_stage hook tot avail (store_options_of (cx_config cx)) u d = (Ok st, sh_disk (sv_shared c'))"
    using assms(1) unfolding open_stage_def
    by (auto simp: turn_simps split: if_splits sum.splits prod.splits) (metis prod.collapse)+
  then show ?thesis using create_stage_inv assms(2) by (fastforce simp: store_options_of_def)
qed

lemma announced:
  assumes "or_drop h st (seqt (get (trace_facts_of cx)) (\<lambda>t. case trace_prefix t sender op date of
      Err e \<Rightarrow> stop (Failed e) | Ok pre \<Rightarrow> seqt (answer h n txt) (\<lambda>_. proceed pre))) c = (Ok pre, c')"
  shows "trace_prefix (trace_facts_of cx c) sender op date = Ok pre \<and> sv_shared c' = sv_shared c \<and> sv_input c' = sv_input c"
  using assms by (auto simp: or_drop_def turn_simps answer_def say_def split: prod.splits sum.splits if_splits)

lemma worker_accept_inner: "who = None \<longrightarrow> rl = None \<Longrightarrow> worker_accept w pm plan who rl = accept_inner w True pm plan who rl"
  by (cases who; cases rl) (auto simp: worker_accept_def accept_def accept_submission_def accept_relay_submission_def)

lemma worker_accept_within: "within authority_le (worker_accept w pm plan who rl)"
proof (cases "who = None \<longrightarrow> rl = None")
  case True
  then show ?thesis by (simp add: worker_accept_inner accept_inner_within)
next
  case False
  then show ?thesis by (auto simp: worker_accept_def within_def throw_def authority.R_refl)
qed

lemma quiet_client_accept: "others_ok h \<Longrightarrow> turns_in quiet (client_accept h pm plan who rl)"
  unfolding client_accept_def
  by (auto intro!: quiet.in_rules quiet_interleave quiet_on_store worker_accept_within quiet_on_disk simp: release_def)

lemma client_accept_Ok:
  assumes "client_accept h pm plan who rl c = (Ok (Ok a), c')" "others_ok h"
  obtains s s' where "authority_le (db_of c) (st_db s)" "accept_inner (h_world h) True pm plan who rl s = (Ok a, s')" "db_of c' = st_db s'"
    "who = None \<longrightarrow> rl = None"
proof -
  from assms(1) obtain c1 c0 c2 how sel where c1: "interleave h c = (Ok (), c1)" and how: "decide (h_reach h) c1 = (Ok how, c0)"
    and sel: "decide (h_select h) c0 = (Ok sel, c2)"
    and rest: "seqt (if how = Unsent then proceed (Err WorkerUnavailable) else on_store (worker_accept (h_world h) pm plan who rl)) (\<lambda>r.
     seqt (on_disk (\<lambda>d. ((), release (pr_reservation pm) d))) (\<lambda>_.
       proceed (if how = Unheard \<or> sel = SelDeadline then Err OutcomeUnknown else r))) c2 = (Ok (Ok a), c')"
    unfolding client_accept_def by (auto simp: turn_simps)
  have q: "quiet c c2"
    using quiet.R_trans [OF turns_inD [OF quiet_interleave [OF assms(2)] c1] quiet.R_trans [OF turns_inD [OF quiet.in_decide how]
      turns_inD [OF quiet.in_decide sel]]] .
  let ?s = "sh_store (sv_shared c2)"
  have "how = Answered" "sel \<noteq> SelDeadline" using rest by (cases how; auto simp: turn_simps split: if_splits)+
  then have w: "fst (worker_accept (h_world h) pm plan who rl ?s) = Ok a" "db_of c' = st_db (snd (worker_accept (h_world h) pm plan who rl ?s))"
    using rest by (auto simp: turn_simps db_of_def)
  then have wl: "who = None \<longrightarrow> rl = None" by (cases who; cases rl) (auto simp: worker_accept_def throw_def)
  show thesis
    using that [of ?s "snd (worker_accept (h_world h) pm plan who rl ?s)"] q w wl
    by (auto simp: quiet_def db_of_def worker_accept_inner prod_eq_iff)
qed

lemma say_effect: "say h b c = (r, c') \<Longrightarrow> sv_log c' = sv_log c \<and> sv_shared c' = sv_shared c"
  by (cases r) (auto simp: say_def turn_simps split: if_splits)

lemma commit_accepts:
  assumes c: "commit_data cx h env op pm auth c = (r, c')" and ok: "others_ok h" and new: "accepted_log c' \<noteq> accepted_log c"
    and db: "db_ok (db_of c)"
  obtains i who d where "accepted_log c' = accepted_log c @ [MessageAccepted i op]" "map_option si_principal who = sv_principal c"
    "map_option si_author who = auth" "who = None \<longrightarrow> relay_part (cx_config cx) env = None" "authority_le (db_of c) d"
    "permitted d (acceptance_of (cx_config cx) op env) who"
    "recorded pm (acceptance_of (cx_config cx) op env) (map_option (\<lambda>i. pn_account (si_principal i)) who) (relay_part (cx_config cx) env) i (db_of c')"
    "authority_le d (db_of c')" "files_of c \<subseteq>\<^sub>m files_of c'"
proof -
  let ?plan = "acceptance_of (cx_config cx) op env" and ?rl = "relay_part (cx_config cx) env"
  note c = c [unfolded commit_data_def]
  obtain i where i: "identity_of (sv_principal c) auth = Ok i"
  proof (cases "identity_of (sv_principal c) auth")
    case (Inl e)
    then have "seqt (on_disk (\<lambda>d. ((), release (pr_reservation pm) d))) (\<lambda>_. stop (Failed e)) c = (r, c')"
      using c by (simp add: seqt_def get_def)
    then have "quiet c c'" by (rule turns_inD [rotated]) (intro quiet.in_rules quiet_on_disk, simp add: release_def)
    with new show thesis by (simp add: quiet_def)
  qed
  have wf: "map_option si_principal i = sv_principal c" "map_option si_author i = auth"
    using i by (auto simp: identity_of_def split: option.splits)
  have "seqt (client_accept h pm ?plan i ?rl) (acceptance_reply h op) c = (r, c')" using c i by (simp add: seqt_def get_def)
  from mute_then [OF quiet_mute [OF quiet_client_accept [OF ok]] this new]
  obtain x c1 where x: "client_accept h pm ?plan i ?rl c = (Ok x, c1)" and k: "acceptance_reply h op x c1 = (r, c')"
    and n1: "accepted_log c' \<noteq> accepted_log c1" by blast
  obtain a where a: "x = Ok a"
  proof (cases x)
    case (Inl e)
    have "turns_in quiet (acceptance_reply h op (Err e))" unfolding acceptance_reply_def by (auto intro!: quiet.in_rules quiet_log)
    from turns_inD [OF this k [unfolded Inl]] n1 show thesis by (simp add: quiet_def)
  qed
  obtain s s' where s: "authority_le (db_of c) (st_db s)" "accept_inner (h_world h) True pm ?plan i ?rl s = (Ok a, s')" "db_of c1 = st_db s'"
    "i = None \<longrightarrow> ?rl = None" by (rule client_accept_Ok [OF x [unfolded a] ok])
  have ds: "db_ok (st_db s)" using s(1) db by (simp add: authority_le_def)
  from s(2) ds have acc: "permitted (st_db s) ?plan i" "recorded pm ?plan (map_option (\<lambda>i. pn_account (si_principal i)) i) ?rl (am_id a) (st_db s')"
    by (cases rule: accept_inner_cases; auto)+
  have sh: "sv_shared c' = sv_shared c1" and lg: "sv_log c' = sv_log c1 @ [MessageAccepted (am_id a) op]"
    using k a by (auto simp: acceptance_reply_def seqt_def log_entry_add_def put_def dest!: say_effect)
  have q: "quiet c c1" by (rule turns_inD [OF quiet_client_accept [OF ok] x])
  have "authority_le (st_db s) (st_db s')" using accept_inner_within(2) s(2) by (auto simp: within_def)
  then have le: "authority_le (st_db s) (db_of c')" using s(3) sh by (simp add: db_of_def)
  show thesis
    by (rule that [of "am_id a" i "st_db s"]) (use q lg sh wf s acc le in \<open>auto simp: quiet_def accepted_log_def db_of_def files_of_def\<close>)
qed

lemma quiet_take:
  assumes "take_data cx h env op pre st c = (r, c')" "others_ok h" "accepted_log c' \<noteq> accepted_log c"
  obtains pm auth c1 n where "commit_data cx h env op pm auth c1 = (r, c')" "quiet c c1" "accepted_log c' \<noteq> accepted_log c1"
    "\<exists>st' d' rest. receive_message (h_sha256 h) (h_hook h n) (h_fails h n) (c_limits (cx_config cx)) (cx_auth cx \<noteq> None) (env_body env) pre st
       (sh_disk (sv_shared c)) (h_script h n) (sv_input c) = Some (Ok (pm, auth), st', d', rest) \<and> files_of c1 = blobs d' \<and> sv_input c1 = rest"
proof -
  from mute_then [OF mute.in_decide assms(1) [unfolded take_data_def] assms(3)] obtain sel c1 where
    c1: "decide (h_select h) c = (Ok sel, c1)" and k: "seqt (get (revocation_wins sel)) (\<lambda>rev.
       if rev then seqt (drop_stage h st) (\<lambda>_. seqt (answer h 421 ''4.7.0 Session authorization changed'') (\<lambda>_. stop Closed))
       else if sel = SelDeadline then seqt (drop_stage h st) (\<lambda>_. seqt (answer h 421 ''4.4.2 DATA timeout'') (\<lambda>_. stop Closed))
       else seqt (receive_on cx h env pre st) (\<lambda>r.
         case r of Err e \<Rightarrow> refuse_data h e | Ok (pm, auth) \<Rightarrow> commit_data cx h env op pm auth)) c1 = (r, c')"
    and n1: "accepted_log c' \<noteq> accepted_log c1" by blast
  have q1: "quiet c c1" by (rule turns_inD [OF quiet.in_decide c1])
  have no: "turns_in quiet m \<Longrightarrow> m c1 \<noteq> (r, c')" for m :: "unit turn" using n1 by (auto dest: turns_inD simp: quiet_def)
  have "seqt (drop_stage h st) (\<lambda>_. seqt (answer h 421 t) (\<lambda>_. stop Closed)) c1 \<noteq> (r, c')" for t
    by (rule no) (intro quiet.in_rules quiet_drop)
  with k have "seqt (receive_on cx h env pre st) (\<lambda>r. case r of Err e \<Rightarrow> refuse_data h e | Ok (pm, auth) \<Rightarrow> commit_data cx h env op pm auth) c1 = (r, c')"
    by (auto simp: seqt_def get_def split: if_splits)
  from mute_then [OF quiet_mute [OF quiet_receive] this n1] obtain x c2 where
    x: "receive_on cx h env pre st c1 = (Ok x, c2)" and k2: "(case x of Err e \<Rightarrow> refuse_data h e | Ok (pm, auth) \<Rightarrow> commit_data cx h env op pm auth) c2 = (r, c')"
    and n2: "accepted_log c' \<noteq> accepted_log c2" by blast
  have q2: "quiet c1 c2" by (rule turns_inD [OF quiet_receive x])
  obtain pm auth where pa: "x = Ok (pm, auth)"
  proof (cases x)
    case (Inl e)
    then have "refuse_data h e c2 = (r, c')" using k2 by simp
    from turns_inD [OF quiet.in_refuse this] n2 show thesis by (simp add: quiet_def)
  qed (use that in \<open>auto simp: prod_eq_iff\<close>)
  have same: "sv_shared c1 = sv_shared c" "sv_input c1 = sv_input c" using c1 by (auto simp: turn_simps)
  have "\<exists>n st' d' rest. receive_message (h_sha256 h) (h_hook h n) (h_fails h n) (c_limits (cx_config cx)) (cx_auth cx \<noteq> None) (env_body env) pre st
       (sh_disk (sv_shared c)) (h_script h n) (sv_input c) = Some (Ok (pm, auth), st', d', rest) \<and> files_of c2 = blobs d' \<and> sv_input c2 = rest"
    using x pa same unfolding receive_on_def
    by (auto simp: turn_simps Let_def files_of_def split: option.splits prod.splits sum.splits) blast
  moreover have "commit_data cx h env op pm auth c2 = (r, c')" using k2 pa by simp
  ultimately show thesis using that [OF _ quiet.R_trans [OF q1 q2] n2] by blast
qed

lemma begin_accepts:
  assumes b: "begin_data cx h env c = (r, c')" and ok: "others_ok h" and new: "accepted_log c' \<noteq> accepted_log c"
    and buf: "0 < stream_buffer_bytes (c_limits (cx_config cx))"
  obtains op date pre pm auth c1 fs out t where "commit_data cx h env op pm auth c1 = (r, c')" "quiet c c1" "accepted_log c' \<noteq> accepted_log c1"
    "trace_prefix (trace_facts_of cx c) (env_sender env) op date = Ok pre"
    "concat (sv_input c) = wire fs @ crlf ''.'' @ concat (sv_input c1)"
    "\<exists>st d ws. rx_lines (c_limits (cx_config cx)) (cx_auth cx \<noteq> None) (env_body env) (receive_new (cx_auth cx \<noteq> None) st d ws) (map undot fs) = Ok (out, t)"
    "files_of c1 (pr_id pm) = Some (pre @ out @ separator t)" "pr_size pm = length (pre @ out @ separator t)"
    "pr_hash pm = h_sha256 h (pre @ out @ separator t)" "rx_author (cx_auth cx \<noteq> None) t auth"
proof -
  from mute_then [OF mute.in_decide b [unfolded begin_data_def] new] obtain permit c1 where
    c1: "decide (h_slot h) c = (Ok permit, c1)" and k1: "(if \<not> permit then answer h 452 ''4.3.1 Ingest capacity exhausted''
     else seqt (open_stage cx h) (\<lambda>r. case r of
         Err _ \<Rightarrow> answer h 452 ''4.3.1 Storage unavailable''
       | Ok st \<Rightarrow>
           seqt (decide (\<lambda>n. (uuid_simple (h_uuid h n), h_date h n))) (\<lambda>(op, date).
           seqt (or_drop h st (seqt (get (trace_facts_of cx)) (\<lambda>t.
             case trace_prefix t (env_sender env) op date of
               Err e \<Rightarrow> stop (Failed e)
             | Ok pre \<Rightarrow> seqt (answer h 354 ''Send message; end with <CRLF>.<CRLF>'') (\<lambda>_. proceed pre)))) (\<lambda>pre.
           take_data cx h env op pre st)))) c1 = (r, c')"
    and n1: "accepted_log c' \<noteq> accepted_log c1" by blast
  have q1: "quiet c c1" "sv_input c1 = sv_input c" using turns_inD [OF quiet.in_decide c1] c1 by (auto simp: turn_simps)
  have "answer h 452 tx c2 = (r, c') \<Longrightarrow> accepted_log c' = accepted_log c2" for c2 tx using turns_inD [OF quiet.in_say(2)] by (auto simp: quiet_def)
  with k1 n1 have "permit" by (auto split: if_splits)
  with k1 have "seqt (open_stage cx h) (\<lambda>r. case r of
         Err _ \<Rightarrow> answer h 452 ''4.3.1 Storage unavailable''
       | Ok st \<Rightarrow>
           seqt (decide (\<lambda>n. (uuid_simple (h_uuid h n), h_date h n))) (\<lambda>(op, date).
           seqt (or_drop h st (seqt (get (trace_facts_of cx)) (\<lambda>t.
             case trace_prefix t (env_sender env) op date of
               Err e \<Rightarrow> stop (Failed e)
             | Ok pre \<Rightarrow> seqt (answer h 354 ''Send message; end with <CRLF>.<CRLF>'') (\<lambda>_. proceed pre)))) (\<lambda>pre.
           take_data cx h env op pre st))) c1 = (r, c')" by (simp only: not_True_eq_False if_False)
  from mute_then [OF quiet_mute [OF quiet_open_stage [OF ok]] this n1] obtain x c2 where x: "open_stage cx h c1 = (Ok x, c2)"
    and k2: "(case x of
         Err _ \<Rightarrow> answer h 452 ''4.3.1 Storage unavailable''
       | Ok st \<Rightarrow>
           seqt (decide (\<lambda>n. (uuid_simple (h_uuid h n), h_date h n))) (\<lambda>(op, date).
           seqt (or_drop h st (seqt (get (trace_facts_of cx)) (\<lambda>t.
             case trace_prefix t (env_sender env) op date of
               Err e \<Rightarrow> stop (Failed e)
             | Ok pre \<Rightarrow> seqt (answer h 354 ''Send message; end with <CRLF>.<CRLF>'') (\<lambda>_. proceed pre)))) (\<lambda>pre.
           take_data cx h env op pre st))) c2 = (r, c')"
    and n2: "accepted_log c' \<noteq> accepted_log c2" by blast
  have q2: "quiet c1 c2" "sv_input c2 = sv_input c1"
    using turns_inD [OF quiet_open_stage [OF ok] x] turns_inD [OF unread_open x] by (auto simp: unread_def)
  obtain st where st: "x = Ok st"
    using k2 n2 turns_inD [OF quiet.in_say(2)] by (cases x) (auto simp: quiet_def)
  have inv: "stage_inv (sh_disk (sv_shared c2)) st []" by (rule open_stage_Ok [OF x [unfolded st] buf])
  define op where "op = uuid_simple (h_uuid h (sv_step c2))"
  define date where "date = h_date h (sv_step c2)"
  let ?c3 = "c2\<lparr>sv_step := sv_step c2 + 1\<rparr>"
  have q3: "quiet c2 ?c3" by (rule quiet.R_step)
  let ?ann = "or_drop h st (seqt (get (trace_facts_of cx)) (\<lambda>t.
             case trace_prefix t (env_sender env) op date of
               Err e \<Rightarrow> stop (Failed e)
             | Ok pre \<Rightarrow> seqt (answer h 354 ''Send message; end with <CRLF>.<CRLF>'') (\<lambda>_. proceed pre)))"
  have k3: "seqt ?ann (\<lambda>pre. take_data cx h env op pre st) ?c3 = (r, c')" using k2 st by (simp add: seqt_def decide_def op_def date_def)
  have n3: "accepted_log c' \<noteq> accepted_log ?c3" using n2 by (simp add: accepted_log_def)
  from mute_then [OF quiet_mute [OF quiet_announce] k3 n3] obtain pre c4 where pre: "?ann ?c3 = (Ok pre, c4)"
    and k4: "take_data cx h env op pre st c4 = (r, c')" and n4: "accepted_log c' \<noteq> accepted_log c4" by blast
  have q4: "quiet ?c3 c4" by (rule turns_inD [OF quiet_announce pre])
  note an = announced [OF pre]
  from quiet_take [OF k4 ok n4] obtain pm auth c5 n where c5: "commit_data cx h env op pm auth c5 = (r, c')" "quiet c4 c5" "accepted_log c' \<noteq> accepted_log c5"
    and rm: "\<exists>st' d' rest. receive_message (h_sha256 h) (h_hook h n) (h_fails h n) (c_limits (cx_config cx)) (cx_auth cx \<noteq> None) (env_body env) pre st
       (sh_disk (sv_shared c4)) (h_script h n) (sv_input c4) = Some (Ok (pm, auth), st', d', rest) \<and> files_of c5 = blobs d' \<and> sv_input c5 = rest"
    by metis
  from rm obtain st' d' rest where rm: "receive_message (h_sha256 h) (h_hook h n) (h_fails h n) (c_limits (cx_config cx)) (cx_auth cx \<noteq> None) (env_body env) pre st
       (sh_disk (sv_shared c2)) (h_script h n) (sv_input c) = Some (Ok (pm, auth), st', d', rest)" "files_of c5 = blobs d'" "sv_input c5 = rest"
    using an q1(2) q2(2) by auto
  from received_content [OF inv rm(1)] obtain fs out t where w: "concat (sv_input c) = wire fs @ crlf ''.'' @ concat rest"
    "rx_lines (c_limits (cx_config cx)) (cx_auth cx \<noteq> None) (env_body env)
      (receive_new (cx_auth cx \<noteq> None) st (sh_disk (sv_shared c2)) (h_script h n)) (map undot fs) = Ok (out, t)"
    "blobs d' = (blobs (sh_disk (sv_shared c2)))(st_id st \<mapsto> pre @ out @ separator t)" "pr_id pm = st_id st"
    "pr_size pm = length (pre @ out @ separator t)" "pr_hash pm = h_sha256 h (pre @ out @ separator t)" "rx_author (cx_auth cx \<noteq> None) t auth"
    by (auto simp: Let_def)
  have q: "quiet c c5" using q1(1) q2(1) q3 q4 c5(2) by (meson quiet.R_trans)
  have "trace_facts_of cx ?c3 = trace_facts_of cx c" using quiet.R_trans [OF q1(1) quiet.R_trans [OF q2(1) q3]] by (simp add: trace_facts_of_def quiet_def)
  then have tp: "trace_prefix (trace_facts_of cx c) (env_sender env) op date = Ok pre" using an by simp
  have "files_of c5 (pr_id pm) = Some (pre @ out @ separator t)" using w(3,4) rm(2) by simp
  with w(2) show thesis by (intro that [OF c5(1) q c5(3) tp w(1) [folded rm(3)] _ _ w(5,6,7)]) blast+
qed

definition lawful :: "sconn \<Rightarrow> sconn \<Rightarrow> bool" where
  "lawful c c' \<longleftrightarrow> authority_le (db_of c) (db_of c')"

interpretation lawful: conn_relation lawful
proof
  show "lawful a b \<Longrightarrow> lawful b c \<Longrightarrow> lawful a c" for a b c unfolding lawful_def by (rule authority.R_trans)
qed (simp_all add: lawful_def db_of_def authority.R_refl)

lemma mute_lawful: "turns_in mute m \<Longrightarrow> turns_in lawful m"
  unfolding turns_in_def mute_def lawful_def by blast

lemmas quiet_lawful = mute_lawful [OF quiet_mute]

lemma lawful_log: "turns_in lawful (log_entry_add e)"
  by (auto simp: turns_in_def turn_simps lawful_def db_of_def log_entry_add_def authority.R_refl)

lemma lawful_commit: "others_ok h \<Longrightarrow> turns_in lawful (commit_data cx h env op pm auth)"
  unfolding commit_data_def acceptance_reply_def
  by (auto intro!: lawful.in_rules lawful_log quiet_lawful [OF quiet_client_accept] quiet_lawful [OF quiet_on_disk]
      simp: release_def split: sum.splits)

lemma lawful_begin: "others_ok h \<Longrightarrow> turns_in lawful (begin_data cx h env)"
  unfolding begin_data_def take_data_def
  by (auto intro!: lawful.in_rules lawful_commit quiet_lawful [OF quiet_open_stage] quiet_lawful [OF quiet_announce]
      quiet_lawful [OF quiet_drop] quiet_lawful [OF quiet_receive] split: sum.splits prod.splits)

lemma lawful_act: "others_ok h \<Longrightarrow> turns_in lawful (act_on cx h a)"
  by (cases "\<exists>env. a = BeginData env") (auto simp: act_on_def lawful_begin intro: mute_lawful [OF mute_act [unfolded act_on_def]])

lemma lawful_turn: "others_ok h \<Longrightarrow> turns_in lawful (session_turn cx h)"
  unfolding session_turn_def parsed_command_def
  by (auto intro!: lawful.in_rules lawful_act quiet_lawful [OF quiet_next_command] mute_lawful [OF mute_auth] mute_lawful [OF mute_bad]
      mute_lawful [OF mute_apply] mute_lawful [OF mute_reset] quiet_lawful [OF quiet_sender_allowed] split: sum.splits)

lemma session_turns_inv:
  assumes "session_turns cx h n c = (Ok (), c')" "client_inv cx c" "others_ok h"
  shows "client_inv cx c' \<and> lawful c c'"
  using assms(1,2)
proof (induction n arbitrary: c)
  case 0
  then show ?case by (simp add: proceed_def lawful.R_refl)
next
  case (Suc n)
  then obtain c1 where c1: "session_turn cx h c = (Ok (), c1)" "session_turns cx h n c1 = (Ok (), c')" by (auto simp: turn_simps)
  with Suc.IH [OF c1(2) session_turn_inv [OF c1(1) Suc.prems(2) assms(3)]] turns_inD [OF lawful_turn [OF assms(3)] c1(1)]
  show ?case by (auto intro: lawful.R_trans)
qed

lemma greet_state:
  assumes "greet cx h (new_sconn cx chunks sh) = (Ok (), c)"
  shows "client_inv cx c \<and> db_of c = st_db (sh_store sh)"
  using assms unfolding greet_def open_transport_def
  by (auto simp: turn_simps say_def new_sconn_def client_inv_def fresh_session_def new_session_def db_of_def split: if_splits option.splits)

lemma session_state:
  assumes "smtp_session cx h n chunks sh = (Ok (), c)" "others_ok h"
  shows "client_inv cx c \<and> authority_le (st_db (sh_store sh)) (db_of c)"
proof -
  from assms(1) obtain c0 where c0: "greet cx h (new_sconn cx chunks sh) = (Ok (), c0)" "session_turns cx h n c0 = (Ok (), c)"
    unfolding smtp_session_def by (auto simp: turn_simps)
  with greet_state [OF c0(1)] session_turns_inv [OF c0(2) _ assms(2)] show ?thesis by (simp add: lawful_def)
qed


text \<open>What a complete record of an accepted message is, in terms of the envelope the client gave.\<close>

definition message_recorded :: "config \<Rightarrow> envelope \<Rightarrow> string \<Rightarrow> int option \<Rightarrow> nat \<Rightarrow> string \<Rightarrow> string \<Rightarrow> database \<Rightarrow> bool" where
  "message_recorded cfg env op account n hash i d \<longleftrightarrow>
     (\<exists>m b. m \<in> set (messages d) \<and> b \<in> set (blob_rows d) \<and> ms_blob m = bl_id b \<and> ms_id m = i \<and> ms_ingest_key m = op
        \<and> ms_reverse_path m = (case env_sender env of None \<Rightarrow> [] | Some a \<Rightarrow> as_str a) \<and> ms_account m = account
        \<and> bl_size b = int n \<and> bl_sha256 b = hash)
     \<and> recipients_where (\<lambda>r. r = RouteLocal) i d = local_key ` {r \<in> set (env_recipients env). is_local cfg r}
     \<and> recipients_where (\<lambda>r. r \<noteq> RouteLocal) i d = as_str ` {r \<in> set (env_recipients env). \<not> is_local cfg r}
     \<and> (queue_entry i d = None \<longleftrightarrow> list_all (is_local cfg) (env_recipients env))"

lemma previous_db_rows:
  assumes "previous_db key d = Some (m, b)"
  shows "m \<in> set (messages d) \<and> b \<in> set (blob_rows d) \<and> bl_id b = ms_blob m \<and> ms_ingest_key m = key"
proof -
  let ?rows = "[(m, b). m \<leftarrow> messages d, b \<leftarrow> blob_rows d, bl_id b = ms_blob m \<and> ms_ingest_key m = key]"
  have "first_of xs = Some x \<Longrightarrow> x \<in> set xs" for xs :: "(message_row \<times> blob_row) list" and x
    by (auto simp: first_of_def split: list.splits)
  then have "(m, b) \<in> set ?rows" using assms by (simp only: previous_db_def)
  then show ?thesis by (auto split: if_splits)
qed

lemma recorded_message:
  assumes "recorded pm (acceptance_of cfg op env) account (relay_part cfg env) i d"
  shows "message_recorded cfg env op account (pr_size pm) (pr_hash pm) i d"
proof -
  have l: "set (local_keys (acceptance_of cfg op env)) = local_key ` {r \<in> set (env_recipients env). is_local cfg r}"
    by (auto simp: local_keys_def acceptance_of_def ordered_set_def)
  have r: "set (remote_keys (relay_part cfg env)) = as_str ` {r \<in> set (env_recipients env). \<not> is_local cfg r}"
    and q: "relay_part cfg env = None \<longleftrightarrow> list_all (is_local cfg) (env_recipients env)"
    by (auto simp: remote_keys_def relay_part_def ordered_set_def Let_def filter_empty_conv list_all_iff)
  from assms obtain m b where mb: "previous_db op d = Some (m, b)" "ms_id m = i" "ms_reverse_path m = sender_text (env_sender env)" "ms_account m = account"
    "bl_sha256 b = pr_hash pm" "bl_size b = int (pr_size pm)"
    and rest: "recipients_where (\<lambda>r. r = RouteLocal) i d = set (local_keys (acceptance_of cfg op env))"
      "recipients_where (\<lambda>r. r \<noteq> RouteLocal) i d = set (remote_keys (relay_part cfg env))"
      "queue_entry i d = map_option (\<lambda>r. (ra_body r, int (ra_age r))) (relay_part cfg env)"
    by (auto simp: recorded_def acceptance_of_def)
  have "queue_entry i d = None \<longleftrightarrow> list_all (is_local cfg) (env_recipients env)" using rest(3) q by simp
  moreover have "\<exists>m b. m \<in> set (messages d) \<and> b \<in> set (blob_rows d) \<and> ms_blob m = bl_id b \<and> ms_id m = i \<and> ms_ingest_key m = op
        \<and> ms_reverse_path m = (case env_sender env of None \<Rightarrow> [] | Some a \<Rightarrow> as_str a) \<and> ms_account m = account
        \<and> bl_size b = int (pr_size pm) \<and> bl_sha256 b = pr_hash pm"
    using previous_db_rows [OF mb(1)] mb(2-6) by (intro exI [of _ m] exI [of _ b]) (simp add: sender_text_def)
  ultimately show ?thesis using rest(1,2) l r unfolding message_recorded_def by simp
qed

text \<open>
  Property C1. A session logs and answers that it accepted a message only in the pass of its loop that read DATA for an open transaction, and
  then the message is stored: the file holds the trace fields followed by the lines the client sent up to the lone dot, without
  transparency dots and without the fields the server removes; the database records that file's size and hash, the envelope's
  sender, exactly the envelope's local recipients for delivery and its other recipients for relaying, and as its owner the
  account of the session's principal. Without a principal every recipient is local: nothing is relayed for a stranger. With one, the session is
  encrypted, and at the moment of acceptance the principal is valid, has full scope, and may send as the envelope sender and as the
  author the message's only From field names.
\<close>

theorem accepted_message_sound:
  assumes reached: "smtp_session cx h n chunks sh = (Ok (), c)" and turn: "session_turn cx h c = (r, c')"
    and new: "accepted_log c' \<noteq> accepted_log c" and ok: "others_ok h" and db: "db_ok (st_db (sh_store sh))"
    and buf: "0 < stream_buffer_bytes (c_limits (cx_config cx))"
  shows "\<exists>env b rest fs op date pre out t content f i d.
      transaction (sv_session c) = Some env \<and> env_recipients env \<noteq> []
    \<and> read_line (command_bound cx) (sv_input c) = (Ok (Some b), rest) \<and> parse_command b = Ok Data
    \<and> concat rest = wire fs @ crlf ''.'' @ concat (sv_input c')
    \<and> trace_prefix (trace_facts_of cx c) (env_sender env) op date = Ok pre
    \<and> (\<exists>st dk ws. rx_lines (c_limits (cx_config cx)) (cx_auth cx \<noteq> None) (env_body env) (receive_new (cx_auth cx \<noteq> None) st dk ws)
         (map undot fs) = Ok (out, t))
    \<and> content = pre @ out @ separator t
    \<and> files_of c' f = Some content
    \<and> accepted_log c' = accepted_log c @ [MessageAccepted i op]
    \<and> message_recorded (cx_config cx) env op (map_option pn_account (sv_principal c)) (length content) (h_sha256 h content) i (db_of c')
    \<and> authority_le (db_of c) d \<and> authority_le d (db_of c')
    \<and> (case sv_principal c of
         None \<Rightarrow> list_all (is_local (cx_config cx)) (env_recipients env)
       | Some p \<Rightarrow> sv_encrypted c \<and> (\<exists>a. env_sender env = Some a \<and> may_send_now d p a)
           \<and> (\<exists>a. rx_author (cx_auth cx \<noteq> None) t (Some a) \<and> may_send_now d p a))"
proof -
  note st = session_state [OF reached ok]
  from turn_accepts [OF turn ok new] obtain env c1 where
    1: "transaction (sv_session c) = Some env" "env_recipients env \<noteq> []" "begin_data cx h env c1 = (r, c')" "keeps_client c c1"
    "trace_facts_of cx c1 = trace_facts_of cx c"
    "\<exists>b. read_line (command_bound cx) (sv_input c) = (Ok (Some b), sv_input c1) \<and> parse_command b = Ok Data" by metis
  have m1: "mute c c1" "sv_principal c1 = sv_principal c" using 1(4) by (auto simp: keeps_client_def)
  have n1: "accepted_log c' \<noteq> accepted_log c1" using new m1(1) by (simp add: mute_def)
  from begin_accepts [OF 1(3) ok n1 buf] obtain op date pre pm auth c2 fs out t where
    2: "commit_data cx h env op pm auth c2 = (r, c')" "quiet c1 c2" "accepted_log c' \<noteq> accepted_log c2"
    "trace_prefix (trace_facts_of cx c1) (env_sender env) op date = Ok pre"
    "concat (sv_input c1) = wire fs @ crlf ''.'' @ concat (sv_input c2)"
    "\<exists>st d ws. rx_lines (c_limits (cx_config cx)) (cx_auth cx \<noteq> None) (env_body env) (receive_new (cx_auth cx \<noteq> None) st d ws) (map undot fs) = Ok (out, t)"
    "files_of c2 (pr_id pm) = Some (pre @ out @ separator t)" "pr_size pm = length (pre @ out @ separator t)"
    "pr_hash pm = h_sha256 h (pre @ out @ separator t)" "rx_author (cx_auth cx \<noteq> None) t auth" by metis
  have q2: "mute c1 c2" "sv_principal c2 = sv_principal c1" using 2(2) by (auto simp: quiet_def mute_def)
  have m2: "mute c c2" by (rule mute.R_trans [OF m1(1) q2(1)])
  have d2: "db_ok (db_of c2)" using authority.R_trans [of "st_db (sh_store sh)" "db_of c" "db_of c2"] st m2 db by (auto simp: mute_def authority_le_def)
  from commit_accepts [OF 2(1) ok 2(3) d2] obtain i who d where
    3: "accepted_log c' = accepted_log c2 @ [MessageAccepted i op]" "map_option si_principal who = sv_principal c2"
    "who = None \<longrightarrow> relay_part (cx_config cx) env = None" "authority_le (db_of c2) d"
    "permitted d (acceptance_of (cx_config cx) op env) who"
    "recorded pm (acceptance_of (cx_config cx) op env) (map_option (\<lambda>i. pn_account (si_principal i)) who) (relay_part (cx_config cx) env) i (db_of c')"
    "authority_le d (db_of c')" "files_of c2 \<subseteq>\<^sub>m files_of c'" "map_option si_author who = auth" by metis
  have inp: "sv_input c' = sv_input c2" using turns_inD [OF unread_commit 2(1)] by (simp add: unread_def)
  have acc: "map_option (\<lambda>i. pn_account (si_principal i)) who = map_option pn_account (sv_principal c)"
    using 3(2) [symmetric] q2(2) m1(2) by (simp add: option.map_comp comp_def)
  have kept: "message_recorded (cx_config cx) env op (map_option pn_account (sv_principal c)) (length (pre @ out @ separator t))
      (h_sha256 h (pre @ out @ separator t)) i (db_of c')"
    using recorded_message [OF 3(6)] acc 2(8,9) by simp
  have stored: "files_of c' (pr_id pm) = Some (pre @ out @ separator t)" using 3(8) 2(7) by (auto simp: map_le_def dom_def)
  have who: "case sv_principal c of
         None \<Rightarrow> list_all (is_local (cx_config cx)) (env_recipients env)
       | Some p \<Rightarrow> sv_encrypted c \<and> (\<exists>a. env_sender env = Some a \<and> may_send_now d p a)
           \<and> (\<exists>a. rx_author (cx_auth cx \<noteq> None) t (Some a) \<and> may_send_now d p a)"
    using st 1(1) 3(2,3,5,9) q2(2) m1(2) 2(10)
    by (cases who) (auto simp: client_inv_def list_all_iff permitted_def acceptance_of_def split: option.splits)
  from 1(6) obtain b where b: "read_line (command_bound cx) (sv_input c) = (Ok (Some b), sv_input c1)" "parse_command b = Ok Data" by blast
  show ?thesis
    apply (rule exI [of _ env], rule exI [of _ b], rule exI [of _ "sv_input c1"], rule exI [of _ fs], rule exI [of _ op], rule exI [of _ date],
        rule exI [of _ pre], rule exI [of _ out], rule exI [of _ t], rule exI [of _ "pre @ out @ separator t"], rule exI [of _ "pr_id pm"], rule exI [of _ i],
        rule exI [of _ d])
    using 1 2 3 b m2 authority.R_trans [of "db_of c" "db_of c2" d] inp kept stored who by (intro conjI) (simp_all add: mute_def)
qed

end
