(* ===== verification/Server_Ends.thy ===== *)
theory Server_Ends
  imports Server_Accepts
begin

text \<open>
  The step to TLS and the end of a session: no step but the handshake gives back input, so every pass of the loop
  brings the session closer to its end. A sample session closes the theory.
\<close>

section \<open>Sessions end\<close>

lemma read_line_rest: "length (concat (snd (read_line n chunks))) \<le> length (concat chunks)"
  by (auto simp: read_line_def split: prod.splits sum.splits bool.splits dest: fill_line_rest)

lemma read_line_progress: "read_line n chunks = (Ok (Some b), rest) \<Longrightarrow> length (concat rest) < length (concat chunks)"
  using read_line_parts [of n chunks b "concat rest"] by auto

lemma receive_message_rest:
  "receive_message sha256 hook fails l sub bd pre st d ws chunks = Some (r, st', d', rest) \<Longrightarrow> length (concat rest) \<le> length (concat chunks)"
  by (auto simp: receive_message_def dest!: receive_loop_rest split: option.splits sum.splits prod.splits)

text \<open>What no step but a handshake does: it neither changes the encryption nor gives back input.\<close>

definition sealed :: "sconn \<Rightarrow> sconn \<Rightarrow> bool" where
  "sealed c c' \<longleftrightarrow> sv_encrypted c' = sv_encrypted c"

interpretation sealed: conn_relation sealed
  by unfold_locales (auto simp: sealed_def)

definition shrinks :: "sconn \<Rightarrow> sconn \<Rightarrow> bool" where
  "shrinks c c' \<longleftrightarrow> sealed c c' \<and> length (concat (sv_input c')) \<le> length (concat (sv_input c))"

interpretation shrinks: conn_relation shrinks
  by unfold_locales (auto simp: shrinks_def sealed_def)

lemma shrinks_sealed: "turns_in shrinks m \<Longrightarrow> turns_in sealed m"
  unfolding turns_in_def shrinks_def by blast

lemma shrinks_basics: "turns_in shrinks (on_store act)" "turns_in shrinks (on_disk f)" "turns_in shrinks (log_entry_add e)"
  "turns_in shrinks (next_line n)" "turns_in shrinks (apply_turn cmd)"
  "turns_in shrinks (authenticate_with cx h au cred t g)"
  using read_line_rest
  by (auto simp: turns_in_def turn_simps shrinks_def sealed_def log_entry_add_def apply_turn_def authenticate_with_def Let_def split: prod.splits)

lemma shrinks_put: "(\<And>c. sv_input (u c) = sv_input c \<and> sv_encrypted (u c) = sv_encrypted c) \<Longrightarrow> turns_in shrinks (put u)"
  by (rule shrinks.in_put) (simp add: shrinks_def sealed_def)

lemma shrinks_interleave: "turns_in shrinks (interleave h)"
  unfolding interleave_def by (intro shrinks.in_rules shrinks_put) simp

lemma shrinks_ask: "turns_in shrinks (ask h act)"
  unfolding ask_def by (intro shrinks.in_rules shrinks_interleave shrinks_basics)

lemma shrinks_next_command: "turns_in shrinks (next_command cx h)"
  unfolding next_command_def by (auto intro!: shrinks.in_rules shrinks_basics split: sum.splits option.splits)

lemma shrinks_auth: "turns_in shrinks (auth_command cx h b)"
  unfolding auth_command_def auth_dialog_def auth_initial_def run_authenticate_def Let_def
  by (auto intro!: shrinks.in_rules shrinks_basics shrinks_interleave shrinks_put split: sum.splits option.splits auth_error.splits auth_outcome.splits)

lemma shrinks_bad: "turns_in shrinks (bad_command h b e)"
  unfolding bad_command_def reset_transaction_def by (auto intro!: shrinks.in_rules shrinks_basics split: parse_error.splits)

lemma shrinks_drop: "turns_in shrinks (drop_stage h st)"
  unfolding drop_stage_def by (intro shrinks.in_rules shrinks_basics)

lemma shrinks_receive: "turns_in shrinks (receive_on cx h env pre st)"
  unfolding receive_on_def
proof (rule shrinks.in_decided, unfold prod.case turns_in_def, intro allI impI)
  fix n c r c'
  assume r: "(case receive_message (h_sha256 h) (h_hook h n) (h_fails h n) (c_limits (cx_config cx)) (cx_auth cx \<noteq> None) (env_body env) pre st
              (sh_disk (sv_shared c)) (h_script h n) (sv_input c) of
         None \<Rightarrow> (Err Hangs, c)
       | Some (r, st', d, rest) \<Rightarrow>
           let c' = c\<lparr>sv_input := rest, sv_shared := (sv_shared c)\<lparr>sh_disk := d\<rparr>\<rparr> in
           (case r of Err e \<Rightarrow> seqt (drop_stage h st') (\<lambda>_. proceed (Err e)) c' | Ok x \<Rightarrow> (Ok (Ok x), c'))) = (r, c')"
  have d: "turns_in shrinks (seqt (drop_stage h st') (\<lambda>_. proceed (Err e)))" for st' and e :: server_error by (intro shrinks.in_rules shrinks_drop)
  from r show "shrinks c c'"
    by (auto simp: shrinks.R_refl Let_def split: option.splits sum.splits prod.splits dest!: receive_message_rest turns_inD [OF d])
      (simp_all add: shrinks_def sealed_def)
qed

lemma shrinks_or_drop: "turns_in shrinks m \<Longrightarrow> turns_in shrinks (or_drop h st m)"
  unfolding turns_in_def or_drop_def
  by (auto split: prod.splits sum.splits) (metis shrinks.R_trans shrinks_drop turns_inD prod.collapse)

lemma shrinks_commit: "turns_in shrinks (commit_data cx h env op pm auth)"
  unfolding commit_data_def client_accept_def acceptance_reply_def
  by (auto intro!: shrinks.in_rules shrinks_basics shrinks_interleave split: sum.splits)

lemma shrinks_open: "turns_in shrinks (open_stage cx h)"
  unfolding open_stage_def by (auto intro!: shrinks.in_rules shrinks_basics shrinks_interleave shrinks_drop split: sum.splits prod.splits)

lemma shrinks_begin: "turns_in shrinks (begin_data cx h env)"
  unfolding begin_data_def take_data_def
  by (auto intro!: shrinks.in_rules shrinks_open shrinks_or_drop shrinks_drop shrinks_receive shrinks_commit split: sum.splits prod.splits)

lemma shrinks_routed: "turns_in shrinks (\<lambda>c. case routed_recipient_result (sv_session c) a ex loc of (rep, s) \<Rightarrow> (Ok rep, c\<lparr>sv_session := s\<rparr>))"
  by (auto simp: turns_in_def shrinks_def sealed_def split: prod.splits)

lemma shrinks_act: "a \<noteq> ActStartTls \<Longrightarrow> turns_in shrinks (act_on cx h a)"
  unfolding act_on_def check_recipient_def Let_def
  by (cases a) (auto intro!: shrinks.in_rules shrinks_begin shrinks_ask shrinks_routed split: sum.splits)

lemma shrinks_sender: "turns_in shrinks (sender_allowed h p cmd)"
  unfolding sender_allowed_def by (auto intro!: shrinks.in_rules shrinks_ask split: command.splits option.splits sum.splits)

text \<open>A pass of the loop reads on and, if its last step is a completed handshake, starts over with what that yields.\<close>

definition upgrades :: "session_context \<Rightarrow> host \<Rightarrow> unit turn \<Rightarrow> bool" where
  "upgrades cx h m \<longleftrightarrow> (\<forall>c r c'. m c = (r, c') \<longrightarrow> shrinks c c' \<or> (\<exists>c1. shrinks c c1 \<and> start_tls cx h c1 = (r, c')))"

lemma upgrades_shrinks: "turns_in shrinks m \<Longrightarrow> upgrades cx h m"
  unfolding upgrades_def turns_in_def by blast

lemma upgrades_seqt: "turns_in shrinks m \<Longrightarrow> (\<And>x. upgrades cx h (k x)) \<Longrightarrow> upgrades cx h (seqt m k)"
  unfolding upgrades_def by (blast elim: seqtE dest: turns_inD intro: shrinks.R_trans)

lemma upgrades_if: "(p \<Longrightarrow> upgrades cx h m) \<Longrightarrow> (\<not> p \<Longrightarrow> upgrades cx h k) \<Longrightarrow> upgrades cx h (if p then m else k)"
  by simp

lemma upgrades_act: "upgrades cx h (act_on cx h a)"
proof (cases "a = ActStartTls")
  case True
  then show ?thesis by (auto simp: upgrades_def act_on_def intro: shrinks.R_refl)
qed (rule upgrades_shrinks [OF shrinks_act])

lemma upgrades_parsed: "upgrades cx h (parsed_command cx h cmd)"
  unfolding parsed_command_def reset_transaction_def
  by (intro upgrades_seqt upgrades_if upgrades_act shrinks.in_rules shrinks_basics shrinks_sender upgrades_shrinks [OF shrinks.in_say(2)])
    (auto intro!: shrinks.in_rules shrinks_basics)

lemma upgrades_turn: "upgrades cx h (if length b + 2 > command_limit (cx_role cx) b
     then seqt (answer h 500 ''5.5.2 Command too long'') (\<lambda>_. stop Closed)
     else if eq_ignore_ascii_case (verb_of b) ''AUTH'' then auth_command cx h b
     else case parse_command b of Err e \<Rightarrow> bad_command h b e | Ok cmd \<Rightarrow> parsed_command cx h cmd)"
proof -
  have "upgrades cx h (case parse_command b of Err e \<Rightarrow> bad_command h b e | Ok cmd \<Rightarrow> parsed_command cx h cmd)"
    by (simp add: upgrades_shrinks shrinks_bad upgrades_parsed split: sum.splits)
  then show ?thesis
    by (intro upgrades_if upgrades_shrinks [OF shrinks_auth] upgrades_shrinks [OF shrinks.in_seqt [OF shrinks.in_say(2) shrinks.in_stop]])
qed

lemma turn_upgrades:
  assumes "session_turn cx h c = (r, c')"
  shows "shrinks c c' \<or> (\<exists>c1. shrinks c c1 \<and> start_tls cx h c1 = (r, c'))"
proof -
  have "upgrades cx h (session_turn cx h)" unfolding session_turn_def by (rule upgrades_seqt [OF shrinks_next_command upgrades_turn])
  with assms show ?thesis unfolding upgrades_def by blast
qed

lemma start_tls_cases:
  assumes "start_tls cx h c = (r, c')"
  obtains (same) "shrinks c c'"
  | (upgraded) k where "\<not> sv_encrypted c" "cx_tls cx" "sv_encrypted c'" "h_handshake h k = Some (sv_input c')" "sv_session c' = fresh_session (cx_config cx)"
      "sv_principal c' = None" "sv_out c' = sv_out c @ [reply_line 220 ''2.0.0 Ready to start TLS'']" "r = Ok ()"
proof (cases "sv_encrypted c' = sv_encrypted c")
  case True
  have "length (concat (sv_input c')) \<le> length (concat (sv_input c))"
    using assms True unfolding start_tls_def
    by (auto elim!: seqtE simp: turn_simps answer_def say_def split: if_splits option.splits)
  with True same show thesis by (simp add: shrinks_def sealed_def)
next
  case False
  with assms upgraded show thesis unfolding start_tls_def
    by (auto elim!: seqtE simp: turn_simps answer_def say_def split: if_splits option.splits)
qed

text \<open>
  Property C7. The step from clear text to TLS leaves nothing of the clear connection behind: a pass of the loop that turns encryption on
  has answered 220 and nothing after it, every byte the session reads from then on is what the handshake yields, so a command
  sent along with STARTTLS is never executed; the transaction and the greeting are gone, no principal is held and no message was accepted.
  No pass turns encryption off.
\<close>

theorem tls_boundary:
  assumes "session_turn cx h c = (r, c')" "sv_encrypted c' \<noteq> sv_encrypted c" "others_ok h"
  shows "\<not> sv_encrypted c \<and> sv_encrypted c' \<and> r = Ok () \<and> (\<exists>k. h_handshake h k = Some (sv_input c'))
    \<and> last (sv_out c') = reply_line 220 ''2.0.0 Ready to start TLS'' \<and> sv_session c' = fresh_session (cx_config cx)
    \<and> sv_principal c' = None \<and> accepted_log c' = accepted_log c"
proof -
  from turn_upgrades [OF assms(1)] assms(2) obtain c1 where c1: "shrinks c c1" "start_tls cx h c1 = (r, c')"
    by (auto simp: shrinks_def sealed_def)
  have "accepted_log c' = accepted_log c"
  proof (rule ccontr)
    assume "accepted_log c' \<noteq> accepted_log c"
    from turn_accepts [OF assms(1,3) this] obtain env c2 where "begin_data cx h env c2 = (r, c')" "keeps_client c c2" by metis
    with turns_inD [OF shrinks_begin] assms(2) show False by (fastforce simp: keeps_client_def shrinks_def sealed_def)
  qed
  with c1(2) show ?thesis
  proof (cases rule: start_tls_cases)
    case same
    with c1(1) assms(2) show ?thesis by (simp add: shrinks_def sealed_def)
  next
    case (upgraded k)
    with c1(1) \<open>accepted_log c' = _\<close> show ?thesis by (auto simp: shrinks_def sealed_def)
  qed
qed

section \<open>Every session ends\<close>

text \<open>What a session may still read: the rest of its input and, in clear, what a handshake may yield.\<close>

definition budget :: "nat \<Rightarrow> sconn \<Rightarrow> nat" where
  "budget H c = length (concat (sv_input c)) + (if sv_encrypted c then 0 else H)"

definition handshakes_within :: "nat \<Rightarrow> host \<Rightarrow> bool" where
  "handshakes_within H h \<longleftrightarrow> (\<forall>k chunks. h_handshake h k = Some chunks \<longrightarrow> length (concat chunks) \<le> H)"

lemma turn_budget:
  assumes "session_turn cx h c = (Ok (), c')" "handshakes_within H h"
  shows "budget H c' < budget H c"
proof -
  from assms(1) obtain b c1 where b: "next_command cx h c = (Ok b, c1)"
    and k: "(if length b + 2 > command_limit (cx_role cx) b then seqt (answer h 500 ''5.5.2 Command too long'') (\<lambda>_. stop Closed)
     else if eq_ignore_ascii_case (verb_of b) ''AUTH'' then auth_command cx h b
     else case parse_command b of Err e \<Rightarrow> bad_command h b e | Ok cmd \<Rightarrow> parsed_command cx h cmd) c1 = (Ok (), c')"
    unfolding session_turn_def by (auto simp only: seqt_Ok)
  have 1: "budget H c1 < budget H c" "sv_encrypted c1 = sv_encrypted c" "length (concat (sv_input c1)) < length (concat (sv_input c))"
    using read_line_progress [OF next_command_Ok [OF b]] turns_inD [OF shrinks_next_command b] by (auto simp: budget_def shrinks_def sealed_def)
  from upgrades_turn [of cx h b] k consider "shrinks c1 c'" | c2 where "shrinks c1 c2" "start_tls cx h c2 = (Ok (), c')"
    unfolding upgrades_def by blast
  then show ?thesis
  proof cases
    case 1
    with \<open>budget H c1 < _\<close> show ?thesis by (auto simp: budget_def shrinks_def sealed_def)
  next
    case 2
    from 2(2) show ?thesis
    proof (cases rule: start_tls_cases)
      case same
      with 2(1) 1 show ?thesis by (auto simp: budget_def shrinks_def sealed_def)
    next
      case (upgraded k)
      with assms(2) have "length (concat (sv_input c')) \<le> H" unfolding handshakes_within_def by blast
      with upgraded 2(1) 1 show ?thesis by (auto simp: budget_def shrinks_def sealed_def)
    qed
  qed
qed

lemma turns_budget: "session_turns cx h n c = (Ok (), c') \<Longrightarrow> handshakes_within H h \<Longrightarrow> n + budget H c' \<le> budget H c"
proof (induction n arbitrary: c)
  case (Suc n)
  then obtain c1 where c1: "session_turn cx h c = (Ok (), c1)" "session_turns cx h n c1 = (Ok (), c')" by (auto simp: seqt_Ok)
  with Suc.IH [OF c1(2) Suc.prems(2)] turn_budget [OF c1(1) Suc.prems(2)] show ?case by simp
qed (simp add: proceed_def)

text \<open>Steps that always come back.\<close>

definition returns :: "'a turn \<Rightarrow> bool" where
  "returns m \<longleftrightarrow> (\<forall>c. fst (m c) \<noteq> Err Hangs)"

lemma returns_basic: "returns (proceed x)" "e \<noteq> Hangs \<Longrightarrow> returns (stop e)" "returns (get f)" "returns (put u)" "returns (decide d)"
  "returns (on_store act)" "returns (on_disk g)" "returns (log_entry_add l)" "returns (next_line n)" "returns (apply_turn cmd)"
  "returns (authenticate_with cx h au cred t q)"
  by (auto simp: returns_def proceed_def stop_def get_def put_def decide_def on_store_def on_disk_def log_entry_add_def next_line_def
      apply_turn_def authenticate_with_def Let_def split: prod.splits)

lemma returns_seqt: "returns m \<Longrightarrow> (\<And>x. returns (k x)) \<Longrightarrow> returns (seqt m k)"
  unfolding returns_def seqt_def by (auto split: prod.splits sum.splits) (metis fst_conv)+

lemma returns_say: "returns (say h b)" "returns (answer h n t)" "returns (answer_quietly h n t)"
  by (auto simp: answer_def say_def answer_quietly_def intro!: returns_seqt returns_basic)

lemma returns_interleave: "returns (interleave h)"
  unfolding interleave_def by (intro returns_seqt returns_basic)

lemma returns_ask: "returns (ask h act)"
  unfolding ask_def by (intro returns_seqt returns_basic returns_interleave)

lemma returns_drop: "returns (drop_stage h st)"
  unfolding drop_stage_def by (intro returns_seqt returns_basic)

lemmas returns_rules = returns_basic returns_seqt returns_say returns_interleave returns_ask returns_drop

lemma returns_parts: "returns (next_command cx h)" "returns (auth_command cx h b)" "returns (bad_command h b e)" "returns (sender_allowed h p cmd)"
  "returns (open_stage cx h)" "returns (commit_data cx h env op pm auth)" "returns (start_tls cx h)"
  unfolding next_command_def auth_command_def auth_dialog_def auth_initial_def run_authenticate_def bad_command_def reset_transaction_def
    sender_allowed_def open_stage_def commit_data_def client_accept_def acceptance_reply_def start_tls_def Let_def
  by (auto intro!: returns_rules split: sum.splits option.splits prod.splits auth_error.splits parse_error.splits command.splits)

lemma returns_refuse: "returns (refuse_data h e)"
  unfolding refuse_data_def by (auto intro!: returns_rules split: server_error.splits store_error.splits)

lemma returns_or_drop: "returns m \<Longrightarrow> returns (or_drop h st m)"
  by (auto simp: returns_def or_drop_def split: prod.splits sum.splits) (metis fst_conv)+

lemma receive_on_returns:
  assumes "stage_inv (sh_disk (sv_shared c)) st []"
  shows "fst (receive_on cx h env pre st c) \<noteq> Err Hangs"
proof -
  have "returns (seqt (drop_stage h st') (\<lambda>_. proceed (Err e)))" for st' and e :: server_error by (intro returns_rules)
  moreover obtain r where "receive_message (h_sha256 h) (h_hook h (sv_step c)) (h_fails h (sv_step c)) (c_limits (cx_config cx)) (cx_auth cx \<noteq> None) (env_body env) pre st
              (sh_disk (sv_shared c)) (h_script h (sv_step c)) (sv_input c) = Some r" using receive_message_ends [OF assms] by blast
  ultimately show ?thesis by (auto simp: receive_on_def seqt_def [of "decide _"] decide_def returns_def Let_def split: prod.splits sum.splits)
qed

lemma seqt_returns: "returns m \<Longrightarrow> (\<And>x c'. m c = (Ok x, c') \<Longrightarrow> fst (k x c') \<noteq> Err Hangs) \<Longrightarrow> fst (seqt m k c) \<noteq> Err Hangs"
  unfolding returns_def seqt_def by (auto split: prod.splits sum.splits) (metis fst_conv)+

lemma take_data_returns:
  assumes "stage_inv (sh_disk (sv_shared c)) st []"
  shows "fst (take_data cx h env op pre st c) \<noteq> Err Hangs"
  unfolding take_data_def
proof (intro seqt_returns returns_basic)
  fix sel c1 rev c2
  assume c: "decide (h_select h) c = (Ok sel, c1)" "get (revocation_wins sel) c1 = (Ok rev, c2)"
  then have st: "stage_inv (sh_disk (sv_shared c2)) st []" using assms by (auto simp: turn_simps)
  have drop: "returns (seqt (drop_stage h st) (\<lambda>_. seqt (answer h 421 t) (\<lambda>_. stop Closed)))" for t by (intro returns_rules) simp
  have k: "returns (case x of Err e \<Rightarrow> refuse_data h e | Ok (pm, auth) \<Rightarrow> commit_data cx h env op pm auth)" for x
    by (auto simp: returns_refuse returns_parts split: sum.splits)
  have "fst (seqt (receive_on cx h env pre st) (\<lambda>r. case r of Err e \<Rightarrow> refuse_data h e | Ok (pm, auth) \<Rightarrow> commit_data cx h env op pm auth) c2) \<noteq> Err Hangs"
    using receive_on_returns [OF st, of cx h env pre] k unfolding seqt_def returns_def by (auto split: prod.splits sum.splits)
  with drop show "fst ((if rev then seqt (drop_stage h st) (\<lambda>_. seqt (answer h 421 ''4.7.0 Session authorization changed'') (\<lambda>_. stop Closed))
       else if sel = SelDeadline then seqt (drop_stage h st) (\<lambda>_. seqt (answer h 421 ''4.4.2 DATA timeout'') (\<lambda>_. stop Closed))
       else seqt (receive_on cx h env pre st) (\<lambda>r.
         case r of Err e \<Rightarrow> refuse_data h e | Ok (pm, auth) \<Rightarrow> commit_data cx h env op pm auth)) c2) \<noteq> Err Hangs"
    unfolding returns_def by (auto split: if_split)
qed

lemma returns_begin:
  assumes "0 < stream_buffer_bytes (c_limits (cx_config cx))"
  shows "returns (begin_data cx h env)"
  unfolding begin_data_def
proof (intro returns_seqt returns_basic)
  let ?ready = "\<lambda>st op date. or_drop h st (seqt (get (trace_facts_of cx)) (\<lambda>t. case trace_prefix t (env_sender env) op date of
               Err e \<Rightarrow> stop (Failed e) | Ok pre \<Rightarrow> seqt (answer h 354 ''Send message; end with <CRLF>.<CRLF>'') (\<lambda>_. proceed pre)))"
  let ?next = "\<lambda>st. seqt (decide (\<lambda>n. (uuid_simple (h_uuid h n), h_date h n))) (\<lambda>(op, date). seqt (?ready st op date) (\<lambda>pre. take_data cx h env op pre st))"
  let ?k = "\<lambda>r. case r of Err _ \<Rightarrow> answer h 452 ''4.3.1 Storage unavailable'' | Ok st \<Rightarrow> ?next st"
  fix permit
  have ready: "returns (?ready st op date)" for st op date by (intro returns_or_drop) (auto intro!: returns_rules split: sum.splits)
  have "fst (seqt (open_stage cx h) ?k c) \<noteq> Err Hangs" for c
  proof (rule seqt_returns [OF returns_parts(5)])
    fix x c1 assume x: "open_stage cx h c = (Ok x, c1)"
    show "fst (?k x c1) \<noteq> Err Hangs"
    proof (cases x)
      case (Inl e)
      then show ?thesis using returns_say(2) by (simp add: returns_def)
    next
      case (Inr st)
      have st: "stage_inv (sh_disk (sv_shared c1)) st []" by (rule open_stage_Ok [OF x [unfolded Inr] assms])
      have "fst (?next st c1) \<noteq> Err Hangs"
      proof (rule seqt_returns [OF returns_basic(5)], clarify)
        fix c2 op date
        assume c2: "decide (\<lambda>n. (uuid_simple (h_uuid h n), h_date h n)) c1 = (Ok (op, date), c2)"
          and bad: "fst (seqt (?ready st op date) (\<lambda>pre. take_data cx h env op pre st) c2) = Err Hangs"
        have "stage_inv (sh_disk (sv_shared c2)) st []" using c2 st by (auto simp: turn_simps)
        then have "fst (take_data cx h env op pre st c3) \<noteq> Err Hangs" if "?ready st op date c2 = (Ok pre, c3)" for pre c3
          using announced [OF that] take_data_returns [of c3 st] by simp
        then have "fst (seqt (?ready st op date) (\<lambda>pre. take_data cx h env op pre st) c2) \<noteq> Err Hangs" by (intro seqt_returns ready)
        with bad show False by simp
      qed
      then show ?thesis using Inr by simp
    qed
  qed
  then show "returns (if \<not> permit then answer h 452 ''4.3.1 Ingest capacity exhausted'' else seqt (open_stage cx h) ?k)"
    using returns_say(2) by (simp add: returns_def)
qed

lemma returns_turn:
  assumes "0 < stream_buffer_bytes (c_limits (cx_config cx))"
  shows "returns (session_turn cx h)"
proof -
  have routed: "returns (\<lambda>c. case routed_recipient_result (sv_session c) a ex loc of (rep, s) \<Rightarrow> (Ok rep, c\<lparr>sv_session := s\<rparr>))" for a ex loc
    by (auto simp: returns_def split: prod.splits)
  have act: "returns (act_on cx h a)" for a
    unfolding act_on_def check_recipient_def Let_def
    by (cases a) (auto intro!: returns_rules returns_parts returns_begin assms routed split: sum.splits)
  show ?thesis
    unfolding session_turn_def parsed_command_def reset_transaction_def
    by (auto intro!: returns_rules returns_parts act split: sum.splits)
qed

text \<open>
  Property C21. Every session ends, whatever the client sends and whatever fails: each pass of the loop reads at least one byte, the input
  is replaced at most once, by what the TLS handshake yields, and no pass waits for itself. So the loop ends, with a reply to
  the client or an error, after at most as many passes as the connection and the handshake can yield bytes.
\<close>

theorem session_ends:
  assumes "0 < stream_buffer_bytes (c_limits (cx_config cx))" "handshakes_within H h" "length (concat chunks) + H < n"
  shows "\<exists>e c. smtp_session cx h n chunks sh = (Err e, c) \<and> e \<noteq> Hangs"
proof -
  let ?c = "new_sconn cx chunks sh"
  have turns: "returns (session_turns cx h k)" for k
    by (induction k) (auto intro!: returns_rules returns_turn assms(1))
  have greet: "returns (greet cx h)" unfolding greet_def open_transport_def by (auto intro!: returns_rules split: option.splits)
  have "fst (smtp_session cx h n chunks sh) \<noteq> Err Hangs"
    using returns_seqt [OF greet turns [of n]] by (simp add: returns_def smtp_session_def)
  moreover have "smtp_session cx h n chunks sh \<noteq> (Ok (), c)" for c
  proof
    assume "smtp_session cx h n chunks sh = (Ok (), c)"
    then obtain c0 where c0: "greet cx h ?c = (Ok (), c0)" "session_turns cx h n c0 = (Ok (), c)" by (auto simp: smtp_session_def seqt_Ok)
    have "sv_input c0 = chunks \<or> (\<exists>k. h_handshake h k = Some (sv_input c0)) \<and> sv_encrypted c0"
      using c0(1) unfolding greet_def open_transport_def
      by (auto simp: turn_simps say_def new_sconn_def split: if_splits option.splits)
    then have "budget H c0 \<le> length (concat chunks) + H" using assms(2)
      by (auto simp: budget_def handshakes_within_def intro: trans_le_add2)
    with turns_budget [OF c0(2) assms(2)] assms(3) show False by simp
  qed
  ultimately show ?thesis by (cases "smtp_session cx h n chunks sh"; cases "fst (smtp_session cx h n chunks sh)") auto
qed

declare append_loop.simps [code]

section \<open>A sample session\<close>

definition sample_dialogue :: bytes where
  "sample_dialogue = ''EHLO c'' @ CRLF @ ''AUTH PLAIN =a@b.c='' @ sample_token @ CRLF @ ''MAIL FROM:<a@b.c>'' @ CRLF @ ''RCPT TO:<x@far.test>'' @ CRLF
     @ ''DATA'' @ CRLF @ ''From: a@b.c'' @ CRLF @ CRLF @ ''..hi'' @ CRLF @ ''.'' @ CRLF"

definition sample_host :: host where
  "sample_host = \<lparr>h_world = quiet_world, h_crypto = sample_crypto\<lparr>base64_decode := \<lambda>s. Some (map (\<lambda>b. if b = CHR ''='' then NUL else b) s)\<rparr>,
     h_sha256 = \<lambda>_. replicate 64 CHR ''0'', h_select = \<lambda>_. SelReady, h_write = \<lambda>_. True, h_others = \<lambda>_ sh. sh, h_reach = \<lambda>_. Answered,
     h_slot = \<lambda>_. True, h_tls_config = \<lambda>_. True, h_handshake = \<lambda>_. Some [sample_dialogue], h_auth = \<lambda>_. sample_turn,
     h_space = \<lambda>_. (100000, 100000), h_uuid = \<lambda>n. n # replicate 15 1, h_date = \<lambda>_. Some ''Thu, 01 Jan 1970'',
     h_hook = \<lambda>_ _. False, h_fails = \<lambda>_ _. False, h_script = \<lambda>_. [], h_unlinks = \<lambda>_. True\<rparr>"

definition sample_context :: session_context where
  "sample_context = \<lparr>cx_config = sample_config\<lparr>local_domains := [''b.c'']\<rparr>, cx_service = Some sample_service, cx_peer = V4 127 0 0 1, cx_tls = True,
     cx_role = ImplicitSubmission\<rparr>"

definition sample_shared :: shared where
  "sample_shared = \<lparr>sh_store = snd sample_created, sh_disk = \<lparr>staging = Map.empty, blobs = Map.empty, reserved = 0\<rparr>, sh_rates = new_rates 0\<rparr>"

definition sample_session :: "nat \<Rightarrow> (ending + unit) \<times> sconn" where
  "sample_session n = smtp_session sample_context sample_host n [] sample_shared"

definition inbound_dialogue :: bytes where
  "inbound_dialogue = ''HELO c'' @ CRLF @ ''MAIL FROM:<>'' @ CRLF @ ''RCPT TO:<a@b.c>'' @ CRLF
     @ ''DATA'' @ CRLF @ ''X: y'' @ CRLF @ CRLF @ ''..hi'' @ CRLF @ ''.'' @ CRLF"

definition inbound_store :: store where
  "inbound_store = store_of (sample_mail_db\<lparr>accounts := map (\<lambda>a. a\<lparr>ac_quota := 4096\<rparr>) (accounts sample_mail_db)\<rparr>)"

definition inbound_context :: session_context where
  "inbound_context = sample_context\<lparr>cx_role := Receiver\<rparr>"

definition inbound_session :: "(ending + unit) \<times> sconn" where
  "inbound_session = smtp_session inbound_context sample_host 3 [inbound_dialogue] (sample_shared\<lparr>sh_store := inbound_store\<rparr>)"

definition reaches :: "(ending + unit) \<times> sconn \<Rightarrow> (sconn \<Rightarrow> bool) \<Rightarrow> bool" where
  "reaches rc P \<longleftrightarrow> (case rc of (r, c) \<Rightarrow> is_ok r \<and> P c)"

lemma reachesE:
  assumes "reaches rc P"
  obtains "rc = (Ok (), snd rc)" "P (snd rc)"
  using assms by (cases rc; cases "fst rc") (auto simp: reaches_def)

lemma sample_others: "others_ok sample_host"
  by (simp add: others_ok_def sample_host_def)

lemma sample_buffer: "0 < stream_buffer_bytes (c_limits (cx_config sample_context))"
  by (simp add: sample_context_def sample_config_def Let_def)

lemma inbound_ok: "db_ok (st_db inbound_store)"
  by (simp add: db_ok_def keys_ok_def refs_ok_def rows_ok_def inbound_store_def store_of_def sample_mail_db_def sample_identity_db_def
      empty_database_def keyed_by_def has_key_def account_ok_def mailbox_ok_def in_i64_def i64_min_def i64_max_def)

lemma inbound_accepts: "reaches inbound_session (\<lambda>c. accepted_log (snd (session_turn inbound_context sample_host c)) \<noteq> accepted_log c)"
  by code_simp

theorem accepted_message_sound_witness:
  "\<exists>env op content f i. transaction (sv_session (snd inbound_session)) = Some env
     \<and> files_of (snd (session_turn inbound_context sample_host (snd inbound_session))) f = Some content
     \<and> message_recorded (cx_config inbound_context) env op (map_option pn_account (sv_principal (snd inbound_session))) (length content)
         (h_sha256 sample_host content) i (db_of (snd (session_turn inbound_context sample_host (snd inbound_session))))"
proof -
  from inbound_accepts have r: "smtp_session inbound_context sample_host 3 [inbound_dialogue] (sample_shared\<lparr>sh_store := inbound_store\<rparr>)
      = (Ok (), snd inbound_session)"
    and n: "accepted_log (snd (session_turn inbound_context sample_host (snd inbound_session))) \<noteq> accepted_log (snd inbound_session)"
    by (auto elim!: reachesE simp: inbound_session_def)
  have t: "session_turn inbound_context sample_host (snd inbound_session)
      = (fst (session_turn inbound_context sample_host (snd inbound_session)), snd (session_turn inbound_context sample_host (snd inbound_session)))"
    by simp
  have b: "0 < stream_buffer_bytes (c_limits (cx_config inbound_context))" using sample_buffer by (simp add: inbound_context_def)
  have d: "db_ok (st_db (sh_store (sample_shared\<lparr>sh_store := inbound_store\<rparr>)))" by (simp add: inbound_ok)
  show ?thesis
    using accepted_message_sound [OF r t n sample_others d b] by blast
qed

lemma sample_submits: "reaches (sample_session 4) (\<lambda>c. sv_principal c \<noteq> None \<and> transaction (sv_session c) \<noteq> None)"
  by code_simp


theorem session_ends_witness:
  "\<exists>e c. smtp_session sample_context sample_host 1000 [] sample_shared = (Err e, c) \<and> e \<noteq> Hangs"
proof -
  have "length sample_dialogue < 1000" by code_simp
  moreover have "handshakes_within (length sample_dialogue) sample_host" by (simp add: handshakes_within_def sample_host_def)
  ultimately show ?thesis using session_ends [OF sample_buffer, of "length sample_dialogue" sample_host "[]" 1000] by simp
qed

definition clear_conn :: sconn where
  "clear_conn = snd (session_turn (sample_context\<lparr>cx_role := StartTlsSubmission\<rparr>) sample_host
     (new_sconn (sample_context\<lparr>cx_role := StartTlsSubmission\<rparr>) [''EHLO c'' @ CRLF @ ''STARTTLS'' @ CRLF @ ''NOOP'' @ CRLF] sample_shared))"

definition upgrade :: "(ending + unit) \<times> sconn" where
  "upgrade = session_turn (sample_context\<lparr>cx_role := StartTlsSubmission\<rparr>) sample_host clear_conn"

theorem tls_boundary_witness:
  "sv_input (snd upgrade) = [sample_dialogue] \<and> sv_principal (snd upgrade) = None \<and> fst upgrade = Ok ()"
proof -
  have u: "sv_encrypted (snd upgrade) \<noteq> sv_encrypted clear_conn" by code_simp
  have "session_turn (sample_context\<lparr>cx_role := StartTlsSubmission\<rparr>) sample_host clear_conn = (fst upgrade, snd upgrade)"
    by (simp add: upgrade_def)
  from tls_boundary [OF this u sample_others] show ?thesis by (auto simp: sample_host_def)
qed

end
