(* ===== verification/Administration.thy ===== *)
theory Administration
  imports Server_Frame
begin

text \<open>
  Administration of a running server and how sessions learn of it: \<open>AdminRequest\<close>, \<open>apply\<close> and \<open>dispatch\<close> of
  \<open>crates/server/src/admin.rs\<close>, \<open>change_authority\<close> of \<open>crates/server/src/worker.rs\<close> and \<open>Revocations::wait\<close> of
  \<open>crates/server/src/revocation.rs\<close>. The JSON text of requests and responses is library code; a request is what it parses
  to. The watch channel counts the notifications sent; a receiver remembers how many it has seen.
\<close>

section \<open>Requests\<close>

datatype admin_request =
    AdmStatus
  | CredentialCreate string string string
  | CredentialList string int nat
  | CredentialRevoke string
  | AccountDisable string
  | SendAs string string bool
  | ReloadTls

datatype admin_response =
    StatusIs string
  | CredentialIs int string string
  | CredentialsAre "credential_summary list"
  | AccountIs int
  | SendAsIs int bool
  | Reloaded

definition local_address :: "config \<Rightarrow> string \<Rightarrow> store_error + address" where
  "local_address cfg raw =
     (case parse raw of Err _ \<Rightarrow> Err InvalidInput | Ok a \<Rightarrow> if is_local cfg a then Ok a else Err InvalidInput)"

definition needs_credential :: "config \<Rightarrow> admin_request \<Rightarrow> store_error + bool" where
  "needs_credential cfg req =
     (case req of
        CredentialCreate login label scope \<Rightarrow>
          rbind (local_address cfg login) (\<lambda>_.
            if label = [] \<or> length label > 80 \<or> has_control_char label \<or> scope_of scope = None then Err InvalidInput else Ok True)
      | _ \<Rightarrow> Ok False)"

definition admin_apply :: "world \<Rightarrow> config \<Rightarrow> (string \<times> string \<times> string) option \<Rightarrow> string \<Rightarrow> admin_request \<Rightarrow> admin_response Database.action" where
  "admin_apply w cfg cred mode req =
     (case req of
        AdmStatus \<Rightarrow> return (StatusIs mode)
      | CredentialCreate login label scope \<Rightarrow>
          andthen (lift_res (ok_or cred InvalidInput)) (\<lambda>(selector, token, phc).
          andthen (lift_res (local_address cfg login)) (\<lambda>a.
          andthen (create_credential w a selector label scope phc) (\<lambda>i. return (CredentialIs i selector token))))
      | CredentialList login after_id lim \<Rightarrow>
          andthen (lift_res (local_address cfg login)) (\<lambda>a.
          andthen (list_credentials w a after_id lim) (\<lambda>cs. return (CredentialsAre cs)))
      | CredentialRevoke selector \<Rightarrow> andthen (revoke_credential w selector) (\<lambda>i. return (AccountIs i))
      | AccountDisable login \<Rightarrow>
          andthen (lift_res (local_address cfg login)) (\<lambda>a.
          andthen (disable_account w a) (\<lambda>i. return (AccountIs i)))
      | SendAs login adr enabled \<Rightarrow>
          andthen (lift_res (local_address cfg login)) (\<lambda>a.
          andthen (lift_res (local_address cfg adr)) (\<lambda>b.
          andthen (set_send_as w a b enabled) (\<lambda>i. return (SendAsIs i enabled))))
      | ReloadTls \<Rightarrow> throw InvalidInput)"

definition is_authority :: "admin_request \<Rightarrow> bool" where
  "is_authority req \<longleftrightarrow> (case req of CredentialRevoke _ \<Rightarrow> True | AccountDisable _ \<Rightarrow> True | SendAs _ _ _ \<Rightarrow> True | _ \<Rightarrow> False)"

text \<open>The store's owner and the channel: how many changes of authority were announced.\<close>

record hub =
  hb_store :: store
  hb_version :: nat

definition call_on :: "reach \<Rightarrow> 'a Database.action \<Rightarrow> hub \<Rightarrow> (store_error + 'a) \<times> hub" where
  "call_on how act hb = (let (r, s) = call_store how act (hb_store hb) in (r, hb\<lparr>hb_store := s\<rparr>))"

text \<open>The owner of the store announces a change that succeeded, even if nobody waits for the reply.\<close>

definition change_authority :: "reach \<Rightarrow> 'a Database.action \<Rightarrow> hub \<Rightarrow> (store_error + 'a) \<times> hub" where
  "change_authority how act hb =
     (if how = Unsent then (Err WorkerUnavailable, hb)
      else case act (hb_store hb) of
        (Err e, s) \<Rightarrow> (if how = Answered then Err e else Err WorkerUnavailable, hb\<lparr>hb_store := s\<rparr>)
      | (Ok x, s) \<Rightarrow> (if how = Answered then Ok x else Err WorkerUnavailable, hb\<lparr>hb_store := s, hb_version := hb_version hb + 1\<rparr>))"

text \<open>\<open>dispatch\<close>; \<open>reload\<close> is whether the TLS files could be read again, \<open>made\<close> the credential \<open>auth.generate()\<close> yields,
  if it does.\<close>

definition dispatch :: "world \<Rightarrow> config \<Rightarrow> bool \<Rightarrow> (string \<times> string \<times> string) option \<Rightarrow> reach \<Rightarrow> string \<Rightarrow> admin_request \<Rightarrow> hub \<Rightarrow>
    (unit + admin_response) \<times> hub" where
  "dispatch w cfg reload made how mode req hb =
     (if req = ReloadTls then (if reload then Ok Reloaded else Err (), hb)
      else case needs_credential cfg req of
        Err _ \<Rightarrow> (Err (), hb)
      | Ok needed \<Rightarrow>
          if needed \<and> made = None then (Err (), hb)
          else let cred = (if needed then made else None);
                   (r, hb') = (if is_authority req then change_authority how (admin_apply w cfg cred mode req) hb
                               else call_on how (admin_apply w cfg cred mode req) hb)
               in (case r of Err _ \<Rightarrow> Err () | Ok x \<Rightarrow> Ok x, hb'))"

section \<open>Waiting for a revocation\<close>

text \<open>\<open>Revocations\<close>, and where the future of \<open>wait\<close> stands: not yet asking, asking the store, holding its reply, returned.\<close>

datatype wait_phase = Idle | Asking | Heard bool | Returned

record watcher =
  wt_seen :: nat
  wt_pending :: bool
  wt_phase :: wait_phase

definition new_watcher :: "hub \<Rightarrow> watcher" where
  "new_watcher hb = \<lparr>wt_seen = hb_version hb, wt_pending = False, wt_phase = Idle\<rparr>"

text \<open>\<open>changes.changed()\<close> resolves.\<close>

definition notice :: "hub \<Rightarrow> watcher \<Rightarrow> watcher" where
  "notice hb wt = wt\<lparr>wt_seen := hb_version hb, wt_pending := True\<rparr>"

text \<open>The store's reply: \<open>unwrap_or(false)\<close>.\<close>

definition still_current :: "store_error + bool \<Rightarrow> bool" where
  "still_current r \<longleftrightarrow> r = Ok True"

definition hear :: "bool \<Rightarrow> watcher \<Rightarrow> watcher" where
  "hear ok wt = (if ok then wt\<lparr>wt_pending := False, wt_phase := Idle\<rparr> else wt\<lparr>wt_phase := Returned\<rparr>)"

text \<open>One round of the loop of \<open>wait\<close> that nothing interrupts; \<open>None\<close> waits for the next notification.\<close>

definition wait_round :: "world \<Rightarrow> reach \<Rightarrow> principal \<Rightarrow> hub \<Rightarrow> watcher \<Rightarrow> (hub \<times> watcher) option" where
  "wait_round w how p hb wt =
     (if \<not> wt_pending wt \<and> wt_seen wt = hb_version hb then None
      else let wt1 = (if wt_pending wt then wt else notice hb wt);
               (r, hb') = call_on how (principal_current w p) hb
           in Some (hb', hear (still_current r) wt1))"

text \<open>What happens around a waiting session: requests of the administrator, other uses of the store that withdraw nothing,
  the steps of \<open>wait\<close>, and the other branch of the \<open>select!\<close> winning, which drops the future wherever it stands.\<close>

inductive watch_step :: "world \<Rightarrow> principal \<Rightarrow> hub \<times> watcher \<Rightarrow> hub \<times> watcher \<Rightarrow> bool" for w p where
  administer: "dispatch w cfg reload made how mode req hb = (r, hb') \<Longrightarrow> watch_step w p (hb, wt) (hb', wt)"
| others: "store_step w (hb_store hb) s' \<Longrightarrow> (current_db p (st_db (hb_store hb)) \<Longrightarrow> current_db p (st_db s')) \<Longrightarrow>
    watch_step w p (hb, wt) (hb\<lparr>hb_store := s'\<rparr>, wt)"
| notices: "wt_phase wt = Idle \<Longrightarrow> \<not> wt_pending wt \<Longrightarrow> wt_seen wt \<noteq> hb_version hb \<Longrightarrow> watch_step w p (hb, wt) (hb, notice hb wt)"
| asks: "wt_phase wt = Idle \<Longrightarrow> wt_pending wt \<Longrightarrow> watch_step w p (hb, wt) (hb, wt\<lparr>wt_phase := Asking\<rparr>)"
| answers: "wt_phase wt = Asking \<Longrightarrow> call_on how (principal_current w p) hb = (r, hb') \<Longrightarrow>
    watch_step w p (hb, wt) (hb', wt\<lparr>wt_phase := Heard (still_current r)\<rparr>)"
| hears: "wt_phase wt = Heard ok \<Longrightarrow> watch_step w p (hb, wt) (hb, hear ok wt)"
| cancelled: "wt_phase wt \<noteq> Returned \<Longrightarrow> watch_step w p (hb, wt) (hb, wt\<lparr>wt_phase := Idle\<rparr>)"

section \<open>No withdrawal goes unnoticed\<close>

definition keeps_current :: "principal \<Rightarrow> database \<Rightarrow> database \<Rightarrow> bool" where
  "keeps_current p d d' \<longleftrightarrow> (current_db p d \<longrightarrow> current_db p d')"

interpretation kept: db_relation "keeps_current p" for p
  by unfold_locales (auto simp: keeps_current_def)

lemma keeps_current_insert: "insert_credential a sel label phc sc now d = Ok (i, d') \<Longrightarrow> keeps_current p d d'"
  by (auto simp: insert_credential_def insert_row_def Let_def keeps_current_def current_db_iff split: if_splits)

lemma create_credential_keeps: "within (keeps_current p) (create_credential w login sel lab sc phc)"
  unfolding create_credential_def
  by (auto intro!: kept.within_rules dest: keeps_current_insert)

text \<open>Commits that do not report an error for a change that took effect.\<close>

definition honest_commits :: "world \<Rightarrow> bool" where
  "honest_commits w \<longleftrightarrow> (\<forall>n. w_commit w n \<noteq> CommitApplied)"

lemma plain_commit_definite: "honest_commits w \<Longrightarrow> commit_tx w plain_commit old x s = (Err e, s') \<Longrightarrow> st_db s' = old"
  by (auto simp: commit_tx_def plain_commit_def honest_commits_def split: commit_outcome.splits)

lemma transact_definite:
  assumes "honest_commits w" "transact w plain_commit body s = (Err e, s')"
  shows "st_db s' = st_db s"
proof -
  obtain r s2 where b: "body (tick s) = (r, s2)" by fastforce
  show ?thesis
    using assms(2) b plain_commit_definite [OF assms(1), of "st_db s" _ s2 e s']
    by (cases r) (auto simp: transact_def query_def split: if_splits)
qed

lemma withdrawal_definite:
  assumes "honest_commits w"
  shows "revoke_credential w sel s = (Err e, s') \<Longrightarrow> st_db s' = st_db s"
    and "disable_account w login s = (Err e, s') \<Longrightarrow> st_db s' = st_db s"
    and "set_send_as w login adr on s = (Err e, s') \<Longrightarrow> st_db s' = st_db s"
  by (auto dest!: transact_definite [OF assms] simp: revoke_credential_def disable_account_def set_send_as_def andthen_def read_clock_def throw_def split: if_splits prod.splits sum.splits)

lemma authority_definite:
  assumes "honest_commits w" "is_authority req" "admin_apply w cfg cred mode req s = (Err e, s')"
  shows "st_db s' = st_db s"
  using assms(2,3) withdrawal_definite [OF assms(1)]
  by (cases req) (auto simp: is_authority_def admin_apply_def andthen_def lift_res_def return_def split: prod.splits sum.splits)

lemma ordinary_keeps: "\<not> is_authority req \<Longrightarrow> within (keeps_current p) (admin_apply w cfg cred mode req)"
  unfolding admin_apply_def
  by (cases req) (auto simp: is_authority_def list_credentials_def intro!: kept.within_rules create_credential_keeps split: prod.splits)

lemma call_on_db: "call_on how act hb = (r, hb') \<Longrightarrow> within R act \<Longrightarrow> (\<And>d. R d d) \<Longrightarrow>
    R (st_db (hb_store hb)) (st_db (hb_store hb')) \<and> hb_version hb' = hb_version hb"
  by (cases how) (auto simp: call_on_def call_store_def within_snd split: prod.splits dest: withinD)

lemma dispatch_announces:
  assumes "honest_commits w" "dispatch w cfg reload made how mode req hb = (r, hb')"
  shows "keeps_current p (st_db (hb_store hb)) (st_db (hb_store hb')) \<and> hb_version hb' = hb_version hb \<or> hb_version hb' = hb_version hb + 1"
proof (cases "hb' = hb")
  case False
  with assms(2) obtain cred q where q: "(if is_authority req then change_authority how (admin_apply w cfg cred mode req) hb
      else call_on how (admin_apply w cfg cred mode req) hb) = (q, hb')"
    by (auto simp: dispatch_def Let_def split: if_splits sum.splits prod.splits)
  show ?thesis
  proof (cases "is_authority req")
    case True
    with q authority_definite [OF assms(1) True] show ?thesis
      by (auto simp: change_authority_def keeps_current_def split: if_splits prod.splits sum.splits)
  next
    case False
    with q call_on_db [OF _ ordinary_keeps [OF False], of how w cfg cred mode hb q hb' p] kept.R_refl show ?thesis by auto
  qed
qed (simp add: kept.R_refl)

definition informed :: "principal \<Rightarrow> hub \<times> watcher \<Rightarrow> bool" where
  "informed p = (\<lambda>(hb, wt). wt_seen wt \<le> hb_version hb
     \<and> (current_db p (st_db (hb_store hb)) \<or> wt_pending wt \<or> wt_seen wt \<noteq> hb_version hb)
     \<and> (wt_phase wt = Asking \<longrightarrow> wt_pending wt)
     \<and> (\<forall>b. wt_phase wt = Heard b \<longrightarrow> wt_pending wt \<and> (b \<longrightarrow> current_db p (st_db (hb_store hb)) \<or> wt_seen wt \<noteq> hb_version hb))
     \<and> (wt_phase wt = Returned \<longrightarrow> wt_pending wt))"

lemma still_current_sound: "call_on how (principal_current w p) hb = (r, hb') \<Longrightarrow>
    st_db (hb_store hb') = st_db (hb_store hb) \<and> hb_version hb' = hb_version hb \<and> (still_current r \<longrightarrow> current_db p (st_db (hb_store hb)))"
  by (cases how) (auto simp: call_on_def call_store_def principal_current_def current_def query_def still_current_def split: prod.splits if_splits)

lemma watch_informed:
  assumes "honest_commits w" "watch_step w p x y" "informed p x"
  shows "informed p y"
  using assms(2,3)
proof cases
  case (administer cfg reload made how mode req hb r hb' wt)
  from dispatch_announces [OF assms(1) administer(3), of p] assms(3) show ?thesis
    by (auto simp: administer informed_def keeps_current_def)
next
  case (answers wt how hb r hb')
  from still_current_sound [OF answers(4)] assms(3) answers show ?thesis by (auto simp: informed_def)
qed (auto simp: informed_def notice_def hear_def)

lemma watch_reached:
  assumes "(watch_step w p)\<^sup>*\<^sup>* x y" "honest_commits w" "informed p x"
  shows "informed p y"
  using assms(1) by (induction rule: rtranclp_induct) (auto intro: watch_informed assms(2,3))


definition sample_hub :: hub where
  "sample_hub = \<lparr>hb_store = store_of sample_mail_db, hb_version = 0\<rparr>"

definition disabling :: "world \<Rightarrow> (unit + admin_response) \<times> hub" where
  "disabling w = dispatch w (sample_config\<lparr>local_domains := [''b.c'']\<rparr>) True None Answered ''lab_smtp'' (AccountDisable ''a@b.c'') sample_hub"


text \<open>
  The hypothesis on commits is needed. When the commit of a withdrawal takes effect but reports an error, nothing is announced:
  the administrator is told that the request failed, the principal is no longer valid, and a session that holds it keeps waiting.
\<close>

lemma withdrawal_unannounced:
  defines "w \<equiv> quiet_world\<lparr>w_commit := \<lambda>_. CommitApplied\<rparr>"
  shows "fst (disabling w) = Err () \<and> \<not> current_db sample_principal (st_db (hb_store (snd (disabling w))))
    \<and> wait_round w Answered sample_principal (snd (disabling w)) (new_watcher sample_hub) = None"
  unfolding w_def by code_simp

end
