(* ===== verification/Admission.thy ===== *)
theory Admission
  imports Smtp_Server
begin

text \<open>
  Which connections the accept loop of \<open>serve_until\<close> in \<open>crates/server/src/lib.rs\<close> admits: the semaphore for all connections, the
  table of connections per address, and \<open>ConnectionLease\<close>, whose \<open>drop\<close> undoes both when a session's task ends, however it
  ends. The leases that are alive are the tasks.
\<close>

record admission =
  an_free :: nat
  an_counts :: "ip_addr \<rightharpoonup> nat"
  an_leases :: "ip_addr list"

definition new_admission :: "limits \<Rightarrow> admission" where
  "new_admission l = \<lparr>an_free = connections l, an_counts = Map.empty, an_leases = []\<rparr>"

datatype verdict = Admitted | TurnedAway "bytes option"

text \<open>Implicit TLS gets no plain text: a connection to that port is closed without a reply.\<close>

definition turn_away :: "role \<Rightarrow> string \<Rightarrow> verdict" where
  "turn_away r t = TurnedAway (if r \<noteq> ImplicitSubmission then Some (''421 4.3.2 '' @ t @ CRLF) else None)"

definition admit :: "limits \<Rightarrow> role \<Rightarrow> ip_addr \<Rightarrow> admission \<Rightarrow> verdict \<times> admission" where
  "admit l r ip a =
     (if an_free a = 0 then (turn_away r ''Connection limit'', a)
      else let n = (case an_counts a ip of None \<Rightarrow> 0 | Some n \<Rightarrow> n) in
        if n \<ge> connections_per_ip l then (turn_away r ''IP connection limit'', a)
        else (Admitted, a\<lparr>an_free := an_free a - 1, an_counts := (an_counts a)(ip \<mapsto> n + 1), an_leases := ip # an_leases a\<rparr>))"

text \<open>\<open>ConnectionLease::drop\<close>, then the permit it holds. The subtraction would panic at zero: \<open>None\<close>.\<close>

definition drop_lease :: "ip_addr \<Rightarrow> admission \<Rightarrow> admission option" where
  "drop_lease ip a =
     (case an_counts a ip of
        None \<Rightarrow> Some (a\<lparr>an_free := an_free a + 1, an_leases := remove1 ip (an_leases a)\<rparr>)
      | Some n \<Rightarrow>
          if n = 0 then None
          else Some (a\<lparr>an_free := an_free a + 1, an_leases := remove1 ip (an_leases a),
                       an_counts := (if n = 1 then (an_counts a)(ip := None) else (an_counts a)(ip \<mapsto> n - 1))\<rparr>))"

text \<open>What can happen: a connection arrives; the task of a live lease ends.\<close>

datatype arrival = Arrives role ip_addr | Leaves ip_addr

fun admission_step :: "limits \<Rightarrow> arrival \<Rightarrow> admission \<Rightarrow> (verdict option \<times> admission) option" where
  "admission_step l (Arrives r ip) a = (let (v, a') = admit l r ip a in Some (Some v, a'))"
| "admission_step l (Leaves ip) a =
     (if ip \<in> set (an_leases a) then map_option (\<lambda>a'. (None, a')) (drop_lease ip a) else Some (None, a))"

fun admission_run :: "limits \<Rightarrow> arrival list \<Rightarrow> admission \<Rightarrow> admission option" where
  "admission_run l [] a = Some a"
| "admission_run l (e # es) a = (case admission_step l e a of None \<Rightarrow> None | Some (_, a') \<Rightarrow> admission_run l es a')"

section \<open>The books are exact\<close>

definition count_entry :: "nat \<Rightarrow> nat option" where
  "count_entry n = (if n = 0 then None else Some n)"

definition exact_books :: "limits \<Rightarrow> admission \<Rightarrow> bool" where
  "exact_books l a \<longleftrightarrow> an_free a + length (an_leases a) = connections l
     \<and> (\<forall>ip. an_counts a ip = count_entry (count_list (an_leases a) ip) \<and> count_list (an_leases a) ip \<le> connections_per_ip l)"

lemma count_list_remove1: "count_list (remove1 x xs) y = (if x = y \<and> x \<in> set xs then count_list xs y - 1 else count_list xs y)"
  by (induction xs) (auto simp: count_list_0_iff)

lemma count_entry_default: "(case count_entry n of None \<Rightarrow> 0 | Some m \<Rightarrow> m) = n"
  by (simp add: count_entry_def)

lemma admit_exact:
  assumes "exact_books l a" "admit l r ip a = (v, a')"
  shows "exact_books l a' \<and> (v = Admitted \<longleftrightarrow> length (an_leases a) < connections l \<and> count_list (an_leases a) ip < connections_per_ip l)"
proof -
  have C: "an_counts a x = count_entry (count_list (an_leases a) x)" and B: "count_list (an_leases a) x \<le> connections_per_ip l" for x
    using assms(1) by (simp_all add: exact_books_def)
  have F: "an_free a + length (an_leases a) = connections l" using assms(1) by (simp add: exact_books_def)
  have n: "(case an_counts a ip of None \<Rightarrow> 0 | Some m \<Rightarrow> m) = count_list (an_leases a) ip" by (simp add: C count_entry_default)
  show ?thesis
  proof (cases "an_free a = 0 \<or> connections_per_ip l \<le> count_list (an_leases a) ip")
    case True
    then have "a' = a" "v \<noteq> Admitted" using assms(2) n by (auto simp: admit_def turn_away_def split: if_splits)
    with True assms(1) F show ?thesis by auto
  next
    case False
    then have a': "a' = a\<lparr>an_free := an_free a - 1, an_counts := (an_counts a)(ip \<mapsto> count_list (an_leases a) ip + 1), an_leases := ip # an_leases a\<rparr>"
      "v = Admitted" using assms(2) n by (auto simp: admit_def)
    have "exact_books l a'" using False F B by (auto simp: exact_books_def a' C count_entry_def)
    with a'(2) False F show ?thesis by auto
  qed
qed

lemma drop_exact:
  assumes "exact_books l a" "ip \<in> set (an_leases a)"
  shows "\<exists>a'. drop_lease ip a = Some a' \<and> exact_books l a'"
proof -
  have C: "an_counts a x = count_entry (count_list (an_leases a) x)" and B: "count_list (an_leases a) x \<le> connections_per_ip l" for x
    using assms(1) by (simp_all add: exact_books_def)
  have F: "an_free a + length (an_leases a) = connections l" using assms(1) by (simp add: exact_books_def)
  define n where "n = count_list (an_leases a) ip"
  have n: "n \<noteq> 0" using assms(2) by (simp add: count_list_0_iff n_def)
  then have Cip: "an_counts a ip = Some n" by (simp add: C count_entry_def n_def)
  let ?b = "a\<lparr>an_free := an_free a + 1, an_leases := remove1 ip (an_leases a),
    an_counts := (if n = 1 then (an_counts a)(ip := None) else (an_counts a)(ip \<mapsto> n - 1))\<rparr>"
  have len: "Suc (length (remove1 ip (an_leases a))) = length (an_leases a)"
    using length_pos_if_in_set [OF assms(2)] assms(2) by (simp add: length_remove1)
  have "an_counts ?b x = count_entry (count_list (remove1 ip (an_leases a)) x)" for x
    using n assms(2) C [of x] by (auto simp: count_list_remove1 count_entry_def n_def)
  moreover have "count_list (remove1 ip (an_leases a)) x \<le> connections_per_ip l" for x
    using B [of x] by (auto simp: count_list_remove1)
  ultimately have "exact_books l ?b" using F len by (auto simp: exact_books_def)
  moreover have "drop_lease ip a = Some ?b" using n by (simp add: drop_lease_def Cip)
  ultimately show ?thesis by blast
qed

lemma run_exact: "exact_books l a \<Longrightarrow> \<exists>a'. admission_run l es a = Some a' \<and> exact_books l a'"
proof (induction es arbitrary: a)
  case (Cons e es)
  show ?case
  proof (cases e)
    case (Arrives r ip)
    obtain v a1 where v: "admit l r ip a = (v, a1)" by fastforce
    with admit_exact [OF Cons.prems v] Cons.IH [of a1] Arrives show ?thesis by simp
  next
    case (Leaves ip)
    show ?thesis
    proof (cases "ip \<in> set (an_leases a)")
      case True
      with drop_exact [OF Cons.prems True] Cons.IH Leaves show ?thesis by auto
    next
      case False
      with Cons Leaves show ?thesis by simp
    qed
  qed
qed simp

text \<open>
  Property C24. However connections come and go, the books of the accept loop are exact: it never stops, no permit is lost or
  invented, the table holds for every address exactly the number of its live sessions and nothing for addresses without one, and
  no address and not all of them together exceed the configured limits. So a connection is turned away only when one of the limits is really
  reached, and never on the port of implicit TLS with a plain text reply.
\<close>

theorem admission_exact:
  "\<exists>a. admission_run l es (new_admission l) = Some a \<and> an_free a + length (an_leases a) = connections l
    \<and> (\<forall>ip. an_counts a ip = (if ip \<in> set (an_leases a) then Some (count_list (an_leases a) ip) else None)
         \<and> count_list (an_leases a) ip \<le> connections_per_ip l
         \<and> (fst (admit l r ip a) = Admitted \<longleftrightarrow> length (an_leases a) < connections l \<and> count_list (an_leases a) ip < connections_per_ip l)
         \<and> (fst (admit l ImplicitSubmission ip a) = Admitted \<or> fst (admit l ImplicitSubmission ip a) = TurnedAway None))"
proof -
  have "exact_books l (new_admission l)" by (simp add: exact_books_def new_admission_def count_entry_def)
  from run_exact [OF this] obtain a where a: "admission_run l es (new_admission l) = Some a" "exact_books l a" by blast
  have "fst (admit l r ip a) = Admitted \<longleftrightarrow> length (an_leases a) < connections l \<and> count_list (an_leases a) ip < connections_per_ip l" for ip
    using admit_exact [OF a(2), of r ip] by (metis prod.collapse)
  moreover have "fst (admit l ImplicitSubmission ip a) = Admitted \<or> fst (admit l ImplicitSubmission ip a) = TurnedAway None" for ip
    by (simp add: admit_def turn_away_def Let_def)
  ultimately show ?thesis using a by (auto simp: exact_books_def count_entry_def count_list_0_iff)
qed

end
