(* ===== verification/Maintenance.thy ===== *)
theory Maintenance
  imports Store
begin

text \<open>
  Maintenance of an idle store: \<open>check_integrity\<close> of \<open>crates/store/src/lib.rs\<close>, and \<open>operation\<close>, \<open>gc\<close>, \<open>gc_history\<close> and
  \<open>recover_blob\<close> of \<open>crates/store/src/maintenance.rs\<close>. The directories are the lists \<open>read_dir\<close> yields; a file has its
  contents and its time of modification in milliseconds, if that can be represented. Which calls of the operating system fail is a
  parameter. The store's lock keeps everyone else out of the directories.
\<close>

section \<open>Directories and steps\<close>

datatype node = LinkNode | OtherNode | FileNode bytes "int option"

record tree =
  dr_staging :: "(string \<times> node) list"
  dr_blobs :: "(string \<times> node) list"
  dr_reserved :: nat

type_synonym 'a job = "store \<times> tree \<Rightarrow> (store_error + 'a) \<times> store \<times> tree"

definition jreturn :: "'a \<Rightarrow> 'a job" where
  "jreturn x = (\<lambda>(s, t). (Ok x, s, t))"

definition jfail :: "store_error \<Rightarrow> 'a job" where
  "jfail e = (\<lambda>(s, t). (Err e, s, t))"

definition jthen :: "'a job \<Rightarrow> ('a \<Rightarrow> 'b job) \<Rightarrow> 'b job" where
  "jthen m k g = (case m g of (Err e, g') \<Rightarrow> (Err e, g') | (Ok x, g') \<Rightarrow> k x g')"

definition jstore :: "'a action \<Rightarrow> 'a job" where
  "jstore m = (\<lambda>(s, t). let (r, s') = m s in (r, s', t))"

definition jread :: "(tree \<Rightarrow> 'a) \<Rightarrow> 'a job" where
  "jread f = (\<lambda>(s, t). (Ok (f t), s, t))"

definition jchange :: "(tree \<Rightarrow> tree) \<Rightarrow> unit job" where
  "jchange f = (\<lambda>(s, t). (Ok (), s, f t))"

definition jres :: "store_error + 'a \<Rightarrow> 'a job" where
  "jres r = jstore (lift_res r)"

text \<open>A call of the operating system.\<close>

definition os_call :: "(nat \<Rightarrow> bool) \<Rightarrow> unit job" where
  "os_call ff = jstore (\<lambda>s. (if ff (st_step s) then Err (Io OtherIo) else Ok (), tick s))"

definition require_idle :: "unit job" where
  "require_idle = (\<lambda>(s, t). (if any_active (st_queue s) \<or> dr_reserved t \<noteq> 0 then Err MaintenanceBusy else Ok (), s, t))"

definition blob_known :: "string \<Rightarrow> database \<Rightarrow> bool" where
  "blob_known i d \<longleftrightarrow> list_ex (\<lambda>b. bl_id b = i) (blob_rows d)"

text \<open>The identifier in a file name.\<close>

definition id_in :: "string \<Rightarrow> string \<Rightarrow> string option" where
  "id_in suf name =
     (let i = take (length name - length suf) name in if suffix suf name \<and> valid_id i then Some i else None)"

section \<open>The integrity check\<close>

record integrity_report =
  ir_referenced :: nat
  ir_missing :: nat
  ir_corrupt :: nat
  ir_orphan :: nat
  ir_staging :: nat
  ir_unexpected :: nat
  ir_quota :: nat
  ir_uid :: nat
  ir_delivery :: nat
  ir_queue :: nat

definition healthy :: "integrity_report \<Rightarrow> bool" where
  "healthy r \<longleftrightarrow> ir_missing r = 0 \<and> ir_corrupt r = 0 \<and> ir_unexpected r = 0 \<and> ir_quota r = 0 \<and> ir_uid r = 0 \<and> ir_delivery r = 0
     \<and> ir_queue r = 0"

text \<open>One row of \<open>blob\<close> against its file.\<close>

definition check_row :: "(nat \<Rightarrow> bool) \<Rightarrow> (bytes \<Rightarrow> string) \<Rightarrow> blob_row \<Rightarrow> integrity_report \<Rightarrow> integrity_report job" where
  "check_row ff sha256 b r =
     (let r = r\<lparr>ir_referenced := ir_referenced r + 1\<rparr> in
      jthen (jres (unsigned_column (bl_size b))) (\<lambda>n.
      jthen (jres (if valid_id (bl_id b) then Ok () else Err InvalidId)) (\<lambda>_.
      jthen (os_call ff) (\<lambda>_.
      jthen (jread (\<lambda>t. map_of (dr_blobs t) (bl_id b @ ''.eml''))) (\<lambda>node.
      case node of
        None \<Rightarrow> jreturn (r\<lparr>ir_missing := ir_missing r + 1\<rparr>)
      | Some (FileNode c m) \<Rightarrow>
          jthen (os_call ff) (\<lambda>_. jreturn (if length c \<noteq> n \<or> sha256 c \<noteq> bl_sha256 b then r\<lparr>ir_corrupt := ir_corrupt r + 1\<rparr> else r))
      | _ \<Rightarrow> jfail UnsafePath)))))"

definition check_blob_file :: "world \<Rightarrow> (nat \<Rightarrow> bool) \<Rightarrow> string \<times> node \<Rightarrow> integrity_report \<Rightarrow> integrity_report job" where
  "check_blob_file w ff e r =
     jthen (os_call ff) (\<lambda>_.
     case id_in ''.eml'' (fst e) of
       None \<Rightarrow> jreturn (r\<lparr>ir_unexpected := ir_unexpected r + 1\<rparr>)
     | Some i \<Rightarrow>
         (case snd e of
            FileNode c m \<Rightarrow> jthen (jstore (query w (blob_known i))) (\<lambda>ok. jreturn (if ok then r else r\<lparr>ir_orphan := ir_orphan r + 1\<rparr>))
          | _ \<Rightarrow> jfail UnsafePath))"

definition check_staging_file :: "(nat \<Rightarrow> bool) \<Rightarrow> string \<times> node \<Rightarrow> integrity_report \<Rightarrow> integrity_report job" where
  "check_staging_file ff e r =
     jthen (os_call ff) (\<lambda>_.
     case snd e of
       FileNode c m \<Rightarrow> jreturn (r\<lparr>ir_unexpected := ir_unexpected r + (if id_in ''.part'' (fst e) = None then 1 else 0),
                                 ir_staging := ir_staging r + 1\<rparr>)
     | _ \<Rightarrow> jfail UnsafePath)"

fun jfold :: "('x \<Rightarrow> 'r \<Rightarrow> 'r job) \<Rightarrow> 'x list \<Rightarrow> 'r \<Rightarrow> 'r job" where
  "jfold f [] r = jreturn r"
| "jfold f (x # xs) r = jthen (f x r) (jfold f xs)"

definition check_integrity :: "world \<Rightarrow> (nat \<Rightarrow> bool) \<Rightarrow> (bytes \<Rightarrow> string) \<Rightarrow> integrity_report job" where
  "check_integrity w ff sha256 =
     jthen (jstore (query w quota_mismatches)) (\<lambda>q.
     jthen (jstore (query w uid_mismatches)) (\<lambda>u.
     jthen (jstore (query w delivery_mismatches)) (\<lambda>dm.
     jthen (jstore (query w queue_integrity_mismatches)) (\<lambda>qm.
     jthen (jstore (query w blob_rows)) (\<lambda>rows.
     jthen (jfold (check_row ff sha256) rows \<lparr>ir_referenced = 0, ir_missing = 0, ir_corrupt = 0, ir_orphan = 0, ir_staging = 0,
              ir_unexpected = 0, ir_quota = q, ir_uid = u, ir_delivery = dm, ir_queue = qm\<rparr>) (\<lambda>r.
     jthen (os_call ff) (\<lambda>_. jthen (jread dr_blobs) (\<lambda>entries.
     jthen (jfold (check_blob_file w ff) entries r) (\<lambda>r.
     jthen (os_call ff) (\<lambda>_. jthen (jread dr_staging) (\<lambda>entries.
     jfold (check_staging_file ff) entries r)))))))))))"

section \<open>Collecting what nothing refers to\<close>

record gc_options =
  go_apply :: bool
  go_min_age :: nat
  go_limit :: nat

definition default_gc_options :: gc_options where
  "default_gc_options = \<lparr>go_apply = False, go_min_age = 86400, go_limit = 1000\<rparr>"

record gc_candidate =
  ca_run :: "string option"
  ca_kind :: gc_kind
  ca_object :: string
  ca_size :: nat
  ca_modified :: int

record gc_report =
  rp_run :: "string option"
  rp_examined :: nat
  rp_candidates :: nat
  rp_deleted :: nat
  rp_bytes :: nat
  rp_skipped :: nat
  rp_more :: bool

fun dir_of :: "gc_kind \<Rightarrow> tree \<Rightarrow> (string \<times> node) list" where
  "dir_of GcStaging t = dr_staging t"
| "dir_of GcOrphan t = dr_blobs t"

fun suffix_of :: "gc_kind \<Rightarrow> string" where
  "suffix_of GcStaging = ''.part''"
| "suffix_of GcOrphan = ''.eml''"

fun unlink :: "gc_kind \<Rightarrow> string \<Rightarrow> tree \<Rightarrow> tree" where
  "unlink GcStaging name t = t\<lparr>dr_staging := filter (\<lambda>e. fst e \<noteq> name) (dr_staging t)\<rparr>"
| "unlink GcOrphan name t = t\<lparr>dr_blobs := filter (\<lambda>e. fst e \<noteq> name) (dr_blobs t)\<rparr>"

definition insert_run :: "string \<Rightarrow> int \<Rightarrow> int \<Rightarrow> database \<Rightarrow> store_error + database" where
  "insert_run i now age d = map_sum id (\<lambda>t. d\<lparr>maintenance_runs := t\<rparr>)
     (insert_row \<lparr>mr_id = i, mr_started = now, mr_completed = None, mr_min_age = age, mr_status = RunRunning\<rparr>
        (length i = 32 \<and> 0 \<le> age \<and> fresh_key mr_id i (maintenance_runs d)) (maintenance_runs d))"

definition complete_run :: "string \<Rightarrow> int \<Rightarrow> database \<Rightarrow> store_error + database" where
  "complete_run i now d = Ok (d\<lparr>maintenance_runs := map (\<lambda>r. if mr_id r = i
     then r\<lparr>mr_status := RunComplete, mr_completed := Some now\<rparr> else r) (maintenance_runs d)\<rparr>)"

definition ga_key :: "gc_action_row \<Rightarrow> string \<times> gc_kind \<times> string" where
  "ga_key r = (ga_run r, ga_kind r, ga_object r)"

definition insert_action :: "string \<Rightarrow> gc_kind \<Rightarrow> string \<Rightarrow> nat \<Rightarrow> database \<Rightarrow> store_error + database" where
  "insert_action run kind i n d = map_sum id (\<lambda>t. d\<lparr>gc_actions := t\<rparr>)
     (insert_row \<lparr>ga_run = run, ga_kind = kind, ga_object = i, ga_size = int n, ga_status = GcPlannedRow\<rparr>
        (length i = 32 \<and> has_key mr_id run (maintenance_runs d) \<and> fresh_key ga_key (run, kind, i) (gc_actions d)) (gc_actions d))"

definition mark_deleted :: "string \<Rightarrow> gc_kind \<Rightarrow> string \<Rightarrow> database \<Rightarrow> store_error + database" where
  "mark_deleted run kind i d = Ok (d\<lparr>gc_actions := map (\<lambda>r. if ga_key r = (run, kind, i) then r\<lparr>ga_status := GcDeletedRow\<rparr> else r) (gc_actions d)\<rparr>)"

definition blob_retained :: "world \<Rightarrow> gc_kind \<Rightarrow> string \<Rightarrow> bool job" where
  "blob_retained w kind i = (if kind = GcOrphan then jstore (query w (blob_known i)) else jreturn False)"

text \<open>\<open>reject_symlink\<close> and \<open>fs::metadata\<close>: the length and the time of a regular file.\<close>

definition metadata_of :: "(nat \<Rightarrow> bool) \<Rightarrow> gc_kind \<Rightarrow> string \<Rightarrow> (nat \<times> int option) job" where
  "metadata_of ff kind name =
     jthen (os_call ff) (\<lambda>_. jthen (jread (\<lambda>t. map_of (dir_of kind t) name)) (\<lambda>node.
       case node of None \<Rightarrow> jfail (Io OtherIo) | Some (FileNode c m) \<Rightarrow> jreturn (length c, m) | _ \<Rightarrow> jfail UnsafePath))"

text \<open>The durable record of the intention and the second look.\<close>

definition gc_verify :: "world \<Rightarrow> (nat \<Rightarrow> bool) \<Rightarrow> string \<Rightarrow> gc_kind \<Rightarrow> string \<Rightarrow> string \<Rightarrow> nat \<times> int option \<Rightarrow> unit job" where
  "gc_verify w ff run kind name i meta =
     jthen (jres (if int (fst meta) > i64_max then Err InvalidInput else Ok ())) (\<lambda>_.
     jthen (jstore (autocommit w (exec w (insert_action run kind i (fst meta))))) (\<lambda>_.
     jthen (jstore (hit_fault w GcPlanned)) (\<lambda>_.
     jthen (blob_retained w kind i) (\<lambda>kept.
     jthen (jres (if kept then Err Integrity else Ok ())) (\<lambda>_.
     jthen (metadata_of ff kind name) (\<lambda>now.
     jres (if now \<noteq> meta then Err UnsafePath else Ok ())))))))"

text \<open>Then the unlink and the record of the deed.\<close>

definition gc_delete :: "world \<Rightarrow> (nat \<Rightarrow> bool) \<Rightarrow> string \<Rightarrow> gc_kind \<Rightarrow> string \<Rightarrow> string \<Rightarrow> nat \<times> int option \<Rightarrow> gc_report \<Rightarrow> gc_report job" where
  "gc_delete w ff run kind name i meta r =
     jthen (gc_verify w ff run kind name i meta) (\<lambda>_.
     jthen (os_call ff) (\<lambda>_.
     jthen (jchange (unlink kind name)) (\<lambda>_.
     jthen (jstore (hit_fault w GcUnlinked)) (\<lambda>_.
     jthen (jstore (hit_fault w GcDirectorySync)) (\<lambda>_.
     jthen (os_call ff) (\<lambda>_.
     jthen (jstore (autocommit w (exec w (mark_deleted run kind i)))) (\<lambda>_.
     jthen (jres (ok_or (checked_add_u64 (rp_bytes r) (fst meta)) InvalidInput)) (\<lambda>total.
     jreturn (r\<lparr>rp_deleted := rp_deleted r + 1, rp_bytes := total\<rparr>)))))))))"

text \<open>One entry of a directory.\<close>

definition gc_entry :: "world \<Rightarrow> (nat \<Rightarrow> bool) \<Rightarrow> gc_options \<Rightarrow> (gc_candidate \<Rightarrow> store_error + unit) \<Rightarrow> int \<Rightarrow> gc_kind \<Rightarrow> string \<Rightarrow>
    gc_report \<Rightarrow> gc_report job" where
  "gc_entry w ff opts emit cutoff kind name r0 =
     jthen (os_call ff) (\<lambda>_.
     let r = r0\<lparr>rp_examined := rp_examined r0 + 1\<rparr> in
     case id_in (suffix_of kind) name of
       None \<Rightarrow> jfail UnsafePath
     | Some i \<Rightarrow>
         jthen (metadata_of ff kind name) (\<lambda>meta.
         jthen (blob_retained w kind i) (\<lambda>kept.
         if kept then jreturn r
         else jthen (jres (ok_or (snd meta) UnsafePath)) (\<lambda>modified.
         if modified > cutoff then jreturn (r\<lparr>rp_skipped := rp_skipped r + 1\<rparr>)
         else if rp_candidates r = go_limit opts then jreturn (r\<lparr>rp_more := True\<rparr>)
         else jthen (jres (emit \<lparr>ca_run = rp_run r, ca_kind = kind, ca_object = i, ca_size = fst meta, ca_modified = modified\<rparr>)) (\<lambda>_.
           let r = r\<lparr>rp_candidates := rp_candidates r + 1\<rparr> in
           case rp_run r of None \<Rightarrow> jreturn r | Some run \<Rightarrow> gc_delete w ff run kind name i meta r)))))"

text \<open>The loop over a directory ends early once there is more than the limit allows.\<close>

fun gc_entries :: "world \<Rightarrow> (nat \<Rightarrow> bool) \<Rightarrow> gc_options \<Rightarrow> (gc_candidate \<Rightarrow> store_error + unit) \<Rightarrow> int \<Rightarrow> gc_kind \<Rightarrow> string list \<Rightarrow>
    gc_report \<Rightarrow> gc_report job" where
  "gc_entries w ff opts emit cutoff kind [] r = jreturn r"
| "gc_entries w ff opts emit cutoff kind (name # names) r =
     jthen (gc_entry w ff opts emit cutoff kind name r) (\<lambda>r'.
       if rp_more r' then jreturn r' else gc_entries w ff opts emit cutoff kind names r')"

definition gc_dir :: "world \<Rightarrow> (nat \<Rightarrow> bool) \<Rightarrow> gc_options \<Rightarrow> (gc_candidate \<Rightarrow> store_error + unit) \<Rightarrow> int \<Rightarrow> gc_kind \<Rightarrow> gc_report \<Rightarrow> gc_report job" where
  "gc_dir w ff opts emit cutoff kind r =
     jthen (os_call ff) (\<lambda>_. jthen (jread (\<lambda>t. map fst (dir_of kind t))) (\<lambda>names. gc_entries w ff opts emit cutoff kind names r))"

definition cutoff_of :: "int \<Rightarrow> nat \<Rightarrow> int" where
  "cutoff_of now age = max i64_min (now - int age * 1000)"

definition gc_run :: "world \<Rightarrow> gc_options \<Rightarrow> int \<Rightarrow> string option job" where
  "gc_run w opts now =
     (if go_apply opts
      then jthen (jstore (new_uuid w)) (\<lambda>run.
           jthen (jstore (autocommit w (exec w (insert_run run now (int (go_min_age opts)))))) (\<lambda>_. jreturn (Some run)))
      else jreturn None)"

definition gc_both :: "world \<Rightarrow> (nat \<Rightarrow> bool) \<Rightarrow> gc_options \<Rightarrow> (gc_candidate \<Rightarrow> store_error + unit) \<Rightarrow> int \<Rightarrow> string option \<Rightarrow> gc_report job" where
  "gc_both w ff opts emit k run =
     jthen (gc_dir w ff opts emit k GcStaging \<lparr>rp_run = run, rp_examined = 0, rp_candidates = 0, rp_deleted = 0, rp_bytes = 0,
              rp_skipped = 0, rp_more = False\<rparr>) (\<lambda>r. if rp_more r then jreturn r else gc_dir w ff opts emit k GcOrphan r)"

definition gc_end :: "world \<Rightarrow> string option \<Rightarrow> unit job" where
  "gc_end w run = (case run of None \<Rightarrow> jreturn ()
     | Some i \<Rightarrow> jthen (jstore (read_clock w)) (\<lambda>later. jstore (autocommit w (exec w (complete_run i later)))))"

definition gc_admits :: "world \<Rightarrow> (nat \<Rightarrow> bool) \<Rightarrow> (bytes \<Rightarrow> string) \<Rightarrow> gc_options \<Rightarrow> unit job" where
  "gc_admits w ff sha256 opts =
     jthen require_idle (\<lambda>_.
     jthen (jres (if go_limit opts = 0 \<or> go_limit opts > 1000 \<or> int (go_min_age opts) > i64_max div 1000 then Err InvalidInput else Ok ())) (\<lambda>_.
     jthen (check_integrity w ff sha256) (\<lambda>rep. jres (if healthy rep then Ok () else Err Integrity))))"

definition gc :: "world \<Rightarrow> (nat \<Rightarrow> bool) \<Rightarrow> (bytes \<Rightarrow> string) \<Rightarrow> gc_options \<Rightarrow> (gc_candidate \<Rightarrow> store_error + unit) \<Rightarrow> gc_report job" where
  "gc w ff sha256 opts emit =
     jthen (gc_admits w ff sha256 opts) (\<lambda>_. jthen (jstore (read_clock w)) (\<lambda>now.
     jthen (gc_run w opts now) (\<lambda>run. jthen (gc_both w ff opts emit (cutoff_of now (go_min_age opts)) run) (\<lambda>r.
     jthen (gc_end w run) (\<lambda>_. jreturn r)))))"

section \<open>Looking back, and putting a lost file back\<close>

record operation_summary =
  os_operation :: string
  os_message :: string
  os_blob :: string
  os_size :: nat
  os_sha256 :: string
  os_accepted :: int
  os_recipients :: nat

definition operation :: "world \<Rightarrow> string \<Rightarrow> operation_summary option action" where
  "operation w key =
     (if \<not> valid_id key then throw InvalidId
      else andthen (query w (\<lambda>d. map_option (\<lambda>(m, b). (m, b, length (filter (\<lambda>r. de_message r = ms_id m) (deliveries d)))) (previous_db key d))) (\<lambda>row.
        case row of
          None \<Rightarrow> return None
        | Some (m, b, n) \<Rightarrow> andthen (lift_res (unsigned_column (bl_size b))) (\<lambda>size_bytes.
            return (Some \<lparr>os_operation = key, os_message = ms_id m, os_blob = bl_id b, os_size = size_bytes, os_sha256 = bl_sha256 b, os_accepted = ms_accepted m,
              os_recipients = n\<rparr>))))"

record gc_run_summary =
  gr_id :: string
  gr_started :: int
  gr_completed :: "int option"
  gr_min_age :: nat
  gr_status :: run_status
  gr_planned :: nat
  gr_deleted :: nat

definition summary_of :: "database \<Rightarrow> maintenance_run_row \<Rightarrow> store_error + gc_run_summary" where
  "summary_of d r = rbind (unsigned_column (mr_min_age r)) (\<lambda>age.
     Ok \<lparr>gr_id = mr_id r, gr_started = mr_started r, gr_completed = mr_completed r, gr_min_age = age, gr_status = mr_status r,
       gr_planned = length (filter (\<lambda>a. ga_run a = mr_id r) (gc_actions d)),
       gr_deleted = length (filter (\<lambda>a. ga_run a = mr_id r \<and> ga_status a = GcDeletedRow) (gc_actions d))\<rparr>)"

fun collect_all :: "('e + 'a) list \<Rightarrow> 'e + 'a list" where
  "collect_all [] = Ok []"
| "collect_all (r # rs) = rbind r (\<lambda>x. rbind (collect_all rs) (\<lambda>xs. Ok (x # xs)))"

definition gc_history :: "world \<Rightarrow> nat \<Rightarrow> gc_run_summary list action" where
  "gc_history w lim =
     (if lim = 0 \<or> lim > 1000 then throw InvalidInput
      else andthen (query w (\<lambda>d. collect_all (map (summary_of d) (take lim (rev (sort_key mr_started (sort_key mr_id (maintenance_runs d))))))))
        lift_res)"

datatype source_entry = NoSource | SourceLink | SourceOther | SourceFile "bytes option list"

definition write_temp :: "string \<Rightarrow> node \<Rightarrow> unit job" where
  "write_temp name node = jchange (\<lambda>t. t\<lparr>dr_staging := (name, node) # filter (\<lambda>e. fst e \<noteq> name) (dr_staging t)\<rparr>)"

text \<open>The copying loop: what each read yields, an empty read ends it.\<close>

fun copy_source :: "(nat \<Rightarrow> bool) \<Rightarrow> int option \<Rightarrow> string \<Rightarrow> nat \<Rightarrow> bytes option list \<Rightarrow> bytes \<Rightarrow> bytes job" where
  "copy_source ff tm temp n [] acc = jreturn acc"
| "copy_source ff tm temp n (None # ps) acc = jfail (Io OtherIo)"
| "copy_source ff tm temp n (Some b # ps) acc =
     (if b = [] then jreturn acc
      else jthen (jres (ok_or (checked_add_u64 (length acc) (length b)) SizeLimit)) (\<lambda>total.
        if total > n then jfail Integrity
        else jthen (os_call ff) (\<lambda>_. jthen (write_temp temp (FileNode (acc @ b) tm)) (\<lambda>_. copy_source ff tm temp n ps (acc @ b)))))"

definition link_blob :: "string \<Rightarrow> node \<Rightarrow> unit job" where
  "link_blob name node = (\<lambda>(s, t). if map_of (dr_blobs t) name \<noteq> None then (Err (Io OtherIo), s, t)
     else (Ok (), s, t\<lparr>dr_blobs := (name, node) # dr_blobs t\<rparr>))"

definition restore_file :: "(nat \<Rightarrow> bool) \<Rightarrow> (bytes \<Rightarrow> string) \<Rightarrow> int option \<Rightarrow> string \<Rightarrow> string \<Rightarrow> nat \<Rightarrow> string \<Rightarrow> bytes option list \<Rightarrow> nat job" where
  "restore_file ff sha256 tm temp name n digest ps =
     jthen (copy_source ff tm temp n ps []) (\<lambda>c.
     jthen (jres (if length c \<noteq> n \<or> sha256 c \<noteq> digest then Err Integrity else Ok ())) (\<lambda>_.
     jthen (os_call ff) (\<lambda>_. jthen (os_call ff) (\<lambda>_.
     jthen (link_blob name (FileNode c tm)) (\<lambda>_.
     jthen (os_call ff) (\<lambda>_. jreturn (length c)))))))"

text \<open>The temporary file is removed however the copy ended; only after a success does it matter whether that worked.\<close>

definition with_temp :: "(nat \<Rightarrow> bool) \<Rightarrow> string \<Rightarrow> 'a job \<Rightarrow> 'a job" where
  "with_temp ff temp m g =
     (let (r, g1) = m g; (c, g2) = jthen (os_call ff) (\<lambda>_. jchange (unlink GcStaging temp)) g1 in
      case r of Err e \<Rightarrow> (Err e, g2) | Ok x \<Rightarrow> jthen (jres c) (\<lambda>_. jthen (os_call ff) (\<lambda>_. jreturn x)) g2)"

definition recover_from :: "world \<Rightarrow> (nat \<Rightarrow> bool) \<Rightarrow> (bytes \<Rightarrow> string) \<Rightarrow> int option \<Rightarrow> string \<Rightarrow> source_entry \<Rightarrow> nat \<Rightarrow> string \<Rightarrow> nat job" where
  "recover_from w ff sha256 tm name src n digest =
     jthen (os_call ff) (\<lambda>_.
     case src of
       NoSource \<Rightarrow> jfail (Io OtherIo)
     | SourceLink \<Rightarrow> jfail UnsafePath
     | SourceOther \<Rightarrow> jfail UnsafePath
     | SourceFile ps \<Rightarrow>
         jthen (jstore (new_uuid w)) (\<lambda>u.
         let temp = u @ ''.part'' in
         jthen (os_call ff) (\<lambda>_.
         jthen (jread (\<lambda>t. map_of (dr_staging t) temp)) (\<lambda>old.
         jthen (jres (if old \<noteq> None then Err (Io OtherIo) else Ok ())) (\<lambda>_.
         jthen (write_temp temp (FileNode [] tm)) (\<lambda>_.
         with_temp ff temp (restore_file ff sha256 tm temp name n digest ps)))))))"

definition recover_blob :: "world \<Rightarrow> (nat \<Rightarrow> bool) \<Rightarrow> (bytes \<Rightarrow> string) \<Rightarrow> int option \<Rightarrow> string \<Rightarrow> source_entry \<Rightarrow> nat job" where
  "recover_blob w ff sha256 tm i src =
     jthen require_idle (\<lambda>_.
     jthen (jres (if valid_id i then Ok () else Err InvalidId)) (\<lambda>_.
     jthen (os_call ff) (\<lambda>_.
     jthen (jread (\<lambda>t. map_of (dr_blobs t) (i @ ''.eml''))) (\<lambda>target.
     jthen (jres (case target of None \<Rightarrow> Ok () | Some LinkNode \<Rightarrow> Err UnsafePath | _ \<Rightarrow> Err AlreadyExists)) (\<lambda>_.
     jthen (jstore (query w (\<lambda>d. first_row (\<lambda>b. bl_id b = i) (blob_rows d)))) (\<lambda>row.
     jthen (jres (ok_or row NotFound)) (\<lambda>b.
     jthen (jres (unsigned_column (bl_size b))) (\<lambda>n.
     recover_from w ff sha256 tm (i @ ''.eml'') src n (bl_sha256 b)))))))))"

section \<open>What a job leaves alone\<close>

definition jobs_in :: "(store \<times> tree \<Rightarrow> store \<times> tree \<Rightarrow> bool) \<Rightarrow> 'a job \<Rightarrow> bool" where
  "jobs_in R m \<longleftrightarrow> (\<forall>g r g'. m g = (r, g') \<longrightarrow> R g g')"

lemma jobs_inD: "jobs_in R m \<Longrightarrow> m g = (r, g') \<Longrightarrow> R g g'"
  unfolding jobs_in_def by blast

lemma jthenE:
  assumes "jthen m k g = (r, g'')"
  obtains (early) e where "m g = (Err e, g'')" "r = Err e" | (on) x g' where "m g = (Ok x, g')" "k x g' = (r, g'')"
  using assms by (auto simp: jthen_def split: prod.splits sum.splits)

lemma jthen_Ok: "jthen m k g = (Ok y, g'') \<longleftrightarrow> (\<exists>x g'. m g = (Ok x, g') \<and> k x g' = (Ok y, g''))"
  by (auto simp: jthen_def split: prod.splits sum.splits)

lemma jthen_res: "jthen (jres (Ok x)) k = k x" "jthen (jres (Err e)) k = jfail e"
  by (auto simp: fun_eq_iff jthen_def jres_def jstore_def lift_res_def jfail_def)

lemma jthen_change: "jthen (jchange f) k (s, t) = k () (s, f t)"
  by (simp add: jthen_def jchange_def)

locale job_relation =
  fixes R :: "store \<times> tree \<Rightarrow> store \<times> tree \<Rightarrow> bool"
  assumes R_trans: "R a b \<Longrightarrow> R b c \<Longrightarrow> R a c"
    and R_read: "st_db s' = st_db s \<Longrightarrow> R (s, t) (s', t)"
begin

lemma in_reads: "jobs_in R (jreturn x)" "jobs_in R (jfail e)" "jobs_in R (jread f)" "jobs_in R (jres v)" "jobs_in R (os_call ff)"
  "jobs_in R require_idle"
  by (auto simp: jobs_in_def jreturn_def jfail_def jread_def jres_def jstore_def lift_res_def os_call_def require_idle_def
      intro!: R_read split: if_splits)

lemma in_store: "(\<And>s. st_db (snd (m s)) = st_db s) \<Longrightarrow> jobs_in R (jstore m)"
  by (auto simp: jobs_in_def jstore_def split: prod.splits intro!: R_read) (metis snd_conv)

lemma in_store_reads: "jobs_in R (jstore (query w q))" "jobs_in R (jstore (read_clock w))" "jobs_in R (jstore (hit_fault w p))"
  "jobs_in R (jstore (new_uuid w))"
  by (rule in_store, simp add: query_def read_clock_def hit_fault_def new_uuid_def)+

lemma in_jthen: "jobs_in R m \<Longrightarrow> (\<And>x. jobs_in R (k x)) \<Longrightarrow> jobs_in R (jthen m k)"
  unfolding jobs_in_def by (blast elim: jthenE intro: R_trans)

lemma in_jres: "(\<And>x. v = Ok x \<Longrightarrow> jobs_in R (k x)) \<Longrightarrow> jobs_in R (jthen (jres v) k)"
  by (cases v) (auto simp: jobs_in_def jthen_def jres_def jstore_def lift_res_def intro: R_read)

lemmas in_rules = in_reads in_store_reads in_jthen

lemma in_jfold: "(\<And>x r. jobs_in R (f x r)) \<Longrightarrow> jobs_in R (jfold f xs r)"
  by (induction xs arbitrary: r) (auto intro!: in_rules)

lemma in_check: "jobs_in R (check_integrity w ff sha256)"
  unfolding check_integrity_def check_row_def check_blob_file_def check_staging_file_def Let_def
  by (intro in_rules in_jfold) (auto intro!: in_rules split: option.splits node.splits)

lemma in_retained: "jobs_in R (blob_retained w kind i)"
  unfolding blob_retained_def by (auto intro!: in_rules)

lemma in_metadata: "jobs_in R (metadata_of ff kind name)"
  unfolding metadata_of_def by (auto intro!: in_rules split: option.splits node.splits)

end

section \<open>Collection takes only what is old and unreferenced\<close>

text \<open>Everything but the two tables of the audit trail.\<close>

definition same_mail :: "database \<Rightarrow> database \<Rightarrow> bool" where
  "same_mail d d' \<longleftrightarrow> d'\<lparr>maintenance_runs := [], gc_actions := []\<rparr> = d\<lparr>maintenance_runs := [], gc_actions := []\<rparr>"

definition logged :: "gc_kind \<Rightarrow> string \<Rightarrow> database \<Rightarrow> bool" where
  "logged kind i d \<longleftrightarrow> (\<exists>a\<in>set (gc_actions d). ga_kind a = kind \<and> ga_object a = i)"

definition doomed :: "int \<Rightarrow> database \<Rightarrow> gc_kind \<Rightarrow> string \<Rightarrow> node \<Rightarrow> bool" where
  "doomed cutoff d kind i node \<longleftrightarrow> (\<exists>c m. node = FileNode c (Some m) \<and> m \<le> cutoff) \<and> (kind = GcOrphan \<longrightarrow> \<not> blob_known i d)"

definition names_ok :: "tree \<Rightarrow> bool" where
  "names_ok t \<longleftrightarrow> (\<forall>kind. distinct (map fst (dir_of kind t)))"

definition collects :: "int \<Rightarrow> store \<times> tree \<Rightarrow> store \<times> tree \<Rightarrow> bool" where
  "collects cutoff = (\<lambda>(s, t) (s', t'). same_mail (st_db s) (st_db s') \<and> dr_reserved t' = dr_reserved t
     \<and> (\<forall>kind i. logged kind i (st_db s) \<longrightarrow> logged kind i (st_db s'))
     \<and> (names_ok t \<longrightarrow> names_ok t' \<and> (\<forall>kind. set (dir_of kind t') \<subseteq> set (dir_of kind t)
         \<and> (\<forall>name node. (name, node) \<in> set (dir_of kind t) - set (dir_of kind t') \<longrightarrow>
              (\<exists>i. id_in (suffix_of kind) name = Some i \<and> doomed cutoff (st_db s) kind i node \<and> logged kind i (st_db s'))))))"

lemma same_mail_doomed: "same_mail d d' \<Longrightarrow> doomed cutoff d' = doomed cutoff d"
proof -
  assume "same_mail d d'"
  then have "blob_rows (d'\<lparr>maintenance_runs := [], gc_actions := []\<rparr>) = blob_rows (d\<lparr>maintenance_runs := [], gc_actions := []\<rparr>)"
    by (simp only: same_mail_def)
  then show ?thesis by (simp add: doomed_def blob_known_def fun_eq_iff)
qed

lemma collects_trans:
  assumes "collects k a b" "collects k b c"
  shows "collects k a c"
proof -
  obtain s t s' t' s'' t'' where abc: "a = (s, t)" "b = (s', t')" "c = (s'', t'')" by (metis prod.exhaust)
  have m: "same_mail (st_db s) (st_db s')" "same_mail (st_db s') (st_db s'')" using assms by (auto simp: collects_def abc)
  have l: "logged kd i (st_db s) \<Longrightarrow> logged kd i (st_db s')" "logged kd i (st_db s') \<Longrightarrow> logged kd i (st_db s'')" for kd i
    using assms by (auto simp: collects_def abc)
  have d: "doomed k (st_db s') = doomed k (st_db s)" by (rule same_mail_doomed [OF m(1)])
  have "same_mail (st_db s) (st_db s'')" using m by (simp add: same_mail_def)
  moreover have "dr_reserved t'' = dr_reserved t" using assms by (auto simp: collects_def abc)
  moreover have "names_ok t'' \<and> (\<forall>kd. set (dir_of kd t'') \<subseteq> set (dir_of kd t) \<and> (\<forall>name node. (name, node) \<in> set (dir_of kd t) - set (dir_of kd t'') \<longrightarrow>
      (\<exists>i. id_in (suffix_of kd) name = Some i \<and> doomed k (st_db s) kd i node \<and> logged kd i (st_db s''))))" if n: "names_ok t"
  proof -
    from assms(1) n have 1: "names_ok t'" "\<And>kd. set (dir_of kd t') \<subseteq> set (dir_of kd t)"
      "\<And>kd name node. (name, node) \<in> set (dir_of kd t) - set (dir_of kd t') \<Longrightarrow>
        \<exists>i. id_in (suffix_of kd) name = Some i \<and> doomed k (st_db s) kd i node \<and> logged kd i (st_db s')" by (auto simp: collects_def abc)
    from assms(2) 1(1) have 2: "names_ok t''" "\<And>kd. set (dir_of kd t'') \<subseteq> set (dir_of kd t')"
      "\<And>kd name node. (name, node) \<in> set (dir_of kd t') - set (dir_of kd t'') \<Longrightarrow>
        \<exists>i. id_in (suffix_of kd) name = Some i \<and> doomed k (st_db s) kd i node \<and> logged kd i (st_db s'')" by (auto simp: collects_def abc d)
    have "\<exists>i. id_in (suffix_of kd) name = Some i \<and> doomed k (st_db s) kd i node \<and> logged kd i (st_db s'')"
      if "(name, node) \<in> set (dir_of kd t) - set (dir_of kd t'')" for kd name node
      using that 1(3) [of name node kd] 2(3) [of name node kd] l(2) by blast
    with 1(2) 2(1,2) show ?thesis by (intro conjI allI impI) (blast, blast, blast)
  qed
  ultimately show ?thesis using l by (auto simp: collects_def abc)
qed

interpretation collects: job_relation "collects k" for k
proof
  show "collects k a c" if "collects k a b" "collects k b c" for a b c using collects_trans that .
qed (simp add: collects_def same_mail_def)

definition audit_only :: "(database \<Rightarrow> store_error + database) \<Rightarrow> bool" where
  "audit_only f \<longleftrightarrow> (\<forall>d d'. f d = Ok d' \<longrightarrow> same_mail d d' \<and> (\<forall>kind i. logged kind i d \<longrightarrow> logged kind i d'))"

lemma audit_statements: "audit_only (insert_run i now age)" "audit_only (complete_run i now)" "audit_only (insert_action run kind j n)"
  "audit_only (mark_deleted run kind j)"
proof -
  show "audit_only (mark_deleted run kind j)"
    unfolding audit_only_def
  proof (intro allI impI conjI)
    fix d d' kd i
    assume "mark_deleted run kind j d = Ok d'"
    then have d': "d' = d\<lparr>gc_actions := map (\<lambda>r. if ga_key r = (run, kind, j) then r\<lparr>ga_status := GcDeletedRow\<rparr> else r) (gc_actions d)\<rparr>"
      by (simp add: mark_deleted_def)
    show "same_mail d d'" by (simp add: d' same_mail_def)
    assume "logged kd i d"
    then obtain a where a: "a \<in> set (gc_actions d)" "ga_kind a = kd" "ga_object a = i" by (auto simp: logged_def)
    let ?f = "\<lambda>r. if ga_key r = (run, kind, j) then r\<lparr>ga_status := GcDeletedRow\<rparr> else r"
    have "?f a \<in> set (gc_actions d')" "ga_kind (?f a) = kd" "ga_object (?f a) = i" using a by (auto simp: d')
    then show "logged kd i d'" unfolding logged_def by blast
  qed
qed (auto simp: audit_only_def insert_run_def complete_run_def insert_action_def insert_row_def same_mail_def logged_def split: if_splits)

lemma autocommit_db:
  assumes "autocommit w (exec w f) s = (r, s')"
  shows "st_db s' = st_db s \<or> f (st_db s) = Ok (st_db s')" "r = Ok () \<Longrightarrow> f (st_db s) = Ok (st_db s')"
proof -
  have e: "exec w f s = (Ok x, s2) \<Longrightarrow> f (st_db s) = Ok (st_db s2)" for x s2
    by (auto simp: exec_def split: if_splits sum.splits)
  show "st_db s' = st_db s \<or> f (st_db s) = Ok (st_db s')"
    using assms by (cases rule: autocommit_cases) (auto dest: e)
  show "f (st_db s) = Ok (st_db s')" if "r = Ok ()"
    using assms that by (cases rule: autocommit_cases) (auto dest: e)
qed

lemma collects_audit: "audit_only f \<Longrightarrow> jobs_in (collects k) (jstore (autocommit w (exec w f)))"
  unfolding jobs_in_def
proof (intro allI impI)
  fix g r g'
  assume f: "audit_only f" and a: "jstore (autocommit w (exec w f)) g = (r, g')"
  obtain s t s' where g: "g = (s, t)" "g' = (s', t)" "autocommit w (exec w f) s = (r, s')"
    using a by (cases g) (auto simp: jstore_def split: prod.splits)
  show "collects k g g'"
    using autocommit_db(1) [OF g(3)] f by (auto simp: g collects_def same_mail_def audit_only_def)
qed

lemma collects_verify: "jobs_in (collects k) (gc_verify w ff run kind name i meta)"
  unfolding gc_verify_def by (intro collects.in_rules collects_audit audit_statements collects.in_retained collects.in_metadata)

lemma metadata_Ok: "metadata_of ff kind name (s, t) = (Ok x, s', t') \<Longrightarrow>
    t' = t \<and> st_db s' = st_db s \<and> (\<exists>c m. map_of (dir_of kind t) name = Some (FileNode c m) \<and> x = (length c, m))"
  by (auto simp: metadata_of_def jthen_Ok os_call_def jstore_def jread_def jfail_def jreturn_def split: if_splits option.splits node.splits)

lemma retained_Ok: "blob_retained w kind i (s, t) = (Ok x, s', t') \<Longrightarrow> t' = t \<and> st_db s' = st_db s \<and> (kind = GcOrphan \<longrightarrow> x = blob_known i (st_db s))"
  by (auto simp: blob_retained_def jstore_def jreturn_def query_def split: if_splits)

lemma insert_action_logged: "insert_action run kind i n d = Ok d' \<Longrightarrow> logged kind i d'"
  by (auto simp: insert_action_def insert_row_def logged_def split: if_splits)

lemma gc_verify_Ok:
  assumes "gc_verify w ff run kind name i meta (s, t) = (Ok (), s', t')"
  shows "t' = t \<and> logged kind i (st_db s') \<and> (kind = GcOrphan \<longrightarrow> \<not> blob_known i (st_db s'))
    \<and> (\<exists>c. map_of (dir_of kind t) name = Some (FileNode c (snd meta)))"
proof -
  from assms obtain s1 g2 where 0: "autocommit w (exec w (insert_action run kind i (fst meta))) s = (Ok (), s1)"
    "blob_retained w kind i (tick s1, t) = (Ok False, g2)" "metadata_of ff kind name g2 = (Ok meta, s', t')"
    unfolding gc_verify_def
    by (auto simp: jthen_Ok jres_def jstore_def lift_res_def hit_fault_def split: if_splits prod.splits)
  obtain s3 where g2: "g2 = (s3, t)" using retained_Ok [of w kind i "tick s1" t False "fst g2" "snd g2"] 0(2) by (cases g2) auto
  note 1 = 0 [unfolded g2]
  have "logged kind i (st_db s1)" using autocommit_db(2) [OF 1(1)] by (simp add: insert_action_logged)
  with retained_Ok [OF 1(2)] metadata_Ok [OF 1(3)] show ?thesis by auto
qed

lemma dir_unlink: "dir_of kd (unlink kind name t) = (if kd = kind then filter (\<lambda>e. fst e \<noteq> name) (dir_of kd t) else dir_of kd t)"
  by (cases kind; cases kd) auto

lemma collects_unlink:
  assumes "id_in (suffix_of kind) name = Some i" "map_of (dir_of kind t) name = Some (FileNode c (Some m))" "m \<le> k"
    "kind = GcOrphan \<longrightarrow> \<not> blob_known i (st_db s)" "logged kind i (st_db s)" "st_db s' = st_db s"
  shows "collects k (s, t) (s', unlink kind name t)"
proof -
  have "node = FileNode c (Some m)" if "names_ok t" "(name, node) \<in> set (dir_of kind t)" for node
    using that assms(2) by (simp add: names_ok_def map_of_is_SomeI [THEN sym])
  moreover have "dr_reserved (unlink kind name t) = dr_reserved t" by (cases kind) auto
  ultimately show ?thesis
    using assms by (auto simp: collects_def same_mail_def dir_unlink names_ok_def distinct_map_filter doomed_def)
qed

lemma gc_delete_collects:
  assumes "id_in (suffix_of kind) name = Some i" "snd meta = Some m" "m \<le> k"
  shows "jobs_in (collects k) (gc_delete w ff run kind name i meta r)"
  unfolding jobs_in_def
proof (intro allI impI)
  fix g q g'
  assume d: "gc_delete w ff run kind name i meta r g = (q, g')"
  obtain s t where g: "g = (s, t)" by fastforce
  from d [unfolded gc_delete_def] show "collects k g g'"
  proof (cases rule: jthenE)
    case (early e)
    then show ?thesis using jobs_inD [OF collects_verify] by blast
  next
    case (on u g1)
    have v: "collects k g g1" by (rule jobs_inD [OF collects_verify on(1)])
    obtain s1 where g1: "g1 = (s1, t)" using gc_verify_Ok [of w ff run kind name i meta s t] on(1) g by (cases g1) auto
    note ver = gc_verify_Ok [OF on(1) [unfolded g g1, simplified]]
    from on(2) have "collects k g1 g'"
    proof (cases rule: jthenE)
      case (early e)
      then show ?thesis using jobs_inD [OF collects.in_reads(5)] by blast
    next
      case rest: (on u2 g2)
      then obtain s2 where g2: "g2 = (s2, t)" "st_db s2 = st_db s1" by (auto simp: g1 os_call_def jstore_def split: if_splits)
      from ver assms(2) obtain c where "map_of (dir_of kind t) name = Some (FileNode c (Some m))" by auto
      with collects_unlink [OF assms(1) this assms(3)] ver have un: "collects k (s1, t) (s2, unlink kind name t)" using g2(2) by simp
      from rest(2) have "jthen (jstore (hit_fault w GcUnlinked)) (\<lambda>_. jthen (jstore (hit_fault w GcDirectorySync)) (\<lambda>_.
          jthen (os_call ff) (\<lambda>_. jthen (jstore (autocommit w (exec w (mark_deleted run kind i)))) (\<lambda>_.
          jthen (jres (ok_or (checked_add_u64 (rp_bytes r) (fst meta)) InvalidInput)) (\<lambda>total.
          jreturn (r\<lparr>rp_deleted := rp_deleted r + 1, rp_bytes := total\<rparr>)))))) (s2, unlink kind name t) = (q, g')"
        by (simp only: g2 jthen_change)
      then have "collects k (s2, unlink kind name t) g'"
        by (rule jobs_inD [rotated]) (intro collects.in_rules collects_audit audit_statements)
      with un show ?thesis unfolding g1 by (rule collects.R_trans)
    qed
    with v show ?thesis by (rule collects.R_trans)
  qed
qed

text \<open>One entry either leaves everything as it is or comes to a deletion.\<close>

definition still :: "store \<times> tree \<Rightarrow> store \<times> tree \<Rightarrow> bool" where
  "still = (\<lambda>(s, t) (s', t'). st_db s' = st_db s \<and> t' = t)"

interpretation still: job_relation still
  by unfold_locales (auto simp: still_def)

lemma still_collects: "still g g' \<Longrightarrow> collects k g g'"
  by (cases g; cases g') (auto simp: still_def intro: collects.R_read)

definition counted :: "nat \<Rightarrow> gc_report \<Rightarrow> gc_report \<Rightarrow> bool" where
  "counted lim r r' \<longleftrightarrow> rp_run r' = rp_run r \<and> (rp_candidates r' = rp_candidates r \<or> rp_candidates r' = rp_candidates r + 1 \<and> rp_candidates r \<noteq> lim)"

definition comes_to :: "gc_options \<Rightarrow> int \<Rightarrow> gc_kind \<Rightarrow> string \<Rightarrow> gc_report \<Rightarrow> world \<Rightarrow> (nat \<Rightarrow> bool) \<Rightarrow> gc_report job \<Rightarrow> bool" where
  "comes_to opts cutoff kind name r w ff m \<longleftrightarrow> (\<forall>g q g'. m g = (q, g') \<longrightarrow>
     still g g' \<and> (\<forall>r'. q = Ok r' \<longrightarrow> counted (go_limit opts) r r')
   \<or> (\<exists>g1 i meta mt run r1. still g g1 \<and> rp_run r = Some run \<and> rp_candidates r \<noteq> go_limit opts \<and> id_in (suffix_of kind) name = Some i
        \<and> snd meta = Some mt \<and> mt \<le> cutoff \<and> rp_run r1 = rp_run r \<and> rp_candidates r1 = rp_candidates r + 1
        \<and> gc_delete w ff run kind name i meta r1 g1 = (q, g')))"

lemma comes_to_return: "counted (go_limit opts) r r' \<Longrightarrow> comes_to opts cutoff kind name r w ff (jreturn r')"
  by (auto simp: comes_to_def jreturn_def still_def)

lemma comes_to_fail: "comes_to opts cutoff kind name r w ff (jfail e)"
  by (auto simp: comes_to_def jfail_def still_def)

lemma comes_to_then:
  assumes "jobs_in still m" "\<And>x. comes_to opts cutoff kind name r w ff (k x)"
  shows "comes_to opts cutoff kind name r w ff (jthen m k)"
  unfolding comes_to_def
proof (intro allI impI)
  fix g q g'
  assume "jthen m k g = (q, g')"
  then show "still g g' \<and> (\<forall>r'. q = Ok r' \<longrightarrow> counted (go_limit opts) r r')
   \<or> (\<exists>g1 i meta mt run r1. still g g1 \<and> rp_run r = Some run \<and> rp_candidates r \<noteq> go_limit opts \<and> id_in (suffix_of kind) name = Some i
        \<and> snd meta = Some mt \<and> mt \<le> cutoff \<and> rp_run r1 = rp_run r \<and> rp_candidates r1 = rp_candidates r + 1
        \<and> gc_delete w ff run kind name i meta r1 g1 = (q, g'))"
  proof (cases rule: jthenE)
    case (early e)
    with jobs_inD [OF assms(1)] show ?thesis by blast
  next
    case (on x g1)
    have "still g g1" by (rule jobs_inD [OF assms(1) on(1)])
    with assms(2) [of x] on(2) still.R_trans show ?thesis unfolding comes_to_def by blast
  qed
qed

lemma comes_to_res:
  assumes "\<And>x. v = Ok x \<Longrightarrow> comes_to opts cutoff kind name r w ff (k x)"
  shows "comes_to opts cutoff kind name r w ff (jthen (jres v) k)"
proof (cases v)
  case (Inl e)
  then have "jthen (jres v) k = jfail e" by (auto simp: fun_eq_iff jthen_def jres_def jstore_def lift_res_def jfail_def)
  then show ?thesis by (simp add: comes_to_fail)
next
  case (Inr x)
  then have "jthen (jres v) k = k x" by (auto simp: fun_eq_iff jthen_def jres_def jstore_def lift_res_def)
  with assms Inr show ?thesis by simp
qed

lemma comes_to_delete:
  assumes "rp_run r = Some run" "rp_candidates r \<noteq> go_limit opts" "id_in (suffix_of kind) name = Some i"
    "\<exists>mt. ok_or (snd meta) UnsafePath = Ok mt \<and> mt \<le> cutoff" "rp_run r1 = rp_run r" "rp_candidates r1 = rp_candidates r + 1"
  shows "comes_to opts cutoff kind name r w ff (gc_delete w ff run kind name i meta r1)"
proof -
  from assms(4) obtain mt where "snd meta = Some mt" "mt \<le> cutoff" by (auto simp: ok_or_def split: option.splits)
  with assms(1-3,5,6) show ?thesis unfolding comes_to_def using still.R_read [OF refl] by (metis prod.collapse)
qed

lemma gc_entry_comes_to: "comes_to opts cutoff kind name r w ff (gc_entry w ff opts emit cutoff kind name r)"
  unfolding gc_entry_def Let_def
  by (auto intro!: comes_to_res comes_to_then comes_to_return comes_to_fail comes_to_delete still.in_rules still.in_metadata still.in_retained
      simp: counted_def split: option.splits)

definition files :: "tree \<Rightarrow> nat" where
  "files t = length (dr_staging t) + length (dr_blobs t)"

lemma filter_one: "distinct (map fst xs) \<Longrightarrow> length xs \<le> length (filter (\<lambda>e. fst e \<noteq> n) xs) + 1"
proof (induction xs)
  case (Cons x xs)
  show ?case
  proof (cases "fst x = n")
    case True
    with Cons.prems have "filter (\<lambda>e. fst e \<noteq> n) xs = xs" by (auto simp: filter_id_conv image_iff)
    with True show ?thesis by simp
  qed (use Cons in auto)
qed simp

lemma files_unlink: "names_ok t \<Longrightarrow> files t \<le> files (unlink kind name t) + 1"
proof -
  assume "names_ok t"
  then have "length (dir_of kind t) \<le> length (filter (\<lambda>e. fst e \<noteq> name) (dir_of kind t)) + 1" by (intro filter_one) (simp add: names_ok_def)
  then show ?thesis by (cases kind) (simp_all add: files_def)
qed

definition same_tree :: "store \<times> tree \<Rightarrow> store \<times> tree \<Rightarrow> bool" where
  "same_tree g g' \<longleftrightarrow> snd g' = snd g"

interpretation same_tree: job_relation same_tree
  by unfold_locales (auto simp: same_tree_def)

lemma same_tree_store: "jobs_in same_tree (jstore m)"
  by (auto simp: jobs_in_def same_tree_def jstore_def split: prod.splits)

lemma same_tree_verify: "jobs_in same_tree (gc_verify w ff run kind name i meta)"
  unfolding gc_verify_def by (intro same_tree.in_rules same_tree_store same_tree.in_retained same_tree.in_metadata)

lemma gc_delete_tree:
  assumes "gc_delete w ff run kind name i meta r (s, t) = (q, s', t')"
  shows "t' = t \<or> t' = unlink kind name t"
proof -
  let ?before = "jthen (gc_verify w ff run kind name i meta) (\<lambda>_. os_call ff)"
  let ?after = "jthen (jstore (hit_fault w GcUnlinked)) (\<lambda>_. jthen (jstore (hit_fault w GcDirectorySync)) (\<lambda>_.
     jthen (os_call ff) (\<lambda>_. jthen (jstore (autocommit w (exec w (mark_deleted run kind i)))) (\<lambda>_.
     jthen (jres (ok_or (checked_add_u64 (rp_bytes r) (fst meta)) InvalidInput)) (\<lambda>total.
     jreturn (r\<lparr>rp_deleted := rp_deleted r + 1, rp_bytes := total\<rparr>))))))"
  have b: "jobs_in same_tree ?before" by (intro same_tree.in_rules same_tree_verify)
  have a: "jobs_in same_tree ?after" by (intro same_tree.in_rules same_tree_store)
  have "gc_delete w ff run kind name i meta r = jthen ?before (\<lambda>_. jthen (jchange (unlink kind name)) (\<lambda>_. ?after))"
    by (auto simp: gc_delete_def fun_eq_iff jthen_def split: prod.splits sum.splits)
  with assms have "jthen ?before (\<lambda>_. jthen (jchange (unlink kind name)) (\<lambda>_. ?after)) (s, t) = (q, s', t')" by simp
  then show ?thesis
  proof (cases rule: jthenE)
    case (early e)
    with jobs_inD [OF b early(1)] show ?thesis by (simp add: same_tree_def)
  next
    case (on u g)
    obtain s1 where g: "g = (s1, t)" using jobs_inD [OF b on(1)] by (cases g) (simp add: same_tree_def)
    from jobs_inD [OF a on(2) [unfolded g jthen_change]] show ?thesis by (simp add: same_tree_def)
  qed
qed

lemma gc_delete_report:
  assumes "gc_delete w ff run kind name i meta r g = (Ok r', g')"
  shows "rp_run r' = rp_run r \<and> rp_candidates r' = rp_candidates r"
  using assms unfolding gc_delete_def by (auto simp: jthen_Ok jreturn_def split: prod.splits)

section \<open>The loops\<close>

definition carried :: "gc_options \<Rightarrow> gc_report \<Rightarrow> tree \<Rightarrow> gc_report \<Rightarrow> tree \<Rightarrow> bool" where
  "carried opts r t r' t' \<longleftrightarrow> rp_run r' = rp_run r \<and> rp_candidates r' \<le> go_limit opts \<and> files t + rp_candidates r \<le> files t' + rp_candidates r'"

definition tidied :: "gc_options \<Rightarrow> int \<Rightarrow> gc_report \<Rightarrow> store \<times> tree \<Rightarrow> store_error + gc_report \<Rightarrow> store \<times> tree \<Rightarrow> bool" where
  "tidied opts k r g q g' \<longleftrightarrow> collects k g g' \<and> (rp_run r = None \<longrightarrow> still g g')
     \<and> files (snd g) + rp_candidates r \<le> files (snd g') + go_limit opts
     \<and> (\<forall>r'. q = Ok r' \<longrightarrow> carried opts r (snd g) r' (snd g'))"

definition tidy :: "gc_options \<Rightarrow> int \<Rightarrow> gc_report \<Rightarrow> gc_report job \<Rightarrow> bool" where
  "tidy opts k r m \<longleftrightarrow> (\<forall>g q g'. m g = (q, g') \<longrightarrow> names_ok (snd g) \<longrightarrow> rp_candidates r \<le> go_limit opts \<longrightarrow> tidied opts k r g q g')"

lemma tidyD: "tidy opts k r m \<Longrightarrow> m g = (q, g') \<Longrightarrow> names_ok (snd g) \<Longrightarrow> rp_candidates r \<le> go_limit opts \<Longrightarrow> tidied opts k r g q g'"
  unfolding tidy_def by blast

lemma still_tree: "still g g' \<Longrightarrow> snd g' = snd g"
  by (auto simp: still_def)

lemma tidied_still: "still g g' \<Longrightarrow> rp_candidates r \<le> go_limit opts \<Longrightarrow> tidied opts k r g (Err e) g'"
  using still_tree by (simp add: tidied_def still_collects)

lemma tidied_after:
  assumes "still g g1" "tidied opts k r g1 q g'"
  shows "tidied opts k r g q g'"
proof -
  have "collects k g g'" using collects.R_trans [OF still_collects [OF assms(1)]] assms(2) by (simp add: tidied_def)
  moreover have "rp_run r = None \<longrightarrow> still g g'" using still.R_trans [OF assms(1)] assms(2) by (simp add: tidied_def)
  ultimately show ?thesis using assms(2) still_tree [OF assms(1)] by (simp add: tidied_def)
qed

lemma tidied_trans:
  assumes "tidied opts k r g (Ok r1) g1" "tidied opts k r1 g1 q g'"
  shows "tidied opts k r g q g'"
proof -
  have 1: "collects k g g1" "collects k g1 g'" using assms by (simp_all add: tidied_def)
  have 2: "carried opts r (snd g) r1 (snd g1)" using assms(1) by (simp add: tidied_def)
  have "carried opts r1 (snd g1) r' (snd g') \<Longrightarrow> carried opts r (snd g) r' (snd g')" for r' using 2 by (simp add: carried_def)
  moreover have "rp_run r = None \<longrightarrow> still g g'" using assms 2 still.R_trans [of g g1 g'] by (simp add: tidied_def carried_def)
  moreover have "files (snd g) + rp_candidates r \<le> files (snd g') + go_limit opts" using assms(2) 2 by (simp add: tidied_def carried_def)
  ultimately show ?thesis using collects.R_trans [OF 1] assms(2) by (simp add: tidied_def)
qed

lemma tidy_return: "tidy opts k r (jreturn r)"
  by (auto simp: tidy_def tidied_def carried_def jreturn_def still_def intro: collects.R_read)

lemma tidy_prefix:
  assumes "jobs_in still m" "\<And>x. tidy opts k r (f x)"
  shows "tidy opts k r (jthen m f)"
  unfolding tidy_def
proof (intro allI impI)
  fix g q g'
  assume j: "jthen m f g = (q, g')" and n: "names_ok (snd g)" "rp_candidates r \<le> go_limit opts"
  from j show "tidied opts k r g q g'"
  proof (cases rule: jthenE)
    case (early e)
    with tidied_still [OF jobs_inD [OF assms(1) early(1)] n(2)] show ?thesis by simp
  next
    case (on x g1)
    have s: "still g g1" by (rule jobs_inD [OF assms(1) on(1)])
    from tidyD [OF assms(2) on(2) _ n(2)] n(1) still_tree [OF s] tidied_after [OF s] show ?thesis by simp
  qed
qed

lemma tidy_then:
  assumes "tidy opts k r m" "\<And>r'. rp_run r' = rp_run r \<Longrightarrow> tidy opts k r' (f r')"
  shows "tidy opts k r (jthen m f)"
  unfolding tidy_def
proof (intro allI impI)
  fix g q g'
  assume j: "jthen m f g = (q, g')" and n: "names_ok (snd g)" "rp_candidates r \<le> go_limit opts"
  from j show "tidied opts k r g q g'"
  proof (cases rule: jthenE)
    case (early e)
    with tidyD [OF assms(1) early(1) n] show ?thesis by simp
  next
    case (on r1 g1)
    note 1 = tidyD [OF assms(1) on(1) n]
    then have r1: "rp_run r1 = rp_run r" "rp_candidates r1 \<le> go_limit opts" "collects k g g1" by (simp_all add: tidied_def carried_def)
    then have "names_ok (snd g1)" using n(1) by (cases g; cases g1) (simp add: collects_def)
    from tidied_trans [OF 1 tidyD [OF assms(2) [OF r1(1)] on(2) this r1(2)]] show ?thesis .
  qed
qed

lemma tidy_entry: "tidy opts k r (gc_entry w ff opts emit k kind name r)"
  unfolding tidy_def
proof (intro allI impI)
  fix g q g'
  assume e: "gc_entry w ff opts emit k kind name r g = (q, g')" and n: "names_ok (snd g)" "rp_candidates r \<le> go_limit opts"
  from gc_entry_comes_to [unfolded comes_to_def, rule_format, OF e]
  consider (rest) "still g g'" "\<forall>r'. q = Ok r' \<longrightarrow> counted (go_limit opts) r r'"
    | (delete) g1 i meta mt run r1 where "still g g1" "rp_run r = Some run" "rp_candidates r \<noteq> go_limit opts" "id_in (suffix_of kind) name = Some i"
        "snd meta = Some mt" "mt \<le> k" "rp_run r1 = rp_run r" "rp_candidates r1 = rp_candidates r + 1"
        "gc_delete w ff run kind name i meta r1 g1 = (q, g')"
    by blast
  then show "tidied opts k r g q g'"
  proof cases
    case rest
    have "counted (go_limit opts) r r' \<Longrightarrow> carried opts r (snd g) r' (snd g')" for r'
      using n(2) still_tree [OF rest(1)] by (auto simp: counted_def carried_def)
    with rest n(2) still_collects [OF rest(1)] still_tree [OF rest(1)] show ?thesis by (simp add: tidied_def)
  next
    case delete
    have c: "collects k g1 g'" by (rule jobs_inD [OF gc_delete_collects [OF delete(4-6)] delete(9)])
    obtain s1 t1 s' t' where g: "g1 = (s1, t1)" "g' = (s', t')" by fastforce
    have "files t1 \<le> files t' + 1"
      using gc_delete_tree [OF delete(9) [unfolded g]] files_unlink [of t1 kind name] n(1) still_tree [OF delete(1)] g by auto
    moreover have "carried opts r t1 r' t'" if "q = Ok r'" for r'
      using gc_delete_report [OF delete(9) [unfolded that]] delete(3,7,8) n(2) \<open>files t1 \<le> _\<close> by (simp add: carried_def)
    ultimately have "tidied opts k r g1 q g'" using c delete(2,3) n(2) g by (simp add: tidied_def)
    with delete(1) show ?thesis by (rule tidied_after)
  qed
qed

lemma tidy_entries: "tidy opts k r (gc_entries w ff opts emit k kind names r)"
  by (induction names arbitrary: r) (auto intro!: tidy_return tidy_then tidy_entry)

lemma tidy_dir: "tidy opts k r (gc_dir w ff opts emit k kind r)"
  unfolding gc_dir_def by (intro tidy_prefix tidy_entries still.in_rules)

lemma still_admits: "jobs_in still (gc_admits w ff sha256 opts)"
  unfolding gc_admits_def by (intro still.in_rules still.in_check)

lemma tidy_both: "tidy opts k \<lparr>rp_run = run, rp_examined = 0, rp_candidates = 0, rp_deleted = 0, rp_bytes = 0, rp_skipped = 0, rp_more = False\<rparr>
    (gc_both w ff opts emit k run)"
  unfolding gc_both_def by (rule tidy_then [OF tidy_dir]) (simp add: tidy_return tidy_dir)

text \<open>The whole of it, from the reading of the clock on.\<close>

lemma gc_from_clock:
  assumes "jthen (gc_run w opts now) (\<lambda>run. jthen (gc_both w ff opts emit k run) (\<lambda>r. jthen (gc_end w run) (\<lambda>_. jreturn r))) g = (q, g')"
    "names_ok (snd g)"
  shows "collects k g g' \<and> files (snd g) \<le> files (snd g') + go_limit opts \<and> (\<not> go_apply opts \<longrightarrow> still g g')"
proof -
  have run: "collects k g g1 \<and> snd g1 = snd g \<and> (\<not> go_apply opts \<longrightarrow> still g g1 \<and> (\<forall>run. x = Ok run \<longrightarrow> run = None))"
    if "gc_run w opts now g = (x, g1)" for x g1
  proof -
    have "jobs_in (collects k) (gc_run w opts now)" "jobs_in same_tree (gc_run w opts now)" "\<not> go_apply opts \<Longrightarrow> gc_run w opts now = jreturn None"
      unfolding gc_run_def by (auto intro!: collects.in_rules collects_audit audit_statements same_tree.in_rules same_tree_store)
    from jobs_inD [OF this(1) that] jobs_inD [OF this(2) that] this(3) that show ?thesis
      by (cases g) (auto simp: same_tree_def jreturn_def still_def)
  qed
  have fin: "collects k g2 g' \<and> snd g' = snd g2 \<and> (run = None \<longrightarrow> still g2 g')" if "jthen (gc_end w run) (\<lambda>_. jreturn r) g2 = (q, g')" for run r g2
  proof -
    have "jobs_in (collects k) (jthen (gc_end w run) (\<lambda>_. jreturn r))" "jobs_in same_tree (jthen (gc_end w run) (\<lambda>_. jreturn r))"
      "run = None \<Longrightarrow> jobs_in still (jthen (gc_end w run) (\<lambda>_. jreturn r))"
      unfolding gc_end_def by (auto intro!: collects.in_rules collects_audit audit_statements same_tree.in_rules same_tree_store still.in_rules split: option.splits)
    from jobs_inD [OF this(1) that] jobs_inD [OF this(2) that] jobs_inD [OF this(3) that] show ?thesis by (auto simp: same_tree_def)
  qed
  from assms(1) show ?thesis
  proof (cases rule: jthenE)
    case (early e)
    with run [OF early(1)] show ?thesis by simp
  next
    case (on x g1)
    note r1 = run [OF on(1)]
    have n: "names_ok (snd g1)" using r1 assms(2) by simp
    from on(2) show ?thesis
    proof (cases rule: jthenE)
      case (early e)
      from tidyD [OF tidy_both early(1) n] r1 collects.R_trans [of k g g1 g'] still.R_trans [of g g1 g'] show ?thesis by (auto simp: tidied_def)
    next
      case both: (on r g2)
      from tidyD [OF tidy_both both(1) n] have b: "collects k g1 g2" "x = None \<longrightarrow> still g1 g2" "files (snd g1) \<le> files (snd g2) + go_limit opts"
        by (simp_all add: tidied_def)
      note f = fin [OF both(2)]
      have "collects k g g'" using collects.R_trans [OF _ collects.R_trans [OF b(1)]] r1 f by blast
      moreover have "\<not> go_apply opts \<longrightarrow> still g g'" using r1 b(2) f still.R_trans on(1) by blast
      ultimately show ?thesis using r1 b(3) f by simp
    qed
  qed
qed

lemma gc_outcome:
  assumes "gc w ff sha256 opts emit (s, t) = (q, s', t')" "names_ok t"
  shows "still (s, t) (s', t') \<or> (\<exists>n now. now_ms (w_wall w n) = Ok now \<and> collects (cutoff_of now (go_min_age opts)) (s, t) (s', t')
      \<and> files t \<le> files t' + go_limit opts \<and> (\<not> go_apply opts \<longrightarrow> still (s, t) (s', t')))"
  using assms(1) unfolding gc_def
proof (cases rule: jthenE)
  case (early e)
  with jobs_inD [OF still_admits] show ?thesis by blast
next
  case (on u g1)
  have s1: "still (s, t) g1" by (rule jobs_inD [OF still_admits on(1)])
  from on(2) show ?thesis
  proof (cases rule: jthenE)
    case (early e)
    with still.R_trans [OF s1 jobs_inD [OF still.in_store_reads(2)]] show ?thesis by blast
  next
    case clock: (on now g2)
    have s2: "still (s, t) g2" by (rule still.R_trans [OF s1 jobs_inD [OF still.in_store_reads(2) clock(1)]])
    have n: "\<exists>n. now_ms (w_wall w n) = Ok now" using clock(1) by (cases g1) (auto simp: jstore_def read_clock_def)
    have t2: "snd g2 = t" using still_tree [OF s2] by simp
    from gc_from_clock [OF clock(2)] t2 assms(2) n s2 still.R_trans [OF s2] collects.R_trans [OF still_collects [OF s2]]
    show ?thesis by (metis snd_conv)
  qed
qed

text \<open>
  Property C34. Collection never loses mail. Whatever fails and wherever it stops, it adds no file and changes none; every file it
  removes is a regular file that carries an identifier, was last modified at least the requested time before some reading of the clock, is logged,
  and, in the directory of messages, is one no row of the database refers to; it removes at most the requested number, and without the order to
  apply it removes nothing and leaves the database as it is. With it, nothing but its own audit trail changes in the database.
\<close>

theorem gc_safe:
  assumes "gc w ff sha256 opts emit (s, t) = (q, s', t')" "names_ok t"
  shows "same_mail (st_db s) (st_db s') \<and> (\<forall>kind. set (dir_of kind t') \<subseteq> set (dir_of kind t))
    \<and> (\<forall>kind name node. (name, node) \<in> set (dir_of kind t) \<and> (name, node) \<notin> set (dir_of kind t') \<longrightarrow>
         (\<exists>i c m n now. name = i @ suffix_of kind \<and> valid_id i \<and> node = FileNode c (Some m)
            \<and> now_ms (w_wall w n) = Ok now \<and> m \<le> max i64_min (now - int (go_min_age opts) * 1000)
            \<and> (kind = GcOrphan \<longrightarrow> (\<forall>b\<in>set (blob_rows (st_db s)). bl_id b \<noteq> i))
            \<and> (\<exists>a\<in>set (gc_actions (st_db s')). ga_kind a = kind \<and> ga_object a = i)))
    \<and> files t \<le> files t' + go_limit opts \<and> (\<not> go_apply opts \<longrightarrow> st_db s' = st_db s \<and> t' = t)"
  using gc_outcome [OF assms]
proof
  assume "still (s, t) (s', t')"
  then show ?thesis by (auto simp: still_def same_mail_def)
next
  assume "\<exists>n now. now_ms (w_wall w n) = Ok now \<and> collects (cutoff_of now (go_min_age opts)) (s, t) (s', t')
    \<and> files t \<le> files t' + go_limit opts \<and> (\<not> go_apply opts \<longrightarrow> still (s, t) (s', t'))"
  then obtain n now where c: "now_ms (w_wall w n) = Ok now" "collects (cutoff_of now (go_min_age opts)) (s, t) (s', t')"
    "files t \<le> files t' + go_limit opts" "\<not> go_apply opts \<longrightarrow> still (s, t) (s', t')" by blast
  have id: "id_in suf nm = Some i \<Longrightarrow> nm = i @ suf \<and> valid_id i" for suf nm i
    by (auto simp: id_in_def Let_def suffix_def split: if_splits)
  from c(2) assms(2) have "same_mail (st_db s) (st_db s')" "\<And>kind. set (dir_of kind t') \<subseteq> set (dir_of kind t)"
    and gone: "\<And>kind name node. (name, node) \<in> set (dir_of kind t) - set (dir_of kind t') \<Longrightarrow>
      \<exists>i. id_in (suffix_of kind) name = Some i \<and> doomed (cutoff_of now (go_min_age opts)) (st_db s) kind i node \<and> logged kind i (st_db s')"
    by (auto simp: collects_def)
  moreover have "\<exists>i c m n now. name = i @ suffix_of kind \<and> valid_id i \<and> node = FileNode c (Some m)
          \<and> now_ms (w_wall w n) = Ok now \<and> m \<le> max i64_min (now - int (go_min_age opts) * 1000)
          \<and> (kind = GcOrphan \<longrightarrow> (\<forall>b\<in>set (blob_rows (st_db s)). bl_id b \<noteq> i))
          \<and> (\<exists>a\<in>set (gc_actions (st_db s')). ga_kind a = kind \<and> ga_object a = i)"
    if "(name, node) \<in> set (dir_of kind t) \<and> (name, node) \<notin> set (dir_of kind t')" for kind name node
    using gone [of name node kind] that id c(1) unfolding doomed_def logged_def blob_known_def cutoff_of_def list_ex_iff by blast
  ultimately show ?thesis using c(3,4) by (auto simp: still_def)
qed

section \<open>A file is put back only as it was recorded\<close>

definition same_files :: "store \<times> tree \<Rightarrow> store \<times> tree \<Rightarrow> bool" where
  "same_files g g' \<longleftrightarrow> st_db (fst g') = st_db (fst g) \<and> dr_blobs (snd g') = dr_blobs (snd g)"

interpretation same_files: job_relation same_files
  by unfold_locales (auto simp: same_files_def)

lemma same_files_temp: "jobs_in same_files (write_temp name node)" "jobs_in same_files (jchange (unlink GcStaging name))"
  by (auto simp: jobs_in_def same_files_def write_temp_def jchange_def)

lemma same_files_copy: "jobs_in same_files (copy_source ff tm temp n ps acc)"
  by (induction ff tm temp n ps acc rule: copy_source.induct) (auto intro!: same_files.in_rules same_files_temp)

text \<open>Either no message file changes, and there is no success, or exactly the recorded one is back.\<close>

definition restored :: "(bytes \<Rightarrow> string) \<Rightarrow> int option \<Rightarrow> string \<Rightarrow> nat \<Rightarrow> string \<Rightarrow> store \<times> tree \<Rightarrow> store_error + nat \<Rightarrow> store \<times> tree \<Rightarrow> bool" where
  "restored sha256 tm name n digest g q g' \<longleftrightarrow> same_files g g' \<and> (\<forall>x. q \<noteq> Ok x)
     \<or> (\<exists>c. length c = n \<and> sha256 c = digest \<and> map_of (dr_blobs (snd g)) name = None \<and> st_db (fst g') = st_db (fst g)
          \<and> dr_blobs (snd g') = (name, FileNode c tm) # dr_blobs (snd g) \<and> (\<forall>x. q = Ok x \<longrightarrow> x = n))"

text \<open>Claims about a job that steps which change no message file, and failures after them, respect.\<close>

definition respected :: "(store \<times> tree \<Rightarrow> store_error + nat \<Rightarrow> store \<times> tree \<Rightarrow> bool) \<Rightarrow> bool" where
  "respected P \<longleftrightarrow> (\<forall>g g1 q g'. same_files g g1 \<longrightarrow> P g1 q g' \<longrightarrow> P g q g') \<and> (\<forall>g g' e. same_files g g' \<longrightarrow> P g (Err e) g')"

lemma respected_then:
  assumes "respected P" "jobs_in same_files m" "\<And>x g1 q g'. m g = (Ok x, g1) \<Longrightarrow> k x g1 = (q, g') \<Longrightarrow> P g1 q g'" "jthen m k g = (q, g')"
  shows "P g q g'"
  using assms(4)
proof (cases rule: jthenE)
  case (early e)
  with jobs_inD [OF assms(2) early(1)] assms(1) show ?thesis unfolding respected_def by blast
next
  case (on x g1)
  with jobs_inD [OF assms(2) on(1)] assms(1) assms(3) [OF on] show ?thesis unfolding respected_def by blast
qed

lemma respected_restored: "respected (restored sha256 tm name n digest)"
  unfolding respected_def by (intro conjI allI impI) (auto simp: restored_def same_files_def)

lemma restore_file_restored:
  assumes "restore_file ff sha256 tm temp name n digest ps g = (q, g')"
  shows "restored sha256 tm name n digest g q g'"
proof (rule respected_then [OF respected_restored same_files_copy _ assms [unfolded restore_file_def]])
  fix c g1 q g'
  let ?link = "jthen (link_blob name (FileNode c tm)) (\<lambda>_. jthen (os_call ff) (\<lambda>_. jreturn (length c)))"
  assume j: "jthen (jres (if length c \<noteq> n \<or> sha256 c \<noteq> digest then Err Integrity else Ok ())) (\<lambda>_.
     jthen (os_call ff) (\<lambda>_. jthen (os_call ff) (\<lambda>_. ?link))) g1 = (q, g')"
  have link: "restored sha256 tm name n digest g2 q g'" if "?link g2 = (q, g')" "length c = n" "sha256 c = digest" for g2 q g'
    using that by (cases g2) (auto simp: restored_def same_files_def jthen_def link_blob_def os_call_def jstore_def jreturn_def split: if_splits)
  show "restored sha256 tm name n digest g1 q g'"
  proof (cases "length c = n \<and> sha256 c = digest")
    case False
    with j show ?thesis by (auto simp: jthen_res jfail_def restored_def same_files_def split: if_splits prod.splits)
  next
    case True
    with j have "jthen (os_call ff) (\<lambda>_. jthen (os_call ff) (\<lambda>_. ?link)) g1 = (q, g')" by (simp add: jthen_res)
    then show ?thesis
    proof (rule respected_then [OF respected_restored same_files.in_reads(5), rotated])
      show "restored sha256 tm name n digest g2 q g'" if "jthen (os_call ff) (\<lambda>_. ?link) g2 = (q, g')" for g2 q g'
        by (rule respected_then [OF respected_restored same_files.in_reads(5) _ that]) (rule link, use True in auto)
    qed
  qed
qed

lemma with_temp_restored:
  assumes "\<And>q g'. m g = (q, g') \<Longrightarrow> restored sha256 tm name n digest g q g'" "with_temp ff temp m g = (q, g')"
  shows "restored sha256 tm name n digest g q g'"
proof -
  obtain r g1 where m: "m g = (r, g1)" by (metis surj_pair)
  obtain c g2 where c: "jthen (os_call ff) (\<lambda>_. jchange (unlink GcStaging temp)) g1 = (c, g2)"
    by (metis surj_pair)
  have "jobs_in same_files (jthen (os_call ff) (\<lambda>_. jchange (unlink GcStaging temp)))" by (intro same_files.in_rules same_files_temp)
  then have s2: "same_files g1 g2" using c by (rule jobs_inD)
  have "jobs_in same_files (jthen (jres c) (\<lambda>_. jthen (os_call ff) (\<lambda>_. jreturn x)))" for x :: nat by (intro same_files.in_rules)
  note fin = jobs_inD [OF this]
  show ?thesis
  proof (cases r)
    case (Inl e)
    with assms(2) m c have "g' = g2" "q = Err e" by (auto simp: with_temp_def)
    with assms(1) [OF m] s2 Inl show ?thesis by (auto simp: restored_def same_files_def)
  next
    case (Inr x)
    with assms(2) m c have j: "jthen (jres c) (\<lambda>_. jthen (os_call ff) (\<lambda>_. jreturn x)) g2 = (q, g')" by (auto simp: with_temp_def)
    then have "q = Ok y \<Longrightarrow> y = x" for y by (auto simp: jthen_Ok jreturn_def split: prod.splits)
    with assms(1) [OF m] s2 fin [OF j] Inr show ?thesis by (auto simp: restored_def same_files_def)
  qed
qed

lemma recover_from_restored:
  assumes "recover_from w ff sha256 tm name src n digest g = (q, g')"
  shows "restored sha256 tm name n digest g q g'"
proof (rule respected_then [OF respected_restored same_files.in_reads(5) _ assms [unfolded recover_from_def]])
  note steps = respected_then [OF respected_restored]
  have writes: "restored sha256 tm name n digest g q g'"
    if "jthen (write_temp temp (FileNode [] tm)) (\<lambda>_. with_temp ff temp (restore_file ff sha256 tm temp name n digest ps)) g = (q, g')"
    for temp ps g q g'
    by (rule steps [OF same_files_temp(1) _ that]) (rule with_temp_restored [OF restore_file_restored])
  have free: "restored sha256 tm name n digest g q g'"
    if "jthen (jread (\<lambda>t. map_of (dr_staging t) temp)) (\<lambda>old. jthen (jres (if old \<noteq> None then Err (Io OtherIo) else Ok ())) (\<lambda>_.
      jthen (write_temp temp (FileNode [] tm)) (\<lambda>_. with_temp ff temp (restore_file ff sha256 tm temp name n digest ps)))) g = (q, g')"
    for temp ps g q g'
    by (rule steps [OF same_files.in_reads(3) _ that], rule steps [OF same_files.in_reads(4) _], rule writes)
  fix u g1 q g'
  assume j: "(case src of NoSource \<Rightarrow> jfail (Io OtherIo) | SourceLink \<Rightarrow> jfail UnsafePath | SourceOther \<Rightarrow> jfail UnsafePath
     | SourceFile ps \<Rightarrow> jthen (jstore (new_uuid w)) (\<lambda>u. let temp = u @ ''.part'' in jthen (os_call ff) (\<lambda>_.
         jthen (jread (\<lambda>t. map_of (dr_staging t) temp)) (\<lambda>old. jthen (jres (if old \<noteq> None then Err (Io OtherIo) else Ok ())) (\<lambda>_.
         jthen (write_temp temp (FileNode [] tm)) (\<lambda>_. with_temp ff temp (restore_file ff sha256 tm temp name n digest ps))))))) g1 = (q, g')"
  show "restored sha256 tm name n digest g1 q g'"
  proof (cases src)
    case (SourceFile ps)
    note j' = j [unfolded SourceFile source_entry.case Let_def]
    show ?thesis
      by (rule steps [OF same_files.in_store_reads(4) _ j'], rule steps [OF same_files.in_reads(5)], rule free)
  qed (use j in \<open>auto simp: jfail_def restored_def same_files_def\<close>)
qed

definition recovered :: "(bytes \<Rightarrow> string) \<Rightarrow> int option \<Rightarrow> string \<Rightarrow> store \<times> tree \<Rightarrow> store_error + nat \<Rightarrow> store \<times> tree \<Rightarrow> bool" where
  "recovered sha256 tm i g q g' \<longleftrightarrow> same_files g g' \<and> (\<forall>x. q \<noteq> Ok x)
     \<or> (\<exists>b n. b \<in> set (blob_rows (st_db (fst g))) \<and> bl_id b = i \<and> bl_size b = int n \<and> restored sha256 tm (i @ ''.eml'') n (bl_sha256 b) g q g')"

lemma respected_recovered: "respected (recovered sha256 tm i)"
proof -
  have r: "same_files g g1 \<Longrightarrow> restored sha256 tm name n digest g1 q g' \<Longrightarrow> restored sha256 tm name n digest g q g'" for name n digest g g1 q g'
    using respected_restored unfolding respected_def by blast
  have "recovered sha256 tm i g q g'" if "same_files g g1" "recovered sha256 tm i g1 q g'" for g g1 q g'
    using that(2) same_files.R_trans [OF that(1)] r [OF that(1)] that(1) unfolding recovered_def same_files_def [of g g1] by metis
  then show ?thesis unfolding respected_def by (auto simp: recovered_def)
qed

lemma recover_blob_recovered:
  assumes "recover_blob w ff sha256 tm i src g = (q, g')"
  shows "recovered sha256 tm i g q g'"
proof -
  note steps = respected_then [OF respected_recovered]
  let ?rest = "\<lambda>row. jthen (jres (ok_or row NotFound)) (\<lambda>b. jthen (jres (unsigned_column (bl_size b))) (\<lambda>n.
     recover_from w ff sha256 tm (i @ ''.eml'') src n (bl_sha256 b)))"
  have found: "recovered sha256 tm i g1 q g'"
    if "query w (\<lambda>d. first_row (\<lambda>b. bl_id b = i) (blob_rows d)) s = (Ok row, fst g1)" "?rest row g1 = (q, g')" for s row g1 q g'
  proof (cases "\<exists>b n. row = Some b \<and> unsigned_column (bl_size b) = Ok n")
    case True
    then obtain b n where b: "row = Some b" "unsigned_column (bl_size b) = Ok n" by blast
    with that(2) have "recover_from w ff sha256 tm (i @ ''.eml'') src n (bl_sha256 b) g1 = (q, g')" by (simp add: jthen_res ok_or_def)
    then have "restored sha256 tm (i @ ''.eml'') n (bl_sha256 b) g1 q g'" by (rule recover_from_restored)
    moreover have "b \<in> set (blob_rows (st_db (fst g1))) \<and> bl_id b = i"
      using that(1) b(1) by (auto simp: query_def split: if_splits dest!: sym [of "tick _"] first_row_Some)
    ultimately show ?thesis using b(2) by (auto simp: recovered_def unsigned_column_def split: if_splits)
  next
    case False
    with that(2) have "g' = g1 \<and> (\<forall>x. q \<noteq> Ok x)"
      by (cases row) (auto simp: jthen_res ok_or_def jfail_def unsigned_column_def split: if_splits)
    then show ?thesis by (auto simp: recovered_def same_files_def)
  qed
  have asked: "recovered sha256 tm i h q g'"
    if "jthen (jstore (query w (\<lambda>d. first_row (\<lambda>b. bl_id b = i) (blob_rows d)))) ?rest h = (q, g')" for h q g'
    by (rule steps [OF same_files.in_store_reads(1) _ that], rule found [of "fst h"])
      (auto simp: jstore_def split: prod.splits)
  show ?thesis
    by (rule steps [OF same_files.in_reads(6) _ assms [unfolded recover_blob_def]], rule steps [OF same_files.in_reads(4)],
        rule steps [OF same_files.in_reads(5)], rule steps [OF same_files.in_reads(3)], rule steps [OF same_files.in_reads(4)], rule asked)
qed

text \<open>
  Property C35. A lost message file is put back only as it was recorded. Whatever the source holds and whatever fails, the database
  does not change and no existing message file does; a file appears only under a free name the database refers to, and its contents have exactly
  the recorded length and hash; success means that it did.
\<close>

theorem recover_exact:
  assumes "recover_blob w ff sha256 tm i src (s, t) = (q, s', t')"
  shows "st_db s' = st_db s \<and> (dr_blobs t' = dr_blobs t \<and> (\<forall>n. q \<noteq> Ok n)
    \<or> (\<exists>c b. b \<in> set (blob_rows (st_db s)) \<and> bl_id b = i \<and> bl_size b = int (length c) \<and> bl_sha256 b = sha256 c
         \<and> map_of (dr_blobs t) (i @ ''.eml'') = None \<and> dr_blobs t' = (i @ ''.eml'', FileNode c tm) # dr_blobs t
         \<and> (\<forall>n. q = Ok n \<longrightarrow> n = length c)))"
  using recover_blob_recovered [OF assms] by (auto simp: recovered_def restored_def same_files_def)

section \<open>Samples\<close>

definition sample_tree :: tree where
  "sample_tree = \<lparr>dr_staging = [(replicate 32 CHR ''a'' @ ''.part'', FileNode ''x'' (Some 5))],
     dr_blobs = [(replicate 32 CHR ''a'' @ ''.eml'', FileNode ''xyz'' (Some 5))], dr_reserved = 0\<rparr>"

definition sample_gc :: "(store_error + gc_report) \<times> store \<times> tree" where
  "sample_gc = gc quiet_world (\<lambda>_. False) (\<lambda>_. replicate 64 CHR ''0'') \<lparr>go_apply = True, go_min_age = 0, go_limit = 9\<rparr> (\<lambda>_. Ok ())
     (store_of sample_mail_db, sample_tree)"

lemma sample_gc_collects: "dr_blobs (snd (snd sample_gc)) = []" "dr_staging (snd (snd sample_gc)) = []"
  by code_simp+

lemma sample_names: "names_ok sample_tree"
  unfolding names_ok_def by (rule allI, rename_tac kind, case_tac kind) (auto simp: sample_tree_def)

theorem gc_safe_witness:
  "same_mail sample_mail_db (st_db (fst (snd sample_gc))) \<and> dr_blobs (snd (snd sample_gc)) = []
   \<and> (\<exists>a\<in>set (gc_actions (st_db (fst (snd sample_gc)))). ga_kind a = GcOrphan \<and> ga_object a = replicate 32 CHR ''a'')"
proof -
  obtain q s' t' where g: "sample_gc = (q, s', t')" by (cases sample_gc)
  note safe = gc_safe [OF g [unfolded sample_gc_def] sample_names]
  have e: "dr_blobs t' = []" using sample_gc_collects(1) unfolding g by simp
  then have "(replicate 32 CHR ''a'' @ ''.eml'', FileNode ''xyz'' (Some 5)) \<in> set (dir_of GcOrphan sample_tree)
    \<and> (replicate 32 CHR ''a'' @ ''.eml'', FileNode ''xyz'' (Some 5)) \<notin> set (dir_of GcOrphan t')"
    by (simp add: sample_tree_def)
  with safe have "\<exists>i. replicate 32 CHR ''a'' @ ''.eml'' = i @ suffix_of GcOrphan \<and> (\<exists>a\<in>set (gc_actions (st_db s')). ga_kind a = GcOrphan \<and> ga_object a = i)"
    by blast
  then have "\<exists>a\<in>set (gc_actions (st_db s')). ga_kind a = GcOrphan \<and> ga_object a = replicate 32 CHR ''a''" by simp
  with safe e show ?thesis unfolding g by (simp add: store_of_def)
qed

definition sample_lost_db :: database where
  "sample_lost_db = sample_mail_db\<lparr>blob_rows := [\<lparr>bl_id = replicate 32 CHR ''b'', bl_size = 3, bl_sha256 = ''0'', bl_created = 5\<rparr>]\<rparr>"

definition sample_recovery :: "(store_error + nat) \<times> store \<times> tree" where
  "sample_recovery = recover_blob quiet_world (\<lambda>_. False) (\<lambda>c. if c = ''abc'' then ''0'' else ''1'') None (replicate 32 CHR ''b'')
     (SourceFile [Some ''a'', Some ''bc'', Some []]) (store_of sample_lost_db, sample_tree)"

lemma sample_recovery_Ok: "fst sample_recovery = Ok 3"
  by code_simp

theorem recover_exact_witness:
  "st_db (fst (snd sample_recovery)) = sample_lost_db
   \<and> (\<exists>c. length c = 3 \<and> dr_blobs (snd (snd sample_recovery)) = (replicate 32 CHR ''b'' @ ''.eml'', FileNode c None) # dr_blobs sample_tree)"
proof -
  obtain q s' t' where g: "sample_recovery = (q, s', t')" by (cases sample_recovery)
  have "q = Ok 3" using sample_recovery_Ok unfolding g by simp
  with recover_exact [OF g [unfolded sample_recovery_def]] show ?thesis unfolding g by (auto simp: store_of_def)
qed

end
