(* ===== verification/Spec2Isabelle.thy ===== *)
theory Spec2Isabelle
  imports Address Framing Commands Session Headers Config Staging Mail_Transfer Smtp_Client Store Server_Ends Administration Admission Maintenance
begin

text \<open>
  Rustymail, a laboratory mail server and submission client written in Rust, five crates under \<open>src/crates\<close>: \<open>core\<close>
  (addresses, configuration), \<open>protocol\<close> (framing, commands, session, headers), \<open>store\<close> (files, database, queue), \<open>client\<close>
  (preparing and sending a message) and \<open>server\<close> (sessions, authentication, relaying, administration). This library models
  them as functions on explicit states and proves what makes them correct.

  \<^bold>\<open>How the parts interact.\<close> A client connects; the accept loop admits it or turns it away; the session reads lines, parses
  commands and drives the pure SMTP state machine; on a submission port it may switch to TLS and authenticate. DATA streams the
  message through the decoder and the header filter into a staged file behind freshly written trace fields; the file is published
  and one transaction of the store records the message, its local deliveries and its place in the relay queue, after checking the
  right to send once more. The queue leases deliveries to attempts of the SMTP client; their results are recorded under the lease;
  failures give rise to reports. The administrator withdraws rights, and the sessions that hold them are told. When the store is
  idle its files can be checked, collected and recovered.

  \<^bold>\<open>Theories, sources and results.\<close>

  \<^item> \<open>Rusty_Prelude\<close>: results, machine integer bounds, Rust's string library as far as it is used, decimal numbers, and the locale
    \<open>machine_invariant\<close> of invariants along a run.
  \<^item> \<open>Address\<close> (\<open>core/src/lib.rs\<close>): parsed addresses are canonical and parse back.
  \<^item> \<open>Framing\<close> (\<open>LineDecoder\<close>, \<open>decode_transparency\<close> of \<open>protocol/src/lib.rs\<close>, the reading loops of server and client): the decoder
    agrees with a definition on the whole input, however it is cut; the locale \<open>chunk_consumer\<close> carries this over to its users.
  \<^item> \<open>Commands\<close>, \<open>Session\<close> (\<open>protocol/src/lib.rs\<close>): the parser reads back what the client writes; an envelope that reaches DATA has
    the history it must have.
  \<^item> \<open>Headers\<close> (\<open>protocol/src/headers.rs\<close>, \<open>SubmissionHeaders\<close> of \<open>server/src/lib.rs\<close>): private fields are dropped, the author is pinned.
  \<^item> \<open>Config\<close> (\<open>core/src/config.rs\<close>, \<open>client/src/config.rs\<close>): what validation accepts, every part built from it accepts.
  \<^item> \<open>Storage_Runtime\<close>, \<open>Staging\<close> (\<open>store/src/runtime.rs\<close>, \<open>blob.rs\<close>, \<open>verified.rs\<close>): staged files under arbitrary partial writes and
    failures; a published file holds exactly what was appended; a verified reader delivers exactly the recorded file or fails.
  \<^item> \<open>Mail_Transfer\<close> (\<open>client/src/message.rs\<close>, \<open>send_body\<close> of \<open>client/src/smtp.rs\<close>, \<open>receive_message\<close> of \<open>server/src/lib.rs\<close>): preparing,
    sending and receiving are inverse to each other through any chunking. The locale \<open>counted_consumer\<close> is their common loop.
  \<^item> \<open>Smtp_Client\<close> (\<open>client/src/smtp.rs\<close>): a whole attempt; a delivery is reported only for an accepted, completely sent and marked body.
  \<^item> \<open>Database\<close>, \<open>Schema\<close> (\<open>store/schema.sql\<close>, the statements and transactions of \<open>store/src\<close>): tables as lists of records, constraints,
    transactions with their commit protocols. \<open>db_relation\<close> is the contract of a relation every statement keeps: its rules lift it
    through transactions. \<open>keyed_table\<close> is the contract of a table with a unique key.
  \<^item> \<open>Identity\<close>, \<open>Local_Delivery\<close>, \<open>Acceptance\<close> (\<open>store/src/identity.rs\<close>, \<open>local_delivery.rs\<close>, \<open>lib.rs\<close>): rights only shrink, deliveries
    keep the counts, an acceptance is all or nothing, recognised when retried, and delivers to exactly the right mailboxes.
  \<^item> \<open>Queue\<close>, \<open>Queue_Invariant\<close>, \<open>Queue_Laws\<close> (\<open>store/src/queue.rs\<close>): the invariant behind the store's integrity check, the order in which
    deliveries evolve, bounds of claims, results, the guarded clock.
  \<^item> \<open>Notification\<close> (\<open>store/src/notification.rs\<close>): who gets a report, its text, at most one per failure.
  \<^item> \<open>Store\<close>: all operations as one step relation with restarts; consistency, fencing, unknown outcomes and withdrawn rights along
    every run; leases refine an abstract fencing register.
  \<^item> \<open>Server_Auth\<close>, \<open>Mail_Trace\<close>, \<open>Smtp_Server\<close> (\<open>server/src/auth.rs\<close>, \<open>trace.rs\<close>, \<open>lib.rs\<close>, \<open>auth_dialog.rs\<close>, \<open>worker.rs\<close>): rate limits,
    credential checks, trace fields and the whole session loop. \<open>Server_Frame\<close> holds the locale \<open>conn_relation\<close>, a relation between
    connection states that the bookkeeping of every step keeps, and its first instances; \<open>Server_Accepts\<close> follows an accepted
    message back to its DATA command and bounds what a session may do; \<open>Server_Ends\<close> has the step to TLS, termination and sample
    sessions.
  \<^item> \<open>Admission\<close> (\<open>serve_until\<close>, \<open>ConnectionLease\<close> of \<open>server/src/lib.rs\<close>): the limits on connections and their books.
  \<^item> \<open>Administration\<close> (\<open>server/src/admin.rs\<close>, \<open>worker.rs\<close>, \<open>revocation.rs\<close>): requests, and sessions that learn of a withdrawal.
  \<^item> \<open>Maintenance\<close> (\<open>store/src/maintenance.rs\<close>, \<open>check_integrity\<close> of \<open>store/src/lib.rs\<close>): collection and recovery of message files. Its
    locale \<open>job_relation\<close> is the contract of relations that steps on database and directories keep.

  \<^bold>\<open>How code becomes definitions.\<close> Fallible code returns \<open>Err\<close> or \<open>Ok\<close>, the two sides of a sum. The store is a record that every
  operation takes and returns. What the operating system, SQLite and the clocks do is the record \<open>world\<close>: which statement fails,
  whether a commit is applied, refused or applied and reported as an error, the readings of the clocks and the identifiers drawn, all
  indexed by a step counter; theorems hold for every world, apart from \<open>uuid_ok\<close> (identifiers are drawn anew) where two of them
  must differ. A connection reads chunks from a list, and a script says which writes, waits and deadlines fail. Every future that a
  \<open>select!\<close> may drop is a step of its own where the difference is visible (\<open>watch_step\<close>). A restart is a step that keeps the
  database and forgets everything in memory.

  \<^bold>\<open>Parameters.\<close> SHA-256, the hash that spreads retries, Argon2 and Base64, the TLS handshake, the date format, the resolver: functions
  or outcomes the definitions take as arguments; where a theorem relies on one, its hypothesis is the documented behaviour (a decoder
  reads back what its encoder wrote) and the witness instantiates it.

  \<^bold>\<open>Bounds and fuel.\<close> Numbers are natural numbers or integers with the checks of the code (\<open>checked_add\<close>, \<open>try_from\<close>, \<open>saturating_sub\<close>)
  written out against the widths of the prelude. Fixed limits are those of the code: 64 lines of a reply, 128 deliveries a batch,
  16384 bytes of a report, windows of 60 seconds and 4096 entries for attempts, 1000 candidates a collection. Loops are structural
  in their input; the loops that append to a file through a disk that writes partially, and the loop of a session, are partial
  functions, and it is proved that they end: an append after at most as many writes as the script allows, a session after at most
  as many passes as there are bytes to read before and after the handshake.

  \<^bold>\<open>Not modelled.\<close> Binding listeners, TLS certificate files, JSON and TOML text, log output and the command line programs are input and
  output around the modelled operations. The steps of \<open>store/src/schema.rs\<close> and the WAL checkpoint are statements whose effect is
  SQLite's. The timers that drive relay attempts are not modelled: \<open>Store\<close> allows the queue's operations in every order, and
  \<open>Smtp_Client\<close> has the attempt they frame.
\<close>

end
